(* ===== verification/Prelude.thy ===== *)
theory Prelude
  imports Main "HOL-Library.Word" "HOL-Library.Sublist"
begin

text \<open>
  Shared vocabulary of the development: the faults a C function of the extension can
  run into, the result type that carries them, byte strings, the byte searches of the
  C library (memchr, memmem) with the locale of their common contract, and the
  generic list and integer lemmas used by several components.
\<close>

section \<open>Faults and results\<close>

text \<open>
  A call either yields a value or stops. \<open>OutOfBounds\<close> is a read or write outside the
  object the code allocated, \<open>BadConversion\<close> a float to integer conversion C leaves
  undefined, \<open>DivByZero\<close> a trapping division, \<open>PgError\<close> an \<open>elog(ERROR)\<close> (which
  does not return: log.h defines \<open>err\<close> as \<open>elog(ERROR, ...)\<close>), and \<open>Blocked\<close> a system
  call that has not returned yet.
\<close>

datatype fault = OutOfBounds | BadConversion | DivByZero | PgError string | Blocked

type_synonym 'a res = "fault + 'a"

type_synonym bytes = "char list"

text \<open>
  The \<open>unsigned int\<close> state of \<open>rand_r\<close>. The generator itself is a parameter of the model.
\<close>

type_synonym seed = "32 word"

named_theorems res_simps \<open>evaluation of results\<close>

fun rbind :: "'a res \<Rightarrow> ('a \<Rightarrow> 'b res) \<Rightarrow> 'b res" where
  "rbind (Inl e) f = Inl e"
| "rbind (Inr x) f = f x"

lemma rbind_Inr_iff [res_simps]:
  "rbind m f = Inr y \<longleftrightarrow> (\<exists>x. m = Inr x \<and> f x = Inr y)"
  by (cases m) auto

lemma rbind_Inl_iff:
  "rbind m f = Inl e \<longleftrightarrow> m = Inl e \<or> (\<exists>x. m = Inr x \<and> f x = Inl e)"
  by (cases m) auto

lemma rbind_cong [fundef_cong]:
  "m = m' \<Longrightarrow> (\<And>x. m' = Inr x \<Longrightarrow> f x = g x) \<Longrightarrow> rbind m f = rbind m' g"
  by (cases m') auto

lemma rbind_assoc: "rbind (rbind m f) g = rbind m (\<lambda>x. rbind (f x) g)"
  by (cases m) auto

section \<open>32-bit integers of C\<close>

text \<open>The value a C \<open>int32\<close> variable holds after an assignment from a wider integer.\<close>

definition to_int32 :: "int \<Rightarrow> int" where
  "to_int32 x = signed_take_bit 31 x"

lemma to_int32_id [simp]: "- (2 ^ 31) \<le> x \<Longrightarrow> x < 2 ^ 31 \<Longrightarrow> to_int32 x = x"
  by (simp add: to_int32_def signed_take_bit_int_eq_self)

section \<open>Lists\<close>

lemma take_drop_mid: "i + n \<le> length xs \<Longrightarrow> xs = take i xs @ take n (drop i xs) @ drop (i + n) xs"
  by (metis append_take_drop_id drop_drop add.commute)

lemma length_take_le [simp]: "i \<le> length xs \<Longrightarrow> length (take i xs) = i"
  by simp

lemma drop_nth: "i < length xs \<Longrightarrow> drop i xs = xs ! i # drop (i + 1) xs"
  by (simp add: Cons_nth_drop_Suc)

lemma drop_nth2: "i + 1 < length xs \<Longrightarrow> drop i xs = xs ! i # xs ! (i + 1) # drop (i + 2) xs"
  using drop_nth [of i xs] drop_nth [of "i + 1" xs] by simp

lemma drop_eq_shift: "drop p xs = ys @ zs \<Longrightarrow> drop (p + length ys) xs = zs"
  by (metis add.commute append_eq_conv_conj drop_drop)

lemma drop_eq_nth: "drop p xs = ys @ z # zs \<Longrightarrow> xs ! (p + length ys) = z"
  by (metis drop_eq_shift nth_via_drop)

lemma drop_eq_length: "drop p xs = ys \<Longrightarrow> ys \<noteq> [] \<Longrightarrow> p + length ys = length xs"
  by auto

text \<open>The non-NULL elements of an SQL array.\<close>

fun nonnull :: "'a option list \<Rightarrow> 'a list" where
  "nonnull [] = []"
| "nonnull (None # xs) = nonnull xs"
| "nonnull (Some v # xs) = v # nonnull xs"

lemma set_nonnull: "set (nonnull xs) = {v. Some v \<in> set xs}"
  by (induction xs rule: nonnull.induct) auto

lemma length_nonnull: "length (nonnull xs) \<le> length xs"
  by (induction xs rule: nonnull.induct) auto

lemma nonnull_map_Some [simp]: "nonnull (map Some vs) = vs"
  by (induction vs) auto

section \<open>Searching bytes\<close>

text \<open>
  \<open>memchr\<close> and \<open>memmem\<close> of the C library: the offset of the first occurrence in the
  bytes from the start pointer to the end of the object, None for a NULL result.
\<close>

fun memchr :: "char \<Rightarrow> bytes \<Rightarrow> nat option" where
  "memchr c [] = None"
| "memchr c (x # xs) = (if x = c then Some 0 else map_option Suc (memchr c xs))"

fun memmem :: "bytes \<Rightarrow> bytes \<Rightarrow> nat option" where
  "memmem pat [] = (if pat = [] then Some 0 else None)"
| "memmem pat (x # xs) =
     (if prefix pat (x # xs) then Some 0 else map_option Suc (memmem pat xs))"

text \<open>
  The contract of a first-occurrence search, and what its clients use: a hit splits the
  text around the first occurrence, the split is unique, the rest is shorter, and any
  two searches for the same pattern agree.
\<close>

locale first_match =
  fixes pat :: bytes and find :: "bytes \<Rightarrow> nat option"
  assumes pat_nonempty: "pat \<noteq> []"
    and hit: "find xs = Some i \<Longrightarrow> prefix pat (drop i xs)"
    and first: "find xs = Some i \<Longrightarrow> j < i \<Longrightarrow> \<not> prefix pat (drop j xs)"
    and miss: "find xs = None \<Longrightarrow> \<not> prefix pat (drop j xs)"
begin

lemma hit_bound: "find xs = Some i \<Longrightarrow> i + length pat \<le> length xs"
proof -
  assume "find xs = Some i"
  then have "length pat \<le> length (drop i xs)"
    by (rule hit [THEN prefix_length_le])
  moreover have "0 < length pat" using pat_nonempty by simp
  ultimately show ?thesis unfolding length_drop by linarith
qed

lemma hit_split:
  assumes "find xs = Some i"
  shows "xs = take i xs @ pat @ drop (i + length pat) xs"
proof -
  obtain zs where z: "drop i xs = pat @ zs"
    using hit [OF assms] by (auto simp: prefix_def)
  have "drop (i + length pat) xs = drop (length pat) (drop i xs)"
    by (simp add: add.commute)
  with z have "drop i xs = pat @ drop (i + length pat) xs"
    by simp
  then show ?thesis by (metis append_take_drop_id)
qed

lemma rest_shorter: "find xs = Some i \<Longrightarrow> length (drop (i + length pat) xs) < length xs"
  using hit_bound [of xs i] pat_nonempty by (cases pat) auto

lemma find_None_iff: "find xs = None \<longleftrightarrow> (\<forall>j. \<not> prefix pat (drop j xs))"
proof
  show "find xs = None \<Longrightarrow> \<forall>j. \<not> prefix pat (drop j xs)"
    using miss by blast
next
  assume "\<forall>j. \<not> prefix pat (drop j xs)"
  then show "find xs = None"
    using hit by (cases "find xs") auto
qed

lemma find_eqI:
  assumes "prefix pat (drop i xs)" and "\<And>j. j < i \<Longrightarrow> \<not> prefix pat (drop j xs)"
  shows "find xs = Some i"
proof (cases "find xs")
  case None
  with assms(1) miss show ?thesis by blast
next
  case (Some k)
  have "\<not> k < i" using hit [OF Some] assms(2) by blast
  moreover have "\<not> i < k" using first [OF Some] assms(1) by blast
  ultimately show ?thesis using Some by simp
qed

text \<open>What follows the first occurrence does not matter.\<close>

lemma find_append:
  assumes "find (xs @ pat) = Some (length xs)"
  shows "find (xs @ pat @ ys) = Some (length xs)"
proof (rule find_eqI)
  show "prefix pat (drop (length xs) (xs @ pat @ ys))" by simp
next
  fix j assume j: "j < length xs"
  have "\<not> prefix pat (drop j (xs @ pat))" using first [OF assms j] .
  moreover have "length pat \<le> length (drop j (xs @ pat))" using j by simp
  moreover have "drop j (xs @ pat @ ys) = drop j (xs @ pat) @ ys" using j by simp
  ultimately show "\<not> prefix pat (drop j (xs @ pat @ ys))"
    by (metis prefix_append prefix_length_prefix prefix_order.order_refl prefix_same_cases)
qed

lemma find_take: "find xs = Some i \<Longrightarrow> find (take i xs @ pat) = Some (length (take i xs))"
proof (rule find_eqI)
  assume i: "find xs = Some i"
  show "prefix pat (drop (length (take i xs)) (take i xs @ pat))" by simp
  fix j assume j: "j < length (take i xs)"
  have "xs = (take i xs @ pat) @ drop (i + length pat) xs" using hit_split [OF i] by simp
  then have "drop j xs = drop j (take i xs @ pat) @ drop (i + length pat) xs"
    using j by (metis drop_append drop_0 diff_is_0_eq length_append less_imp_le_nat trans_le_add1)
  moreover have "\<not> prefix pat (drop j xs)" using first [OF i] j by simp
  ultimately show "\<not> prefix pat (drop j (take i xs @ pat))" by (metis prefix_prefix)
qed

end

lemma first_match_unique:
  assumes f: "first_match p f" and g: "first_match p g"
  shows "f xs = g xs"
proof (cases "f xs")
  case None
  then show ?thesis
    using first_match.find_None_iff [OF f] first_match.find_None_iff [OF g] by metis
next
  case (Some i)
  have "g xs = Some i"
    using first_match.hit [OF f Some] first_match.first [OF f Some]
    by (rule first_match.find_eqI [OF g])
  with Some show ?thesis by simp
qed

lemma memmem_hit: "memmem pat xs = Some i \<Longrightarrow> prefix pat (drop i xs)"
  by (induction xs arbitrary: i) (auto split: if_splits)

lemma memmem_first: "memmem pat xs = Some i \<Longrightarrow> j < i \<Longrightarrow> \<not> prefix pat (drop j xs)"
proof (induction xs arbitrary: i j)
  case (Cons x xs)
  then show ?case by (cases j) (auto split: if_splits)
qed (auto split: if_splits)

lemma memmem_miss: "memmem pat xs = None \<Longrightarrow> \<not> prefix pat (drop j xs)"
proof (induction xs arbitrary: j)
  case (Cons x xs)
  then show ?case by (cases j) (auto split: if_splits)
qed (auto split: if_splits)

lemma first_match_memmem: "pat \<noteq> [] \<Longrightarrow> first_match pat (memmem pat)"
  by unfold_locales (auto dest: memmem_hit memmem_first memmem_miss)

lemma memchr_memmem: "memchr c xs = memmem [c] xs"
  by (induction xs) auto

interpretation memmem2: first_match "[a, b]" "memmem [a, b]" for a b
  by (rule first_match_memmem) simp

interpretation memchr: first_match "[c]" "memchr c" for c
  using first_match_memmem [of "[c]"] by (simp add: memchr_memmem [abs_def])

lemma memchr_None_iff: "memchr c xs = None \<longleftrightarrow> c \<notin> set xs"
  by (induction xs) auto

lemma memchr_Some_nth: "memchr c xs = Some i \<Longrightarrow> i < length xs \<and> xs ! i = c \<and> c \<notin> set (take i xs)"
  by (induction xs arbitrary: i) (auto split: if_splits)

lemma memchr_append_notin: "c \<notin> set xs \<Longrightarrow> memchr c (xs @ c # ys) = Some (length xs)"
  by (induction xs) auto

lemmas memchr_facts = memchr_Some_nth memchr.hit_bound memchr.hit_split

end
