(* ===== verification/Tag_Array.thy ===== *)
theory Tag_Array
  imports Prelude
begin

text \<open>
  The integer sets that f_tag_action.c and f_tag_compare.c build in \<open>palloc\<close>ed arrays of
  \<open>Datum\<close>s: an array with the number of bytes the allocator granted, the linear scan
  \<open>set_contains_value\<close> (the same function in both files), and the loop that collects the
  distinct non-NULL elements of an SQL array. A read or a write past the granted bytes is
  the fault \<open>OutOfBounds\<close>.
\<close>

section \<open>Arrays of Datums\<close>

text \<open>
  \<open>elems\<close> are the entries 0 to \<open>end_pos\<close>; \<open>room\<close> is the size in bytes of the chunk. An SQL
  \<open>int[]\<close> is the list \<open>array_iterate\<close> runs over, None for a NULL element.
\<close>

record darray =
  elems :: "int list"
  room :: nat

definition sizeof_Datum :: nat where
  "sizeof_Datum = 8"

definition in_room :: "darray \<Rightarrow> nat \<Rightarrow> bool" where
  "in_room s n \<longleftrightarrow> sizeof_Datum * n \<le> room s"

definition darray_new :: "nat \<Rightarrow> darray" where
  "darray_new r = \<lparr>elems = [], room = r\<rparr>"

text \<open>The scan \<open>while(end_pos >= 0)\<close> runs from the last entry down to the first.\<close>

primrec scan_down :: "int list \<Rightarrow> int \<Rightarrow> bool" where
  "scan_down [] v = False"
| "scan_down (x # xs) v = (if x = v then True else scan_down xs v)"

definition set_contains_value :: "darray \<Rightarrow> int \<Rightarrow> bool res" where
  "set_contains_value s v =
     (if in_room s (length (elems s)) then Inr (scan_down (rev (elems s)) v)
      else Inl OutOfBounds)"

text \<open>\<open>s[++pos] = v\<close>.\<close>

definition darray_push :: "darray \<Rightarrow> int \<Rightarrow> darray res" where
  "darray_push s v =
     (if in_room s (Suc (length (elems s))) then Inr (s\<lparr>elems := elems s @ [v]\<rparr>)
      else Inl OutOfBounds)"

text \<open>\<open>construct_array(s, pos+1, INT4OID, ...)\<close> reads every entry.\<close>

definition construct_array :: "darray \<Rightarrow> int option list res" where
  "construct_array s =
     (if in_room s (length (elems s)) then Inr (map Some (elems s)) else Inl OutOfBounds)"

text \<open>
  The collecting loop: skip NULLs, skip values already there, append the rest.
\<close>

fun collect_unique :: "darray \<Rightarrow> int option list \<Rightarrow> darray res" where
  "collect_unique s [] = Inr s"
| "collect_unique s (None # xs) = collect_unique s xs"
| "collect_unique s (Some v # xs) =
     rbind (set_contains_value s v)
       (\<lambda>c. if c then collect_unique s xs
            else rbind (darray_push s v) (\<lambda>s'. collect_unique s' xs))"

section \<open>Reference: adding values to a list without duplicates\<close>

fun add_new :: "'a list \<Rightarrow> 'a list \<Rightarrow> 'a list" where
  "add_new acc [] = acc"
| "add_new acc (v # vs) = add_new (if v \<in> set acc then acc else acc @ [v]) vs"

abbreviation uniq :: "'a list \<Rightarrow> 'a list" where
  "uniq vs \<equiv> add_new [] vs"

lemma set_add_new [simp]: "set (add_new acc vs) = set acc \<union> set vs"
  by (induction vs arbitrary: acc) auto

lemma distinct_add_new: "distinct acc \<Longrightarrow> distinct (add_new acc vs)"
  by (induction vs arbitrary: acc) auto

lemma distinct_uniq [simp]: "distinct (uniq vs)"
  by (simp add: distinct_add_new)

lemma length_add_new: "length (add_new acc vs) \<le> length acc + length vs"
proof (induction vs arbitrary: acc)
  case (Cons v vs)
  show ?case using Cons [of acc] Cons [of "acc @ [v]"] by simp
qed simp

lemma length_uniq_card: "length (uniq vs) = card (set vs)"
  using distinct_card [OF distinct_uniq [of vs]] by simp

lemma add_new_extends: "\<exists>zs. add_new acc vs = acc @ zs"
proof (induction vs arbitrary: acc)
  case (Cons v vs)
  obtain z1 z2 where "add_new acc vs = acc @ z1" and "add_new (acc @ [v]) vs = (acc @ [v]) @ z2"
    using Cons by meson
  then show ?case by simp
qed simp

lemma add_new_length_mono: "length acc \<le> length (add_new acc vs)"
proof -
  obtain zs where "add_new acc vs = acc @ zs" using add_new_extends by blast
  then show ?thesis by simp
qed

lemma uniq_Nil_iff [simp]: "uniq vs = [] \<longleftrightarrow> vs = []"
  using set_add_new [of "[]" vs] by (metis set_empty sup_bot_left)

lemma length_uniq_nonnull: "length (uniq (nonnull xs)) \<le> length xs"
  using length_add_new [of "[]" "nonnull xs"] length_nonnull [of xs] by simp

section \<open>The contract of a set kept in an array\<close>

text \<open>
  What the loops rely on: membership is decided without a fault while the entries are
  inside the chunk, a push appends while one more entry fits, and fitting is monotone.
  The loop's own equations are part of the interface, so its result is proved once, for
  every loop of this shape.
\<close>

locale array_set =
  fixes member :: "'s \<Rightarrow> 'v \<Rightarrow> bool res"
    and push :: "'s \<Rightarrow> 'v \<Rightarrow> 's res"
    and view :: "'s \<Rightarrow> 'v list"
    and fits :: "'s \<Rightarrow> nat \<Rightarrow> bool"
    and collect :: "'s \<Rightarrow> 'v option list \<Rightarrow> 's res"
  assumes member_ok: "fits s (length (view s)) \<Longrightarrow> member s v = Inr (v \<in> set (view s))"
    and push_ok: "fits s (Suc (length (view s))) \<Longrightarrow>
      \<exists>s'. push s v = Inr s' \<and> view s' = view s @ [v] \<and> fits s' = fits s"
    and push_full: "\<not> fits s (Suc (length (view s))) \<Longrightarrow> push s v = Inl OutOfBounds"
    and fits_mono: "fits s n \<Longrightarrow> m \<le> n \<Longrightarrow> fits s m"
    and collect_Nil: "collect s [] = Inr s"
    and collect_None: "collect s (None # xs) = collect s xs"
    and collect_Some: "collect s (Some v # xs) =
      rbind (member s v) (\<lambda>c. if c then collect s xs else rbind (push s v) (\<lambda>s'. collect s' xs))"
begin

lemma collect_ok:
  "fits s (length (add_new (view s) (nonnull xs))) \<Longrightarrow>
    \<exists>s'. collect s xs = Inr s' \<and> view s' = add_new (view s) (nonnull xs) \<and> fits s' = fits s"
proof (induction xs arbitrary: s rule: nonnull.induct)
  case 1
  show ?case by (simp add: collect_Nil)
next
  case (2 xs)
  then show ?case by (simp add: collect_None)
next
  case (3 v xs)
  have here: "fits s (length (view s))"
    using "3.prems" add_new_length_mono by (rule fits_mono)
  show ?case
  proof (cases "v \<in> set (view s)")
    case True
    then show ?thesis using "3.IH" [of s] "3.prems" by (simp add: collect_Some member_ok [OF here])
  next
    case False
    have "fits s (Suc (length (view s)))"
      using "3.prems" False add_new_length_mono [of "view s @ [v]" "nonnull xs"]
      by (auto intro: fits_mono)
    from push_ok [OF this] obtain s1 where
      s1: "push s v = Inr s1" "view s1 = view s @ [v]" "fits s1 = fits s"
      by blast
    then show ?thesis
      using "3.IH" [of s1] "3.prems" False by (simp add: collect_Some member_ok [OF here])
  qed
qed

lemma collect_overflow:
  "fits s (length (view s)) \<Longrightarrow> \<not> fits s (length (add_new (view s) (nonnull xs))) \<Longrightarrow>
    collect s xs = Inl OutOfBounds"
proof (induction xs arbitrary: s rule: nonnull.induct)
  case (3 v xs)
  show ?case
  proof (cases "v \<in> set (view s)")
    case True
    then show ?thesis using 3 by (simp add: collect_Some member_ok)
  next
    case False
    show ?thesis
    proof (cases "fits s (Suc (length (view s)))")
      case True
      from push_ok [OF this] obtain s1 where
        "push s v = Inr s1" "view s1 = view s @ [v]" "fits s1 = fits s"
        by blast
      then show ?thesis using 3 True False by (simp add: collect_Some member_ok)
    next
      case full: False
      show ?thesis
        using "3.prems"(1) False by (simp add: collect_Some member_ok push_full [OF full])
    qed
  qed
qed (simp_all add: collect_None)

end

lemma scan_down_iff [simp]: "scan_down xs v \<longleftrightarrow> v \<in> set xs"
  by (induction xs) auto

interpretation dset: array_set set_contains_value darray_push elems in_room collect_unique
  by unfold_locales
    (auto simp: set_contains_value_def darray_push_def in_room_def fun_eq_iff sizeof_Datum_def)

lemma collect_unique_room: "collect_unique s xs = Inr s' \<Longrightarrow> room s' = room s"
  by (induction s xs rule: collect_unique.induct)
    (auto simp: res_simps darray_push_def split: if_splits)

text \<open>The facts the properties use: a chunk that is large enough, and one that is not.\<close>

lemma collect_unique_eq:
  assumes "in_room s (length (add_new (elems s) (nonnull xs)))"
  shows "collect_unique s xs = Inr (s\<lparr>elems := add_new (elems s) (nonnull xs)\<rparr>)"
proof -
  from dset.collect_ok [OF assms] obtain s' where
    "collect_unique s xs = Inr s'" "elems s' = add_new (elems s) (nonnull xs)"
    by blast
  with collect_unique_room [of s xs s'] show ?thesis by simp
qed

lemma collect_unique_fresh:
  assumes "sizeof_Datum * length xs \<le> r"
  shows "collect_unique (darray_new r) xs = Inr \<lparr>elems = uniq (nonnull xs), room = r\<rparr>"
proof -
  have "in_room (darray_new r) (length (add_new (elems (darray_new r)) (nonnull xs)))"
    using assms length_uniq_nonnull [of xs]
    by (auto simp: in_room_def darray_new_def sizeof_Datum_def)
  from collect_unique_eq [OF this] show ?thesis by (simp add: darray_new_def)
qed

lemma set_contains_value_eq:
  "in_room s (length (elems s)) \<Longrightarrow> set_contains_value s v = Inr (v \<in> set (elems s))"
  by (simp add: set_contains_value_def)

lemma in_room_mono: "in_room s n \<Longrightarrow> m \<le> n \<Longrightarrow> in_room s m"
  by (simp add: in_room_def sizeof_Datum_def)

lemma in_room_elems_upd [simp]: "in_room (s\<lparr>elems := xs\<rparr>) = in_room s"
  by (simp add: in_room_def fun_eq_iff)

lemma in_room_make [simp]: "in_room \<lparr>elems = xs, room = r\<rparr> n \<longleftrightarrow> sizeof_Datum * n \<le> r"
  by (simp add: in_room_def)

end
