(* ===== verification/Tag_Action.thy ===== *)
theory Tag_Action
  imports Tag_Array
begin

text \<open>
  src/f_tag_action.c: \<open>tag_action(op, a, b)\<close>, the set operations on routing tag arrays.
  The allocator is a parameter: \<open>pal n\<close> is the number of bytes usable after
  \<open>palloc(n)\<close>, \<open>repal old n\<close> after \<open>repalloc\<close> of a chunk of \<open>old\<close> bytes to \<open>n\<close>. The
  documentation promises only that at least \<open>n\<close> bytes are usable.
\<close>

section \<open>Model\<close>

definition OP_CLEAR :: int where "OP_CLEAR = 1"
definition OP_REMOVE :: int where "OP_REMOVE = 2"
definition OP_APPEND :: int where "OP_APPEND = 3"
definition OP_INTERSECTION :: int where "OP_INTERSECTION = 4"
definition OP_REPLACE :: int where "OP_REPLACE = 5"

lemmas op_codes = OP_CLEAR_def OP_REMOVE_def OP_APPEND_def OP_INTERSECTION_def OP_REPLACE_def

text \<open>The loop of OP_REMOVE over \<open>aset[0..apos]\<close>.\<close>

fun remove_loop :: "darray \<Rightarrow> darray \<Rightarrow> int list \<Rightarrow> darray res" where
  "remove_loop bset rset [] = Inr rset"
| "remove_loop bset rset (v # vs) =
     rbind (set_contains_value bset v)
       (\<lambda>c. if c then remove_loop bset rset vs
            else rbind (darray_push rset v) (\<lambda>r. remove_loop bset r vs))"

definition op_remove ::
  "(nat \<Rightarrow> nat) \<Rightarrow> darray \<Rightarrow> int option list \<Rightarrow> int option list res" where
  "op_remove pal aset b =
     (if elems aset = [] then Inr []
      else rbind (collect_unique (darray_new (pal (length b * sizeof_Datum))) b)
        (\<lambda>bset. if elems bset = [] then construct_array aset
                else rbind (remove_loop bset
                       (darray_new (pal (length (elems aset) * sizeof_Datum))) (elems aset))
                  (\<lambda>rset. if elems rset = [] then Inr [] else construct_array rset)))"

text \<open>
  OP_APPEND: \<open>repalloc(aset, apos+1+b_len)\<close> asks for a number of bytes, not of Datums.
  Entries past the new size are lost, so what follows faults on them.
\<close>

definition op_append ::
  "(nat \<Rightarrow> nat \<Rightarrow> nat) \<Rightarrow> darray \<Rightarrow> int option list \<Rightarrow> int option list res" where
  "op_append repal aset b =
     rbind (collect_unique
              (aset\<lparr>room := repal (room aset) (length (elems aset) + length b)\<rparr>) b)
       (\<lambda>s. if elems s = [] then Inr [] else construct_array s)"

text \<open>The loop of OP_INTERSECTION over the elements of \<open>b\<close>.\<close>

fun intersection_loop :: "darray \<Rightarrow> darray \<Rightarrow> int option list \<Rightarrow> darray res" where
  "intersection_loop aset rset [] = Inr rset"
| "intersection_loop aset rset (None # xs) = intersection_loop aset rset xs"
| "intersection_loop aset rset (Some v # xs) =
     rbind (set_contains_value rset v)
       (\<lambda>c. if c then intersection_loop aset rset xs
            else rbind (set_contains_value aset v)
              (\<lambda>d. if \<not> d then intersection_loop aset rset xs
                   else rbind (darray_push rset v) (\<lambda>r. intersection_loop aset r xs)))"

definition op_intersection ::
  "(nat \<Rightarrow> nat) \<Rightarrow> darray \<Rightarrow> int option list \<Rightarrow> int option list res" where
  "op_intersection pal aset b =
     rbind (intersection_loop aset
              (darray_new (pal (length (elems aset) * sizeof_Datum))) b)
       (\<lambda>rset. if elems rset = [] then Inr [] else construct_array rset)"

text \<open>
  The SQL function. NULL arguments and results are None; the arrays that the code copies
  (\<open>PG_GETARG_ARRAYTYPE_P_COPY\<close>) are returned as they are.
\<close>

definition tag_action ::
  "(nat \<Rightarrow> nat) \<Rightarrow> (nat \<Rightarrow> nat \<Rightarrow> nat) \<Rightarrow> int option \<Rightarrow> int option list option
     \<Rightarrow> int option list option \<Rightarrow> int option list option res" where
  "tag_action pal repal op_arg a_arg b_arg =
     (case (a_arg, b_arg) of
        (Some a, Some b) \<Rightarrow>
          (case op_arg of
             None \<Rightarrow> Inr (Some a)
           | Some op \<Rightarrow>
               if op = OP_CLEAR then Inr (Some [])
               else if op = OP_REPLACE then Inr (Some b)
               else if op = OP_REMOVE \<or> op = OP_APPEND \<or> op = OP_INTERSECTION then
                 rbind (collect_unique (darray_new (pal (length a * sizeof_Datum))) a)
                   (\<lambda>aset. rbind
                      (if op = OP_REMOVE then op_remove pal aset b
                       else if op = OP_APPEND then op_append repal aset b
                       else op_intersection pal aset b)
                      (\<lambda>r. Inr (Some r)))
               else Inl (PgError ''unknown operation''))
      | _ \<Rightarrow> Inr None)"

text \<open>The allocator's promise.\<close>

definition palloc_ok :: "(nat \<Rightarrow> nat) \<Rightarrow> bool" where
  "palloc_ok pal \<longleftrightarrow> (\<forall>n. n \<le> pal n)"

section \<open>The loops\<close>

lemma remove_loop_eq:
  assumes "in_room bset (length (elems bset))"
    and "in_room rset (length (elems rset) + length vs)"
  shows "remove_loop bset rset vs =
    Inr (rset\<lparr>elems := elems rset @ filter (\<lambda>v. v \<notin> set (elems bset)) vs\<rparr>)"
  using assms(2)
proof (induction vs arbitrary: rset)
  case (Cons v vs)
  have "in_room rset (Suc (length (elems rset)))" "in_room rset (length (elems rset) + length vs)"
    using Cons.prems by (auto intro: in_room_mono)
  then show ?case
    using Cons by (auto simp: set_contains_value_eq [OF assms(1)] darray_push_def)
qed simp

text \<open>Reference for the intersection: scan \<open>b\<close>, keep new values that are in \<open>A\<close>.\<close>

lemma add_new_filter:
  "v \<notin> set acc \<Longrightarrow> P v \<Longrightarrow> add_new acc (filter P (v # vs)) = add_new (acc @ [v]) (filter P vs)"
  by simp

lemma intersection_loop_eq:
  assumes A: "in_room aset (length (elems aset))"
    and "in_room rset (length (elems aset))" and "distinct (elems rset)"
    and "set (elems rset) \<subseteq> set (elems aset)"
  shows "intersection_loop aset rset xs = Inr (rset\<lparr>elems :=
    add_new (elems rset) (filter (\<lambda>v. v \<in> set (elems aset)) (nonnull xs))\<rparr>)"
  using assms(2-)
proof (induction xs arbitrary: rset rule: nonnull.induct)
  case (3 v xs)
  have "length (elems rset) \<le> length (elems aset)"
    using "3.prems" card_mono [of "set (elems aset)" "set (elems rset)"]
    by (metis List.finite_set card_length distinct_card order_trans)
  then have r: "in_room rset (length (elems rset))"
    using "3.prems"(1) by (rule in_room_mono [rotated])
  show ?case
  proof (cases "v \<in> set (elems aset) \<and> v \<notin> set (elems rset)")
    case True
    then have "card (insert v (set (elems rset))) \<le> card (set (elems aset))"
      using "3.prems" by (intro card_mono) auto
    then have "Suc (length (elems rset)) \<le> length (elems aset)"
      using True distinct_card [OF "3.prems"(2)] card_length [of "elems aset"] by simp
    then have "in_room rset (Suc (length (elems rset)))"
      using "3.prems"(1) by (rule in_room_mono [rotated])
    then show ?thesis
      using 3 True by (simp add: set_contains_value_eq [OF A] set_contains_value_eq [OF r]
          darray_push_def)
  next
    case False
    then show ?thesis
      using 3 by (auto simp: set_contains_value_eq [OF A] set_contains_value_eq [OF r])
  qed
qed simp_all

lemma collect_unique_lost:
  assumes "\<not> in_room s (length (elems s))"
  shows "collect_unique s xs = (if nonnull xs = [] then Inr s else Inl OutOfBounds)"
  using assms by (induction xs rule: nonnull.induct) (auto simp: set_contains_value_def)

lemma add_new_append [simp]: "add_new acc (xs @ ys) = add_new (add_new acc xs) ys"
  by (induction xs arbitrary: acc) auto

lemma collect_unique_cases:
  "collect_unique s xs = (if in_room s (length (add_new (elems s) (nonnull xs)))
      then Inr (s\<lparr>elems := add_new (elems s) (nonnull xs)\<rparr>)
      else if \<not> in_room s (length (elems s)) \<and> nonnull xs = [] then Inr s
      else Inl OutOfBounds)"
proof (cases "in_room s (length (elems s))")
  case True
  then show ?thesis
    using collect_unique_eq dset.collect_overflow [of s xs] by auto
next
  case False
  then have "\<not> in_room s (length (add_new (elems s) (nonnull xs)))"
    using add_new_length_mono [of "elems s" "nonnull xs"] in_room_mono by blast
  with False show ?thesis by (simp add: collect_unique_lost)
qed

lemma palloc_okD: "palloc_ok pal \<Longrightarrow> n \<le> pal n"
  by (simp add: palloc_ok_def)

text \<open>The first array: the distinct values of \<open>a\<close>, in a chunk that holds them.\<close>

lemma collect_a:
  assumes "palloc_ok pal"
  shows "collect_unique (darray_new (pal (length xs * sizeof_Datum))) xs =
    Inr \<lparr>elems = uniq (nonnull xs), room = pal (length xs * sizeof_Datum)\<rparr>"
  by (rule collect_unique_fresh) (simp add: mult.commute palloc_okD [OF assms])

lemma uniq_room:
  assumes "palloc_ok pal"
  shows "sizeof_Datum * length (uniq (nonnull xs)) \<le> pal (length xs * sizeof_Datum)"
proof -
  have "sizeof_Datum * length (uniq (nonnull xs)) \<le> length xs * sizeof_Datum"
    using length_uniq_nonnull [of xs] by (simp add: sizeof_Datum_def)
  then show ?thesis using palloc_okD [OF assms] by (rule order_trans)
qed

lemma new_room: "palloc_ok pal \<Longrightarrow> in_room (darray_new (pal (n * sizeof_Datum))) n"
  by (simp add: in_room_def darray_new_def palloc_okD mult.commute)

lemmas tag_action_evals = tag_action_def op_codes collect_a uniq_room construct_array_def

lemma op_append_eq:
  "op_append repal aset b =
    (if sizeof_Datum * length (add_new (elems aset) (nonnull b))
          \<le> repal (room aset) (length (elems aset) + length b)
     then Inr (map Some (add_new (elems aset) (nonnull b))) else Inl OutOfBounds)"
proof -
  let ?s = "aset\<lparr>room := repal (room aset) (length (elems aset) + length b)\<rparr>"
  let ?U = "add_new (elems aset) (nonnull b)"
  consider (fits) "in_room ?s (length ?U)"
    | (lost) "\<not> in_room ?s (length ?U)" "\<not> in_room ?s (length (elems ?s))" "nonnull b = []"
    | (over) "\<not> in_room ?s (length ?U)" "in_room ?s (length (elems ?s)) \<or> nonnull b \<noteq> []"
    by blast
  then show ?thesis
  proof cases
    case fits
    then have "collect_unique ?s b = Inr (?s\<lparr>elems := ?U\<rparr>)"
      by (simp add: collect_unique_cases)
    then show ?thesis using fits by (simp add: op_append_def construct_array_def in_room_def)
  next
    case lost
    then have "collect_unique ?s b = Inr ?s" by (simp add: collect_unique_lost)
    moreover have "elems aset \<noteq> []" using lost(2) by (auto simp: in_room_def)
    ultimately show ?thesis using lost by (simp add: op_append_def construct_array_def in_room_def)
  next
    case over
    then have "collect_unique ?s b = Inl OutOfBounds"
      by (subst collect_unique_cases) auto
    then show ?thesis using over by (simp add: op_append_def in_room_def)
  qed
qed

lemma append_result:
  assumes "palloc_ok pal"
  shows "tag_action pal repal (Some OP_APPEND) (Some a) (Some b) =
    (if sizeof_Datum * length (uniq (nonnull a @ nonnull b))
          \<le> repal (pal (length a * sizeof_Datum)) (length (uniq (nonnull a)) + length b)
     then Inr (Some (map Some (uniq (nonnull a @ nonnull b)))) else Inl OutOfBounds)"
  by (simp add: tag_action_def op_codes collect_a [OF assms] op_append_eq)

lemma no_elog [simp]:
  "collect_unique s xs \<noteq> Inl (PgError m)"
  "remove_loop bset rset vs \<noteq> Inl (PgError m)"
  "intersection_loop aset rset xs \<noteq> Inl (PgError m)"
  "construct_array s \<noteq> Inl (PgError m)"
proof -
  show "collect_unique s xs \<noteq> Inl (PgError m)"
    by (simp add: collect_unique_cases)
  show "remove_loop bset rset vs \<noteq> Inl (PgError m)"
    by (induction bset rset vs rule: remove_loop.induct)
      (auto simp: rbind_Inl_iff set_contains_value_def darray_push_def split: if_splits)
  show "intersection_loop aset rset xs \<noteq> Inl (PgError m)"
    by (induction aset rset xs rule: intersection_loop.induct)
      (auto simp: rbind_Inl_iff set_contains_value_def darray_push_def split: if_splits)
  show "construct_array s \<noteq> Inl (PgError m)"
    by (simp add: construct_array_def)
qed

lemma ops_no_elog [simp]:
  "op_remove pal aset b \<noteq> Inl (PgError m)"
  "op_append repal aset b \<noteq> Inl (PgError m)"
  "op_intersection pal aset b \<noteq> Inl (PgError m)"
  by (auto simp: op_remove_def op_append_eq op_intersection_def rbind_Inl_iff split: if_splits)

section \<open>Properties\<close>

text \<open>
  C13. OP_REMOVE returns the distinct non-NULL values of \<open>a\<close> that are not in \<open>b\<close>, in the
  order of their first occurrence, and never leaves its arrays, whatever the allocator
  grants beyond the requested size.
\<close>

theorem tag_action_remove:
  assumes "palloc_ok pal"
  shows "tag_action pal repal (Some OP_REMOVE) (Some a) (Some b) =
    Inr (Some (map Some (filter (\<lambda>v. v \<notin> set (nonnull b)) (uniq (nonnull a)))))"
proof -
  let ?A = "uniq (nonnull a)"
  have loop: "remove_loop \<lparr>elems = uniq (nonnull b), room = pal (length b * sizeof_Datum)\<rparr>
      (darray_new (pal (length ?A * sizeof_Datum))) ?A =
    Inr \<lparr>elems = filter (\<lambda>v. v \<notin> set (nonnull b)) ?A, room = pal (length ?A * sizeof_Datum)\<rparr>"
    using new_room [OF assms, of "length ?A"] uniq_room [OF assms, of b]
    by (subst remove_loop_eq) (simp_all add: darray_new_def)
  have fits: "sizeof_Datum * length (filter (\<lambda>v. v \<notin> set (nonnull b)) ?A)
      \<le> pal (length ?A * sizeof_Datum)"
    using palloc_okD [OF assms, of "length ?A * sizeof_Datum"]
      length_filter_le [of "\<lambda>v. v \<notin> set (nonnull b)" ?A]
    unfolding sizeof_Datum_def by linarith
  show ?thesis
    using loop fits uniq_room [OF assms, of a]
    by (auto simp: tag_action_evals op_remove_def collect_a [OF assms] filter_empty_conv)
qed

theorem tag_action_remove_witness:
  "tag_action (\<lambda>n. n) (\<lambda>_ n. n) (Some OP_REMOVE) (Some [Some 3, None, Some 1, Some 3])
     (Some [Some 1, Some 7]) = Inr (Some [Some 3])"
  by (subst tag_action_remove) (simp_all add: palloc_ok_def)

text \<open>
  C14. OP_INTERSECTION returns the distinct non-NULL values of \<open>b\<close> that are in \<open>a\<close>, in the
  order of \<open>b\<close>; the result array of \<open>apos+1\<close> Datums is always large enough.
\<close>

theorem tag_action_intersection:
  assumes "palloc_ok pal"
  shows "tag_action pal repal (Some OP_INTERSECTION) (Some a) (Some b) =
    Inr (Some (map Some (uniq (filter (\<lambda>v. v \<in> set (nonnull a)) (nonnull b)))))"
proof -
  let ?A = "uniq (nonnull a)"
  let ?R = "uniq (filter (\<lambda>v. v \<in> set (nonnull a)) (nonnull b))"
  let ?aset = "\<lparr>elems = ?A, room = pal (length a * sizeof_Datum)\<rparr>"
  let ?r = "pal (length ?A * sizeof_Datum)"
  have loop: "intersection_loop ?aset (darray_new ?r) b = Inr \<lparr>elems = ?R, room = ?r\<rparr>"
    using new_room [OF assms, of "length ?A"] uniq_room [OF assms, of a]
    by (subst intersection_loop_eq) (simp_all add: darray_new_def)
  have "length ?R \<le> length ?A"
    by (auto simp: length_uniq_card intro: card_mono)
  then have fits: "sizeof_Datum * length ?R \<le> ?r"
    using palloc_okD [OF assms, of "length ?A * sizeof_Datum"]
    unfolding sizeof_Datum_def by linarith
  show ?thesis
    using loop fits
    by (auto simp: tag_action_evals op_intersection_def collect_a [OF assms] filter_empty_conv)
qed

theorem tag_action_intersection_witness:
  "tag_action (\<lambda>n. n) (\<lambda>_ n. n) (Some OP_INTERSECTION) (Some [Some 3, None, Some 1])
     (Some [Some 1, Some 7, Some 1]) = Inr (Some [Some 1])"
  by (subst tag_action_intersection) (simp_all add: palloc_ok_def)

text \<open>
  C35. OP_APPEND: the union of both arrays without duplicates, first the values of \<open>a\<close>, exactly
  when the chunk \<open>repalloc\<close> returns for \<open>apos + 1 + b_len\<close> BYTES can hold that many Datums;
  otherwise the code leaves the chunk.
\<close>

theorem tag_action_append:
  assumes "palloc_ok pal"
  shows "tag_action pal repal (Some OP_APPEND) (Some a) (Some b) =
    (let U = uniq (nonnull a @ nonnull b);
         granted = repal (pal (length a * sizeof_Datum)) (length (uniq (nonnull a)) + length b)
     in if sizeof_Datum * length U \<le> granted then Inr (Some (map Some U)) else Inl OutOfBounds)"
  by (simp only: Let_def append_result [OF assms] if_cancel)

theorem tag_action_append_witness:
  "tag_action (\<lambda>n. n) (\<lambda>old n. max old n) (Some OP_APPEND) (Some [Some 3, None, None])
     (Some [Some 1, Some 3]) = Inr (Some [Some 3, Some 1])"
  by (subst tag_action_append) (simp_all add: palloc_ok_def Let_def sizeof_Datum_def)

text \<open>
  With an allocator that grants what is asked for and nothing more, every append with a
  non-empty result overruns or loses its array unless NULLs in \<open>b\<close> make up the eightfold
  difference; already appending one value to an empty array does.
\<close>

lemma tag_action_append_overrun:
  "tag_action (\<lambda>n. n) (\<lambda>_ n. n) (Some OP_APPEND) (Some []) (Some [Some 1]) = Inl OutOfBounds"
  by (simp add: tag_action_def op_codes op_append_def set_contains_value_def darray_push_def
      darray_new_def in_room_def sizeof_Datum_def)

text \<open>
  The other branches: NULL arrays give NULL, a NULL operation copies \<open>a\<close>, CLEAR gives the
  empty array, REPLACE copies \<open>b\<close> (NULLs and duplicates included), and the error is raised
  for exactly the operation codes outside 1 to 5.
\<close>

lemma tag_action_other_branches:
  "tag_action pal repal op_arg None b_arg = Inr None \<and>
   tag_action pal repal op_arg a_arg None = Inr None \<and>
   tag_action pal repal None (Some a) (Some b) = Inr (Some a) \<and>
   tag_action pal repal (Some OP_CLEAR) (Some a) (Some b) = Inr (Some []) \<and>
   tag_action pal repal (Some OP_REPLACE) (Some a) (Some b) = Inr (Some b) \<and>
   (tag_action pal repal (Some op) (Some a) (Some b) = Inl (PgError ''unknown operation'')
      \<longleftrightarrow> op \<notin> {1..5})"
  by (auto simp: tag_action_def op_codes rbind_Inl_iff split: option.splits)

end
