(* ===== verification/Tag_Compare.thy ===== *)
theory Tag_Compare
  imports Tag_Action
begin

text \<open>
  src/f_tag_compare.c: \<open>tag_compare(a, b, match_mode)\<close>, how well the tags \<open>b\<close> of a call match
  the tags \<open>a\<close> of a rule, where a NULL in \<open>a\<close> stands for any tag.
\<close>

section \<open>Model\<close>

definition RET_NOT_MATCHED :: int where "RET_NOT_MATCHED = 0"
definition RET_MATCHED_WITH_NULL :: int where "RET_MATCHED_WITH_NULL = 1"
definition RET_MATCHED_WITHOUT_NULL :: int where "RET_MATCHED_WITHOUT_NULL = 2"
definition RET_MATCHED_EXACTLY :: int where "RET_MATCHED_EXACTLY = 3"

definition MATCH_MODE_B_IN_A :: int where "MATCH_MODE_B_IN_A = 0"
definition MATCH_MODE_MUTUAL :: int where "MATCH_MODE_MUTUAL = 1"
definition MATCH_MODE_INTERSECTION :: int where "MATCH_MODE_INTERSECTION = 2"

lemmas ret_codes = RET_NOT_MATCHED_def RET_MATCHED_WITH_NULL_def
  RET_MATCHED_WITHOUT_NULL_def RET_MATCHED_EXACTLY_def
lemmas match_modes = MATCH_MODE_B_IN_A_def MATCH_MODE_MUTUAL_def MATCH_MODE_INTERSECTION_def

text \<open>\<open>a_has_null |= is_null\<close> over the elements of \<open>a\<close>.\<close>

primrec has_null :: "'a option list \<Rightarrow> bool" where
  "has_null [] = False"
| "has_null (x # xs) = (x = None \<or> has_null xs)"

text \<open>
  The loop over \<open>b\<close>: it ends normally or by \<open>break\<close> (\<open>Go ret bset\<close>), or returns from the
  function (\<open>Ret\<close>).
\<close>

datatype loop_out = Ret int | Go int darray

fun compare_loop :: "int \<Rightarrow> bool \<Rightarrow> darray \<Rightarrow> int \<Rightarrow> darray \<Rightarrow> int option list \<Rightarrow> loop_out res" where
  "compare_loop mode a_has_null aset ret bset [] = Inr (Go ret bset)"
| "compare_loop mode a_has_null aset ret bset (None # xs) =
     compare_loop mode a_has_null aset ret bset xs"
| "compare_loop mode a_has_null aset ret bset (Some v # xs) =
     rbind (set_contains_value aset v)
       (\<lambda>found.
          let add = (\<lambda>ret'. rbind (set_contains_value bset v)
                (\<lambda>d. if d then compare_loop mode a_has_null aset ret' bset xs
                     else rbind (darray_push bset v)
                            (\<lambda>bset'. compare_loop mode a_has_null aset ret' bset' xs)))
          in if \<not> found then
               if a_has_null then
                 if mode = MATCH_MODE_B_IN_A then Inr (Go RET_MATCHED_WITH_NULL bset)
                 else add RET_MATCHED_WITH_NULL
               else
                 if mode \<noteq> MATCH_MODE_INTERSECTION then Inr (Go RET_NOT_MATCHED bset)
                 else add RET_NOT_MATCHED
             else if mode = MATCH_MODE_INTERSECTION then Inr (Ret RET_MATCHED_EXACTLY)
             else add ret)"

text \<open>The do-while loop of MUTUAL, from the last entry of \<open>aset\<close> to the first.\<close>

fun mutual_loop :: "darray \<Rightarrow> int \<Rightarrow> int list \<Rightarrow> int res" where
  "mutual_loop bset ret [] = Inr ret"
| "mutual_loop bset ret (v # vs) =
     rbind (set_contains_value bset v)
       (\<lambda>c. if c then mutual_loop bset ret vs else Inr RET_NOT_MATCHED)"

text \<open>What follows the loop over \<open>b\<close>.\<close>

definition compare_finish :: "int \<Rightarrow> darray \<Rightarrow> int \<Rightarrow> darray \<Rightarrow> int res" where
  "compare_finish mode aset ret bset =
     (let ret' = (if ret = RET_MATCHED_WITHOUT_NULL
                     \<and> length (elems aset) = length (elems bset)
                  then RET_MATCHED_EXACTLY else ret)
      in if mode = MATCH_MODE_MUTUAL \<and> elems aset \<noteq> []
         then mutual_loop bset ret' (rev (elems aset))
         else Inr ret')"

text \<open>
  The SQL function. The third argument may be absent (None) or NULL (Some None); both mean
  B_IN_A.
\<close>

definition tag_compare ::
  "(nat \<Rightarrow> nat) \<Rightarrow> int option list option \<Rightarrow> int option list option
     \<Rightarrow> int option option \<Rightarrow> int res" where
  "tag_compare pal a_arg b_arg mode_arg =
     (case (a_arg, b_arg) of
        (Some a, Some b) \<Rightarrow>
          (let mode = (case mode_arg of Some (Some m) \<Rightarrow> m | _ \<Rightarrow> MATCH_MODE_B_IN_A)
           in if mode \<noteq> MATCH_MODE_B_IN_A \<and> mode \<noteq> MATCH_MODE_MUTUAL
                 \<and> mode \<noteq> MATCH_MODE_INTERSECTION
              then Inl (PgError ''unknown matching mode'')
              else if a = [] then
                Inr (if b = [] then RET_MATCHED_EXACTLY else RET_NOT_MATCHED)
              else if b = [] then Inr RET_NOT_MATCHED
              else rbind (collect_unique (darray_new (pal (length a * sizeof_Datum))) a)
                (\<lambda>aset. rbind (compare_loop mode (has_null a) aset RET_MATCHED_WITHOUT_NULL
                                 (darray_new (pal (length b * sizeof_Datum))) b)
                   (\<lambda>out. case out of Ret r \<Rightarrow> Inr r
                          | Go ret bset \<Rightarrow> compare_finish mode aset ret bset)))
      | _ \<Rightarrow> Inr RET_NOT_MATCHED)"

section \<open>Specification\<close>

text \<open>
  The meaning of the result on sets: \<open>A\<close> and \<open>B\<close> are the non-NULL tags, \<open>any\<close> says that
  \<open>a\<close> has a NULL.
\<close>

definition match_b_in_a :: "int set \<Rightarrow> bool \<Rightarrow> int set \<Rightarrow> int" where
  "match_b_in_a A any B =
     (if A = B then RET_MATCHED_EXACTLY
      else if B \<subseteq> A then RET_MATCHED_WITHOUT_NULL
      else if any then RET_MATCHED_WITH_NULL else RET_NOT_MATCHED)"

definition match_mutual :: "int set \<Rightarrow> bool \<Rightarrow> int set \<Rightarrow> int" where
  "match_mutual A any B =
     (if A = B then RET_MATCHED_EXACTLY
      else if A \<subseteq> B \<and> any then RET_MATCHED_WITH_NULL else RET_NOT_MATCHED)"

definition match_intersection :: "int set \<Rightarrow> bool \<Rightarrow> int set \<Rightarrow> int" where
  "match_intersection A any B =
     (if A \<inter> B \<noteq> {} \<or> A = {} \<and> B = {} then RET_MATCHED_EXACTLY
      else if B = {} then RET_MATCHED_WITHOUT_NULL
      else if any then RET_MATCHED_WITH_NULL else RET_NOT_MATCHED)"

section \<open>The loop, per mode\<close>

lemma has_null_iff [simp]: "has_null xs \<longleftrightarrow> None \<in> set xs"
  by (induction xs) auto

lemma push_eq:
  "in_room s (Suc (length (elems s))) \<Longrightarrow> darray_push s v = Inr (s\<lparr>elems := elems s @ [v]\<rparr>)"
  by (simp add: darray_push_def)

lemma modes_neq [simp]:
  "MATCH_MODE_MUTUAL \<noteq> MATCH_MODE_B_IN_A" "MATCH_MODE_B_IN_A \<noteq> MATCH_MODE_MUTUAL"
  "MATCH_MODE_INTERSECTION \<noteq> MATCH_MODE_B_IN_A" "MATCH_MODE_B_IN_A \<noteq> MATCH_MODE_INTERSECTION"
  "MATCH_MODE_INTERSECTION \<noteq> MATCH_MODE_MUTUAL" "MATCH_MODE_MUTUAL \<noteq> MATCH_MODE_INTERSECTION"
  by (simp_all add: match_modes)

text \<open>The step the modes share: add a value to \<open>bset\<close> and go on.\<close>

lemma add_step:
  assumes "in_room bset (length (add_new (elems bset) (v # vs)))"
  shows "rbind (set_contains_value bset v)
     (\<lambda>d. if d then f bset else rbind (darray_push bset v) f) =
    f (bset\<lparr>elems := add_new (elems bset) [v]\<rparr>)"
proof -
  have "in_room bset (length (add_new (elems bset) [v]))"
    using assms add_new_length_mono [of "add_new (elems bset) [v]" vs]
    by (auto intro: in_room_mono)
  moreover from this have "in_room bset (length (elems bset))"
    using add_new_length_mono by (rule in_room_mono)
  ultimately show ?thesis
    by (auto simp: set_contains_value_eq push_eq)
qed

lemma compare_loop_Some:
  assumes "in_room aset (length (elems aset))"
    and "in_room bset (length (add_new (elems bset) (nonnull (Some v # xs))))"
  shows "compare_loop mode any aset ret bset (Some v # xs) =
    (let go = (\<lambda>r. compare_loop mode any aset r (bset\<lparr>elems := add_new (elems bset) [v]\<rparr>) xs)
     in if v \<notin> set (elems aset) then
          if any then
            if mode = MATCH_MODE_B_IN_A then Inr (Go RET_MATCHED_WITH_NULL bset)
            else go RET_MATCHED_WITH_NULL
          else if mode \<noteq> MATCH_MODE_INTERSECTION then Inr (Go RET_NOT_MATCHED bset)
          else go RET_NOT_MATCHED
        else if mode = MATCH_MODE_INTERSECTION then Inr (Ret RET_MATCHED_EXACTLY)
        else go ret)"
proof -
  have "rbind (set_contains_value bset v)
      (\<lambda>d. if d then compare_loop mode any aset r bset xs
           else rbind (darray_push bset v) (\<lambda>b. compare_loop mode any aset r b xs)) =
    compare_loop mode any aset r (bset\<lparr>elems := add_new (elems bset) [v]\<rparr>) xs" for r
    using assms(2) by (intro add_step) simp
  then show ?thesis by (simp only: compare_loop.simps set_contains_value_eq [OF assms(1)]
        rbind.simps Let_def scan_down_iff if_not_P)
qed

declare compare_loop.simps(3) [simp del]

lemma loop_b_in_a:
  assumes A: "in_room aset (length (elems aset))"
  shows "in_room bset (length (add_new (elems bset) (nonnull xs))) \<Longrightarrow>
    (if set (nonnull xs) \<subseteq> set (elems aset)
     then compare_loop MATCH_MODE_B_IN_A any aset ret bset xs =
       Inr (Go ret (bset\<lparr>elems := add_new (elems bset) (nonnull xs)\<rparr>))
     else \<exists>bs. compare_loop MATCH_MODE_B_IN_A any aset ret bset xs =
       Inr (Go (if any then RET_MATCHED_WITH_NULL else RET_NOT_MATCHED) bs))"
proof (induction xs arbitrary: bset rule: nonnull.induct)
  case (3 v xs)
  show ?case
    using "3.IH" [of "bset\<lparr>elems := add_new (elems bset) [v]\<rparr>"] "3.prems"
    by (auto simp: compare_loop_Some [OF A "3.prems"] Let_def split: if_splits)
qed auto

lemma loop_mutual:
  assumes A: "in_room aset (length (elems aset))"
  shows "in_room bset (length (add_new (elems bset) (nonnull xs))) \<Longrightarrow>
    (if set (nonnull xs) \<subseteq> set (elems aset) \<or> any
     then compare_loop MATCH_MODE_MUTUAL any aset ret bset xs =
       Inr (Go (if set (nonnull xs) \<subseteq> set (elems aset) then ret else RET_MATCHED_WITH_NULL)
         (bset\<lparr>elems := add_new (elems bset) (nonnull xs)\<rparr>))
     else \<exists>bs. compare_loop MATCH_MODE_MUTUAL any aset ret bset xs =
       Inr (Go RET_NOT_MATCHED bs) \<and> in_room bs (length (elems bs)))"
proof (induction xs arbitrary: bset ret rule: nonnull.induct)
  case (2 xs)
  show ?case using "2.IH" [OF "2.prems" [unfolded nonnull.simps], of ret] by (auto split: if_splits)
next
  case (3 v xs)
  have "in_room bset (length (elems bset))"
    using "3.prems" add_new_length_mono by (rule in_room_mono)
  then show ?case
    using "3.IH" [of "bset\<lparr>elems := add_new (elems bset) [v]\<rparr>" ret]
      "3.IH" [of "bset\<lparr>elems := add_new (elems bset) [v]\<rparr>" RET_MATCHED_WITH_NULL] "3.prems"
    by (auto simp: compare_loop_Some [OF A "3.prems"] Let_def split: if_splits)
qed simp

lemma loop_intersection:
  assumes A: "in_room aset (length (elems aset))"
  shows "in_room bset (length (add_new (elems bset) (nonnull xs))) \<Longrightarrow>
    compare_loop MATCH_MODE_INTERSECTION any aset ret bset xs =
      Inr (if set (nonnull xs) \<inter> set (elems aset) \<noteq> {} then Ret RET_MATCHED_EXACTLY
           else Go (if nonnull xs = [] then ret
                    else if any then RET_MATCHED_WITH_NULL else RET_NOT_MATCHED)
                  (bset\<lparr>elems := add_new (elems bset) (nonnull xs)\<rparr>))"
proof (induction xs arbitrary: bset ret rule: nonnull.induct)
  case (3 v xs)
  show ?case
    using "3.IH" [of "bset\<lparr>elems := add_new (elems bset) [v]\<rparr>"] "3.prems"
    by (auto simp: compare_loop_Some [OF A "3.prems"] Let_def)
qed auto

lemma mutual_loop_eq:
  "in_room bset (length (elems bset)) \<Longrightarrow>
    mutual_loop bset ret vs = Inr (if set vs \<subseteq> set (elems bset) then ret else RET_NOT_MATCHED)"
  by (induction vs) (auto simp: set_contains_value_eq)

lemma card_uniq_eq_iff:
  "set (nonnull ys) \<subseteq> set (nonnull xs) \<Longrightarrow>
    length (uniq (nonnull xs)) = length (uniq (nonnull ys)) \<longleftrightarrow>
    set (nonnull xs) = set (nonnull ys)"
  by (auto simp: length_uniq_card dest: card_subset_eq [rotated])

section \<open>Properties\<close>

text \<open>The function up to the loop, for arrays that are not empty.\<close>

lemma tag_compare_run:
  assumes "palloc_ok pal" and "a \<noteq> []" and "b \<noteq> []"
    and "mode \<in> {MATCH_MODE_B_IN_A, MATCH_MODE_MUTUAL, MATCH_MODE_INTERSECTION}"
  shows "tag_compare pal (Some a) (Some b) (Some (Some mode)) =
    (let aset = \<lparr>elems = uniq (nonnull a), room = pal (length a * sizeof_Datum)\<rparr>
     in rbind (compare_loop mode (None \<in> set a) aset RET_MATCHED_WITHOUT_NULL
                (darray_new (pal (length b * sizeof_Datum))) b)
          (\<lambda>out. case out of Ret r \<Rightarrow> Inr r | Go ret bset \<Rightarrow> compare_finish mode aset ret bset))"
  using assms by (auto simp: tag_compare_def collect_a Let_def)

lemma compare_rooms:
  assumes "palloc_ok pal"
  shows "in_room \<lparr>elems = uniq (nonnull a), room = pal (length a * sizeof_Datum)\<rparr>
           (length (elems \<lparr>elems = uniq (nonnull a), room = pal (length a * sizeof_Datum)\<rparr>))"
    and "in_room (darray_new (pal (length b * sizeof_Datum)))
           (length (add_new (elems (darray_new (pal (length b * sizeof_Datum)))) (nonnull b)))"
  using uniq_room [OF assms] by (simp_all add: darray_new_def)

text \<open>Empty arrays are decided before the mode is looked at.\<close>

lemma tag_compare_empty:
  assumes "mode \<in> {MATCH_MODE_B_IN_A, MATCH_MODE_MUTUAL, MATCH_MODE_INTERSECTION}" "a = [] \<or> b = []"
  shows "tag_compare pal (Some a) (Some b) (Some (Some mode)) =
    Inr (if a = b then RET_MATCHED_EXACTLY else RET_NOT_MATCHED)"
  using assms by (auto simp: tag_compare_def)

text \<open>
  C10. B_IN_A: an empty array matches exactly an empty array and nothing else; on two non-empty
  arrays (an array that holds only NULLs is not empty) the code's linear scans, early breaks and
  the comparison of the two set sizes compute the specification on sets, without a fault.
\<close>

theorem tag_compare_b_in_a:
  assumes "palloc_ok pal"
  shows "tag_compare pal (Some a) (Some b) (Some (Some MATCH_MODE_B_IN_A)) =
    Inr (if a = [] \<or> b = [] then if a = b then RET_MATCHED_EXACTLY else RET_NOT_MATCHED
         else match_b_in_a (set (nonnull a)) (None \<in> set a) (set (nonnull b)))"
proof (cases "a = [] \<or> b = []")
  case True
  then show ?thesis by (auto simp: tag_compare_empty match_modes)
next
  case False
  then have ne: "a \<noteq> []" "b \<noteq> []" by simp_all
  note loop = loop_b_in_a [OF compare_rooms(1) [OF assms, of a] compare_rooms(2) [OF assms, of b],
      where any = "None \<in> set a" and ret = RET_MATCHED_WITHOUT_NULL]
  show ?thesis
    using loop card_uniq_eq_iff [of b a]
    by (auto simp: tag_compare_run [OF assms ne] ne compare_finish_def match_b_in_a_def Let_def
        darray_new_def ret_codes split: if_splits)
qed

theorem tag_compare_b_in_a_witness:
  "tag_compare (\<lambda>n. n) (Some [Some 1, None]) (Some [Some 1, Some 2]) (Some (Some 0)) = Inr 1 \<and>
   tag_compare (\<lambda>n. n) (Some [Some 1, Some 2]) (Some []) (Some (Some 0)) = Inr 0"
  using tag_compare_b_in_a [of "\<lambda>n. n" "[Some 1, None]" "[Some 1, Some 2]"]
    tag_compare_b_in_a [of "\<lambda>n. n" "[Some 1, Some 2]" "[]"]
  by (simp add: palloc_ok_def match_modes match_b_in_a_def ret_codes)

text \<open>
  C11. MUTUAL: an empty array matches exactly an empty array and nothing else; for two non-empty
  arrays every tag of \<open>a\<close> must be in \<open>b\<close>, and every tag of \<open>b\<close> in \<open>a\<close> unless \<open>a\<close> allows any.
\<close>

theorem tag_compare_mutual:
  assumes "palloc_ok pal"
  shows "tag_compare pal (Some a) (Some b) (Some (Some MATCH_MODE_MUTUAL)) =
    Inr (if a = [] \<or> b = [] then if a = b then RET_MATCHED_EXACTLY else RET_NOT_MATCHED
         else match_mutual (set (nonnull a)) (None \<in> set a) (set (nonnull b)))"
proof (cases "a = [] \<or> b = []")
  case True
  then show ?thesis by (auto simp: tag_compare_empty match_modes)
next
  case False
  then have ne: "a \<noteq> []" "b \<noteq> []" by simp_all
  note loop = loop_mutual [OF compare_rooms(1) [OF assms, of a] compare_rooms(2) [OF assms, of b],
      where any = "None \<in> set a" and ret = RET_MATCHED_WITHOUT_NULL]
  show ?thesis
    using loop card_uniq_eq_iff [of b a] uniq_room [OF assms, of b]
    by (auto simp: tag_compare_run [OF assms ne] ne compare_finish_def match_mutual_def Let_def
        darray_new_def ret_codes mutual_loop_eq split: if_splits)
qed

theorem tag_compare_mutual_witness:
  "tag_compare (\<lambda>n. n) (Some [Some 1, None]) (Some [Some 1, Some 2]) (Some (Some 1)) = Inr 1 \<and>
   tag_compare (\<lambda>n. n) (Some [None]) (Some []) (Some (Some 1)) = Inr 0"
  using tag_compare_mutual [of "\<lambda>n. n" "[Some 1, None]" "[Some 1, Some 2]"]
    tag_compare_mutual [of "\<lambda>n. n" "[None]" "[]"]
  by (auto simp: palloc_ok_def match_modes match_mutual_def ret_codes)

text \<open>
  C12. INTERSECTION: an empty array matches exactly an empty array and nothing else; for two
  non-empty arrays one common tag is an exact match, and without one a NULL in \<open>a\<close> matches any
  tag of \<open>b\<close>; a \<open>b\<close> of NULLs only matches, exactly when \<open>a\<close> is such too.
\<close>

theorem tag_compare_intersection:
  assumes "palloc_ok pal"
  shows "tag_compare pal (Some a) (Some b) (Some (Some MATCH_MODE_INTERSECTION)) =
    Inr (if a = [] \<or> b = [] then if a = b then RET_MATCHED_EXACTLY else RET_NOT_MATCHED
         else match_intersection (set (nonnull a)) (None \<in> set a) (set (nonnull b)))"
proof (cases "a = [] \<or> b = []")
  case True
  then show ?thesis by (auto simp: tag_compare_empty match_modes)
next
  case False
  then have ne: "a \<noteq> []" "b \<noteq> []" by simp_all
  note loop = loop_intersection [OF compare_rooms(1) [OF assms, of a] compare_rooms(2) [OF assms, of b],
      where any = "None \<in> set a" and ret = RET_MATCHED_WITHOUT_NULL]
  show ?thesis
    using loop card_uniq_eq_iff [of b a]
    by (auto simp: tag_compare_run [OF assms ne] ne compare_finish_def match_intersection_def Let_def
        darray_new_def ret_codes split: if_splits)
qed

theorem tag_compare_intersection_witness:
  "tag_compare (\<lambda>n. n) (Some [Some 1, None]) (Some [Some 3, Some 1]) (Some (Some 2)) = Inr 3 \<and>
   tag_compare (\<lambda>n. n) (Some [Some 1]) (Some []) (Some (Some 2)) = Inr 0"
  using tag_compare_intersection [of "\<lambda>n. n" "[Some 1, None]" "[Some 3, Some 1]"]
    tag_compare_intersection [of "\<lambda>n. n" "[Some 1]" "[]"]
  by (auto simp: palloc_ok_def match_modes match_intersection_def ret_codes)

text \<open>
  The guards: a NULL array never matches, an empty array matches only an empty array, the
  mode defaults to B_IN_A, and exactly the modes 0, 1 and 2 are accepted.
\<close>

lemma tag_compare_guards:
  "tag_compare pal None b_arg m = Inr RET_NOT_MATCHED \<and>
   tag_compare pal a_arg None m = Inr RET_NOT_MATCHED \<and>
   tag_compare pal a_arg b_arg None =
     tag_compare pal a_arg b_arg (Some (Some MATCH_MODE_B_IN_A)) \<and>
   tag_compare pal a_arg b_arg (Some None) =
     tag_compare pal a_arg b_arg (Some (Some MATCH_MODE_B_IN_A)) \<and>
   tag_compare pal (Some []) (Some b) None =
     Inr (if b = [] then RET_MATCHED_EXACTLY else RET_NOT_MATCHED) \<and>
   tag_compare pal (Some (x # xs)) (Some []) None = Inr RET_NOT_MATCHED \<and>
   (tag_compare pal (Some a) (Some b) (Some (Some mode)) =
      Inl (PgError ''unknown matching mode'') \<longleftrightarrow> mode \<notin> {0, 1, 2})"
proof -
  have loop: "compare_loop md any aset ret bset ys \<noteq> Inl (PgError m)" for md any aset ret bset ys m
    by (induction md any aset ret bset ys rule: compare_loop.induct)
      (auto simp: compare_loop.simps Let_def rbind_Inl_iff set_contains_value_def darray_push_def
        split: if_splits)
  have mut: "mutual_loop bset ret vs \<noteq> Inl (PgError m)" for bset ret vs m
    by (induction vs) (auto simp: rbind_Inl_iff set_contains_value_def split: if_splits)
  show ?thesis
    by (auto simp: tag_compare_def Let_def rbind_Inl_iff loop mut compare_finish_def match_modes
        split: option.splits loop_out.splits if_splits)
qed

end
