(* ===== verification/C_Strings.thy ===== *)
theory C_Strings
  imports Prelude
begin

text \<open>
  The parts of the C string library the extension uses: fixed-size char arrays read as
  NUL-terminated strings, \<open>strncpy\<close> and \<open>memcpy\<close> into them with their bounds, the
  number scanners behind \<open>sscanf("%ld")\<close> and \<open>atoi\<close>, and \<open>"%d"\<close> formatting.
\<close>

section \<open>Char arrays\<close>

abbreviation NUL :: char where
  "NUL \<equiv> CHR 0x00"

abbreviation zeros :: "nat \<Rightarrow> bytes" where
  "zeros n \<equiv> replicate n NUL"

text \<open>
  Reading an array as a C string: the bytes before the first NUL; an array without a NUL
  is read past its end.
\<close>

definition cstr :: "bytes \<Rightarrow> bytes res" where
  "cstr buf = (if NUL \<in> set buf then Inr (takeWhile (\<lambda>c. c \<noteq> NUL) buf) else Inl OutOfBounds)"

text \<open>
  \<open>strncpy(dst, src, n)\<close> writes exactly \<open>n\<close> bytes: the source up to its NUL, then NULs.
  \<open>src\<close> is the memory the source pointer sees.
\<close>

definition strncpy :: "bytes \<Rightarrow> bytes \<Rightarrow> nat \<Rightarrow> bytes res" where
  "strncpy dst src n =
     (if n \<le> length dst
      then Inr (take n (takeWhile (\<lambda>c. c \<noteq> NUL) src @ zeros n) @ drop n dst)
      else Inl OutOfBounds)"

definition memcpy :: "bytes \<Rightarrow> bytes \<Rightarrow> bytes res" where
  "memcpy dst src =
     (if length src \<le> length dst then Inr (src @ drop (length src) dst) else Inl OutOfBounds)"

lemma takeWhile_no_NUL [simp]: "NUL \<notin> set s \<Longrightarrow> takeWhile (\<lambda>c. c \<noteq> NUL) s = s"
  by (auto simp: takeWhile_eq_all_conv)

lemma cstr_append_NUL [simp]: "NUL \<notin> set s \<Longrightarrow> cstr (s @ NUL # t) = Inr s"
  by (simp add: cstr_def takeWhile_append2 takeWhile_tail)

lemma cstr_NUL [simp]: "cstr (NUL # t) = Inr []"
  by (simp add: cstr_def)

lemma cstr_padded: "NUL \<notin> set s \<Longrightarrow> 0 < n \<Longrightarrow> cstr (s @ zeros n) = Inr s"
  by (cases n) auto

lemma cstr_full: "NUL \<notin> set s \<Longrightarrow> cstr s = Inl OutOfBounds"
  by (simp add: cstr_def)

lemma strncpy_zeros:
  assumes "NUL \<notin> set s" and "length s \<le> n" and "n \<le> sz"
  shows "strncpy (zeros sz) s n = Inr (s @ zeros (sz - length s))"
  using assms by (simp add: strncpy_def flip: replicate_add)

lemma strncpy_overflow: "length dst < n \<Longrightarrow> strncpy dst src n = Inl OutOfBounds"
  by (simp add: strncpy_def)

lemma strncpy_length: "strncpy dst src n = Inr buf \<Longrightarrow> length buf = length dst"
  by (auto simp: strncpy_def split: if_splits)

text \<open>
  The contract of a char array that holds a C string: strings shorter than the array come
  back as they went in, so distinct short strings stay distinct.
\<close>

locale string_slot =
  fixes store :: "bytes \<Rightarrow> bytes res" and capacity :: nat
  assumes store_fits: "NUL \<notin> set s \<Longrightarrow> length s < capacity \<Longrightarrow>
      \<exists>buf. store s = Inr buf \<and> cstr buf = Inr s \<and> length buf = capacity"
begin

lemma load_store: "NUL \<notin> set s \<Longrightarrow> length s < capacity \<Longrightarrow> rbind (store s) cstr = Inr s"
  using store_fits by fastforce

lemma store_inj:
  assumes "NUL \<notin> set s" "length s < capacity" "NUL \<notin> set t" "length t < capacity"
    and "store s = store t"
  shows "s = t"
proof -
  have "rbind (store t) cstr = Inr s"
    using load_store [OF assms(1,2)] unfolding assms(5) .
  then show ?thesis using load_store [OF assms(3,4)] by simp
qed

end

text \<open>\<open>memset(buf, 0, sz); strncpy(buf, s, strlen(s))\<close> and \<open>strncpy(buf, s, sz)\<close>.\<close>

interpretation slot_len: string_slot "\<lambda>s. strncpy (zeros sz) s (length s)" sz for sz
  by unfold_locales (auto simp: strncpy_zeros cstr_padded)

interpretation slot_size: string_slot "\<lambda>s. strncpy (zeros sz) s sz" sz for sz
  by unfold_locales (auto simp: strncpy_zeros cstr_padded)

section \<open>Numbers in text\<close>

definition char_code :: "char \<Rightarrow> nat" where
  "char_code c = of_char c"

definition is_space :: "char \<Rightarrow> bool" where
  "is_space c \<longleftrightarrow> char_code c = 32 \<or> 9 \<le> char_code c \<and> char_code c \<le> 13"

definition is_digit :: "char \<Rightarrow> bool" where
  "is_digit c \<longleftrightarrow> 48 \<le> char_code c \<and> char_code c \<le> 57"

definition digit_char :: "nat \<Rightarrow> char" where
  "digit_char d = char_of (48 + d mod 10)"

lemma char_code_digit [simp]: "char_code (digit_char d) = 48 + d mod 10"
proof -
  have "48 + d mod 10 < 256" by (rule le_less_trans [of _ "48 + 9"]) auto
  then show ?thesis by (simp add: char_code_def digit_char_def)
qed

lemma is_digit_digit [simp]: "is_digit (digit_char d)"
  by (simp add: is_digit_def)

fun scan_digits :: "nat \<Rightarrow> bytes \<Rightarrow> nat" where
  "scan_digits acc [] = acc"
| "scan_digits acc (c # cs) =
     (if is_digit c then scan_digits (10 * acc + (char_code c - 48)) cs else acc)"

text \<open>
  The conversion \<open>strtol\<close> (base 10) and \<open>sscanf("%ld")\<close> share: white space, an optional
  sign, at least one digit; values outside \<open>long\<close> are clamped to it. None means that no
  number was found.
\<close>

definition clamp_long :: "int \<Rightarrow> int" where
  "clamp_long v = max (- (2 ^ 63)) (min (2 ^ 63 - 1) v)"

definition scan_unsigned :: "bytes \<Rightarrow> nat option" where
  "scan_unsigned s = (case s of [] \<Rightarrow> None | c # _ \<Rightarrow>
     if is_digit c then Some (scan_digits 0 s) else None)"

definition scan_long :: "bytes \<Rightarrow> int option" where
  "scan_long s =
     (case dropWhile is_space s of
        [] \<Rightarrow> None
      | c # cs \<Rightarrow>
          if c = CHR ''-'' then map_option (\<lambda>n. clamp_long (- int n)) (scan_unsigned cs)
          else if c = CHR ''+'' then map_option (\<lambda>n. clamp_long (int n)) (scan_unsigned cs)
          else map_option (\<lambda>n. clamp_long (int n)) (scan_unsigned (c # cs)))"

text \<open>\<open>atoi(s)\<close> is \<open>(int) strtol(s, NULL, 10)\<close>, 0 without a number.\<close>

definition atoi :: "bytes \<Rightarrow> int" where
  "atoi s = (case scan_long s of None \<Rightarrow> 0 | Some v \<Rightarrow> to_int32 v)"

text \<open>\<open>"%d"\<close> of a non-negative number.\<close>

fun dec :: "nat \<Rightarrow> bytes" where
  "dec n = (if n < 10 then [digit_char n] else dec (n div 10) @ [digit_char n])"

declare dec.simps [simp del]

text \<open>\<open>"%d"\<close> of any \<open>int\<close>.\<close>

definition dec_signed :: "int \<Rightarrow> bytes" where
  "dec_signed v = (if v < 0 then CHR ''-'' # dec (nat (- v)) else dec (nat v))"

lemma dec_nonempty [simp]: "dec n \<noteq> []"
  by (subst dec.simps) simp

lemma dec_digits: "c \<in> set (dec n) \<Longrightarrow> is_digit c"
proof (induction n rule: dec.induct)
  case (1 n)
  then show ?case by (subst (asm) (2) dec.simps) (auto split: if_splits)
qed

lemma scan_digits_append:
  "\<forall>c \<in> set xs. is_digit c \<Longrightarrow> scan_digits acc (xs @ ys) = scan_digits (scan_digits acc xs) ys"
  by (induction xs arbitrary: acc) auto

lemma scan_digits_stop: "ys = [] \<or> \<not> is_digit (hd ys) \<Longrightarrow> scan_digits acc ys = acc"
  by (cases ys) auto

lemma scan_digits_dec: "scan_digits 0 (dec n) = n"
proof (induction n rule: dec.induct)
  case (1 n)
  show ?case
  proof (cases "n < 10")
    case True
    then show ?thesis by (subst dec.simps) simp
  next
    case False
    then have "scan_digits 0 (dec n) = 10 * scan_digits 0 (dec (n div 10)) + n mod 10"
      by (subst dec.simps) (simp add: scan_digits_append dec_digits)
    with 1 False show ?thesis by simp
  qed
qed

lemma digit_not_space: "is_digit c \<Longrightarrow> \<not> is_space c"
  by (auto simp: is_digit_def is_space_def)

lemma digit_not_sign: "is_digit c \<Longrightarrow> c \<noteq> CHR ''-'' \<and> c \<noteq> CHR ''+''"
  by (auto simp: is_digit_def char_code_def)

text \<open>A printed number followed by something else is read back.\<close>

lemma scan_long_dec:
  assumes "ys = [] \<or> \<not> is_digit (hd ys)" and "int n < 2 ^ 63"
  shows "scan_long (dec n @ ys) = Some (int n)"
proof -
  obtain c cs where d: "dec n = c # cs" by (cases "dec n") auto
  then have c: "is_digit c" using dec_digits [of c n] by simp
  have "scan_digits 0 (dec n @ ys) = n"
    using assms(1) by (simp add: scan_digits_append dec_digits scan_digits_dec scan_digits_stop)
  with d c show ?thesis
    using assms(2) digit_not_space [OF c] digit_not_sign [OF c]
    by (simp add: scan_long_def scan_unsigned_def clamp_long_def)
qed

lemma atoi_dec: "n < 2 ^ 31 \<Longrightarrow> atoi (dec n) = int n"
  using scan_long_dec [of "[]" n] by (simp add: atoi_def)

end
