(* ===== verification/Replace_Rand.thy ===== *)
theory Replace_Rand
  imports C_Strings
begin

text \<open>
  src/replace_rand.c and src/f_replace_rand.c: every placeholder \<open>r(n)\<close> of a text becomes
  \<open>n\<close> random digits. Positions are offsets into the text (\<open>p - s\<close> of the C code).
  Parameters: \<open>mem n\<close> says whether \<open>realloc\<close> to \<open>n\<close> bytes succeeds, \<open>rand_r\<close> is the C
  library's generator on its seed, and the seed itself is the microseconds of the clock.
  \<open>sscanf\<close> is taken to read no further than its conversion needs; the text behind it has no
  terminating NUL, but a \<open>)\<close> that ends every number.
\<close>

section \<open>Model\<close>

definition RAND_MIN_LEN :: int where "RAND_MIN_LEN = 0"
definition RAND_MAX_LEN :: int where "RAND_MAX_LEN = 64"
definition RAND_START_LEN :: nat where "RAND_START_LEN = 2"
definition RAND_COMPLETED_MIN_LEN :: nat where "RAND_COMPLETED_MIN_LEN = 4"
definition CACHE_SIZE_INC_START :: nat where "CACHE_SIZE_INC_START = 4"
definition CACHE_SIZE_INC_SCALE :: nat where "CACHE_SIZE_INC_SCALE = 2"
definition CACHE_SIZE_INC_MAX :: nat where "CACHE_SIZE_INC_MAX = 64"
definition sizeof_replacing :: nat where "sizeof_replacing = 24"

lemmas rand_lens = RAND_START_LEN_def RAND_COMPLETED_MIN_LEN_def
lemmas rand_limits = RAND_MIN_LEN_def RAND_MAX_LEN_def

record replacing =
  ph_start :: nat
  ph_end :: nat
  ph_value :: int

text \<open>The dynamic array \<open>c\<close> with its capacity and the next increment; \<open>n\<close> is its length.\<close>

record cache =
  ents :: "replacing list"
  c_size :: nat
  c_size_inc :: nat

definition cache_empty :: cache where
  "cache_empty = \<lparr>ents = [], c_size = 0, c_size_inc = CACHE_SIZE_INC_START\<rparr>"

definition cache_write :: "cache \<Rightarrow> replacing \<Rightarrow> cache option res" where
  "cache_write c e =
     (if Suc (length (ents c)) \<le> c_size c then Inr (Some (c\<lparr>ents := ents c @ [e]\<rparr>))
      else Inl OutOfBounds)"

definition cache_add :: "(nat \<Rightarrow> bool) \<Rightarrow> cache \<Rightarrow> replacing \<Rightarrow> cache option res" where
  "cache_add mem c e =
     (if c_size c < Suc (length (ents c)) then
        (let sz = c_size c + c_size_inc c
         in if mem (sizeof_replacing * sz)
            then cache_write (c\<lparr>c_size := sz,
                   c_size_inc := min (c_size_inc c * CACHE_SIZE_INC_SCALE) CACHE_SIZE_INC_MAX\<rparr>) e
            else Inr None)
      else cache_write c e)"

definition clamp_len :: "int \<Rightarrow> int" where
  "clamp_len v = (if v < RAND_MIN_LEN then RAND_MIN_LEN
                  else if v > RAND_MAX_LEN then RAND_MAX_LEN else v)"

text \<open>The search loop; \<open>p\<close> moves on in every iteration.\<close>

function find_placeholders ::
  "(nat \<Rightarrow> bool) \<Rightarrow> bytes \<Rightarrow> nat \<Rightarrow> cache \<Rightarrow> cache option res" where
  "find_placeholders mem s p c =
     (case memchr CHR ''r'' (drop p s) of
        None \<Rightarrow> Inr (Some c)
      | Some d \<Rightarrow>
          (let p2 = p + d in
           if p2 + RAND_COMPLETED_MIN_LEN > length s then Inr (Some c)
           else if s ! (p2 + 1) \<noteq> CHR ''('' then
             (if p2 + 1 + RAND_COMPLETED_MIN_LEN > length s then Inr (Some c)
              else find_placeholders mem s (p2 + 1) c)
           else
             (case memchr CHR '')'' (drop (p2 + RAND_START_LEN) s) of
                None \<Rightarrow>
                  (if p2 + RAND_START_LEN + RAND_COMPLETED_MIN_LEN > length s then Inr (Some c)
                   else find_placeholders mem s (p2 + RAND_START_LEN) c)
              | Some e \<Rightarrow>
                  (let p3 = p2 + RAND_START_LEN + e in
                   case scan_long (drop (p2 + RAND_START_LEN) s) of
                     None \<Rightarrow> find_placeholders mem s p3 c
                   | Some v \<Rightarrow>
                       (case cache_add mem c
                               \<lparr>ph_start = p2, ph_end = p3, ph_value = clamp_len v\<rparr> of
                          Inl f \<Rightarrow> Inl f
                        | Inr None \<Rightarrow> Inr None
                        | Inr (Some c') \<Rightarrow> find_placeholders mem s p3 c')))))"
  by pat_completeness auto
termination
  by (relation "measure (\<lambda>(mem, s, p, c). length s - p)")
    (auto simp: rand_lens)

declare find_placeholders.simps [simp del]

text \<open>The output size, in \<open>size_t\<close> arithmetic (which may pass below zero and come back).\<close>

primrec out_size :: "int \<Rightarrow> replacing list \<Rightarrow> int" where
  "out_size n [] = n"
| "out_size n (ce # ces) = out_size (n - ((int (ph_end ce) - int (ph_start ce)) + 1) + ph_value ce) ces"

primrec gen_digits :: "(seed \<Rightarrow> nat \<times> seed) \<Rightarrow> seed \<Rightarrow> nat \<Rightarrow> bytes \<times> seed" where
  "gen_digits rand_r seed 0 = ([], seed)"
| "gen_digits rand_r seed (Suc k) =
     (let (r, seed') = rand_r seed; (ds, seed'') = gen_digits rand_r seed' k
      in (char_of (0x30 + r mod 10) # ds, seed''))"

text \<open>The copying loop with the final \<open>memcpy\<close> of the tail.\<close>

fun render :: "(seed \<Rightarrow> nat \<times> seed) \<Rightarrow> seed \<Rightarrow> bytes \<Rightarrow> nat \<Rightarrow> replacing list \<Rightarrow> bytes" where
  "render rand_r seed s p [] = drop p s"
| "render rand_r seed s p (ce # ces) =
     (let (ds, seed') = gen_digits rand_r seed (nat (ph_value ce))
      in take (ph_start ce - p) (drop p s) @ ds @ render rand_r seed' s (ph_end ce + 1) ces)"

text \<open>
  \<open>replace\<close>: None for a NULL result (\<open>realloc\<close> failed), otherwise the text and the flag
  \<open>replaced\<close>. Filling the output buffer with more bytes than it has, or with fewer, is a
  fault.
\<close>

definition replace ::
  "(nat \<Rightarrow> bool) \<Rightarrow> (seed \<Rightarrow> nat \<times> seed) \<Rightarrow> seed \<Rightarrow> bytes \<Rightarrow> (bytes \<times> bool) option res" where
  "replace mem rand_r seed s =
     rbind (find_placeholders mem s 0 cache_empty)
       (\<lambda>found. case found of
          None \<Rightarrow> Inr None
        | Some c \<Rightarrow>
            if ents c = [] then Inr (Some (s, False))
            else (let out = render rand_r seed s 0 (ents c)
                  in if int (length out) = out_size (int (length s)) (ents c)
                     then Inr (Some (out, True)) else Inl OutOfBounds))"

text \<open>The SQL function of f_replace_rand.c.\<close>

definition replace_rand ::
  "(nat \<Rightarrow> bool) \<Rightarrow> (seed \<Rightarrow> nat \<times> seed) \<Rightarrow> seed \<Rightarrow> bytes \<Rightarrow> bytes res" where
  "replace_rand mem rand_r seed s =
     rbind (replace mem rand_r seed s)
       (\<lambda>r. case r of None \<Rightarrow> Inr s | Some (out, replaced) \<Rightarrow> Inr (if replaced then out else s))"

section \<open>The placeholders found\<close>

text \<open>
  The placeholders lie in the text one after the other from \<open>p\<close> on, each \<open>r(\<close>, an argument
  without \<open>)\<close> that starts with a number, and \<open>)\<close>.
\<close>

fun well_placed :: "bytes \<Rightarrow> nat \<Rightarrow> replacing list \<Rightarrow> bool" where
  "well_placed s p [] \<longleftrightarrow> p \<le> length s"
| "well_placed s p (ce # ces) \<longleftrightarrow>
     p \<le> ph_start ce \<and> ph_start ce + RAND_START_LEN \<le> ph_end ce \<and> ph_end ce < length s
     \<and> s ! ph_start ce = CHR ''r'' \<and> s ! (ph_start ce + 1) = CHR ''(''
     \<and> s ! ph_end ce = CHR '')''
     \<and> CHR '')'' \<notin> set (take (ph_end ce - (ph_start ce + RAND_START_LEN))
                            (drop (ph_start ce + RAND_START_LEN) s))
     \<and> map_option clamp_len (scan_long (drop (ph_start ce + RAND_START_LEN) s))
         = Some (ph_value ce)
     \<and> well_placed s (ph_end ce + 1) ces"

lemma well_placed_mono: "well_placed s q ces \<Longrightarrow> p \<le> q \<Longrightarrow> well_placed s p ces"
  by (cases ces) auto

lemma well_placed_skip:
  "well_placed s p ces \<Longrightarrow> p < length s \<Longrightarrow> s ! p \<noteq> CHR ''r'' \<Longrightarrow> well_placed s (p + 1) ces"
  by (cases ces) (auto simp: Suc_le_eq le_less)

definition cache_inv :: "cache \<Rightarrow> bool" where
  "cache_inv c \<longleftrightarrow> length (ents c) \<le> c_size c \<and> 0 < c_size_inc c"

lemma cache_inv_empty: "cache_inv cache_empty"
  by (simp add: cache_inv_def cache_empty_def CACHE_SIZE_INC_START_def)

lemma cache_add_ok:
  assumes "cache_inv c"
  obtains (full) "cache_add mem c e = Inr None" "\<exists>n. \<not> mem n"
    | (ok) c' where "cache_add mem c e = Inr (Some c')" "ents c' = ents c @ [e]" "cache_inv c'"
  using assms that
  by (fastforce simp: cache_add_def cache_write_def cache_inv_def Let_def
      CACHE_SIZE_INC_SCALE_def CACHE_SIZE_INC_MAX_def split: if_splits)

definition found_ok :: "(nat \<Rightarrow> bool) \<Rightarrow> bytes \<Rightarrow> nat \<Rightarrow> cache \<Rightarrow> cache option res \<Rightarrow> bool" where
  "found_ok mem s p c r \<longleftrightarrow>
     (\<exists>c' new. r = Inr (Some c') \<and> ents c' = ents c @ new \<and> well_placed s p new \<and> cache_inv c')
     \<or> r = Inr None \<and> (\<exists>n. \<not> mem n)"

lemma found_ok_stop [intro]: "cache_inv c \<Longrightarrow> p \<le> length s \<Longrightarrow> found_ok mem s p c (Inr (Some c))"
  by (auto simp: found_ok_def)

lemma found_ok_earlier: "found_ok mem s q c r \<Longrightarrow> p \<le> q \<Longrightarrow> found_ok mem s p c r"
  by (auto simp: found_ok_def intro: well_placed_mono)

lemma found_ok_add:
  assumes r: "found_ok mem s (ph_end e) c' r" and c': "ents c' = ents c @ [e]"
    and e: "p \<le> ph_start e" "ph_start e + RAND_START_LEN \<le> ph_end e" "ph_end e < length s"
      "s ! ph_start e = CHR ''r''" "s ! (ph_start e + 1) = CHR ''(''" "s ! ph_end e = CHR '')''"
      "CHR '')'' \<notin> set (take (ph_end e - (ph_start e + RAND_START_LEN))
         (drop (ph_start e + RAND_START_LEN) s))"
      "map_option clamp_len (scan_long (drop (ph_start e + RAND_START_LEN) s)) = Some (ph_value e)"
  shows "found_ok mem s p c r"
proof -
  have "well_placed s (ph_end e + 1) new" if "well_placed s (ph_end e) new" for new
    using well_placed_skip [OF that e(3)] e(6) by simp
  then show ?thesis
    using r e by (auto simp: found_ok_def c')
qed

text \<open>The search loop, one equation per way through its body.\<close>

lemma find_none: "memchr CHR ''r'' (drop p s) = None \<Longrightarrow> find_placeholders mem s p c = Inr (Some c)"
  by (subst find_placeholders.simps) simp

lemma find_short:
  "memchr CHR ''r'' (drop p s) = Some d \<Longrightarrow> length s < p + d + 4 \<Longrightarrow>
    find_placeholders mem s p c = Inr (Some c)"
  by (subst find_placeholders.simps) (simp add: Let_def rand_lens)

lemma find_no_paren:
  "memchr CHR ''r'' (drop p s) = Some d \<Longrightarrow> p + d + 4 \<le> length s \<Longrightarrow>
    s ! (p + d + 1) \<noteq> CHR ''('' \<Longrightarrow>
    find_placeholders mem s p c =
      (if length s < p + d + 5 then Inr (Some c) else find_placeholders mem s (p + d + 1) c)"
  by (subst find_placeholders.simps) (simp add: Let_def rand_lens)

lemma find_no_close:
  "memchr CHR ''r'' (drop p s) = Some d \<Longrightarrow> p + d + 4 \<le> length s \<Longrightarrow>
    s ! (p + d + 1) = CHR ''('' \<Longrightarrow> memchr CHR '')'' (drop (p + d + 2) s) = None \<Longrightarrow>
    find_placeholders mem s p c =
      (if length s < p + d + 6 then Inr (Some c) else find_placeholders mem s (p + d + 2) c)"
  by (subst find_placeholders.simps) (simp add: Let_def rand_lens)

lemma find_no_number:
  "memchr CHR ''r'' (drop p s) = Some d \<Longrightarrow> p + d + 4 \<le> length s \<Longrightarrow>
    s ! (p + d + 1) = CHR ''('' \<Longrightarrow> memchr CHR '')'' (drop (p + d + 2) s) = Some e \<Longrightarrow>
    scan_long (drop (p + d + 2) s) = None \<Longrightarrow>
    find_placeholders mem s p c = find_placeholders mem s (p + d + 2 + e) c"
  by (subst find_placeholders.simps) (simp add: Let_def rand_lens)

lemma find_number:
  "memchr CHR ''r'' (drop p s) = Some d \<Longrightarrow> p + d + 4 \<le> length s \<Longrightarrow>
    s ! (p + d + 1) = CHR ''('' \<Longrightarrow> memchr CHR '')'' (drop (p + d + 2) s) = Some e \<Longrightarrow>
    scan_long (drop (p + d + 2) s) = Some v \<Longrightarrow>
    find_placeholders mem s p c =
      (case cache_add mem c \<lparr>ph_start = p + d, ph_end = p + d + 2 + e, ph_value = clamp_len v\<rparr> of
         Inl f \<Rightarrow> Inl f | Inr None \<Rightarrow> Inr None
       | Inr (Some c') \<Rightarrow> find_placeholders mem s (p + d + 2 + e) c')"
  by (subst find_placeholders.simps) (simp add: Let_def rand_lens split: sum.split option.split)

text \<open>The induction that goes with them: on the distance to the end of the text.\<close>

lemma find_placeholders_ok:
  "cache_inv c \<Longrightarrow> p \<le> length s \<Longrightarrow> found_ok mem s p c (find_placeholders mem s p c)"
proof (induction "length s - p" arbitrary: p c rule: less_induct)
  case less
  note IH = less.hyps [OF diff_less_mono2]
  show ?case
  proof (cases "memchr CHR ''r'' (drop p s)")
    case None
    then show ?thesis using less.prems by (auto simp: find_none)
  next
    case d: (Some d)
    have r: "s ! (p + d) = CHR ''r''" "p + d < length s"
      using memchr_Some_nth [OF d] less.prems by auto
    show ?thesis
    proof (cases "p + d + 4 \<le> length s")
      case False
      then show ?thesis using less.prems by (auto simp: find_short [OF d])
    next
      case long: True
      show ?thesis
      proof (cases "s ! (p + d + 1) = CHR ''(''")
        case False
        have "found_ok mem s p c (find_placeholders mem s (p + d + 1) c)"
          using less.prems r by (intro found_ok_earlier [OF IH]) auto
        then show ?thesis
          using less.prems by (simp add: find_no_paren [OF d long False] found_ok_stop)
      next
        case paren: True
        show ?thesis
        proof (cases "memchr CHR '')'' (drop (p + d + 2) s)")
          case None
          have "found_ok mem s p c (find_placeholders mem s (p + d + 2) c)"
            using less.prems r long by (intro found_ok_earlier [OF IH]) auto
          then show ?thesis
            using less.prems by (simp add: find_no_close [OF d long paren None] found_ok_stop)
        next
          case e: (Some e)
          have close: "p + d + 2 + e < length s" "s ! (p + d + 2 + e) = CHR '')''"
            "CHR '')'' \<notin> set (take e (drop (p + d + 2) s))"
            using memchr_Some_nth [OF e] by (auto simp: add.assoc)
          show ?thesis
          proof (cases "scan_long (drop (p + d + 2) s)")
            case None
            have "found_ok mem s p c (find_placeholders mem s (p + d + 2 + e) c)"
              using less.prems close by (intro found_ok_earlier [OF IH]) auto
            then show ?thesis by (simp only: find_no_number [OF d long paren e None])
          next
            case (Some v)
            let ?e = "\<lparr>ph_start = p + d, ph_end = p + d + 2 + e, ph_value = clamp_len v\<rparr>"
            from less.prems(1) show ?thesis
            proof (cases rule: cache_add_ok [of c mem ?e])
              case full
              then show ?thesis by (simp add: find_number [OF d long paren e Some] found_ok_def)
            next
              case (ok c')
              have "found_ok mem s (ph_end ?e) c' (find_placeholders mem s (ph_end ?e) c')"
                using less.prems close ok(3) by (intro IH) auto
              then have "found_ok mem s p c (find_placeholders mem s (ph_end ?e) c')"
                by (rule found_ok_add [OF _ ok(2)]) (use close r paren Some in \<open>auto simp: rand_lens\<close>)
              then show ?thesis
                by (simp only: find_number [OF d long paren e Some] ok(1) sum.case option.case
                    replacing.select_convs)
            qed
          qed
        qed
      qed
    qed
  qed
qed

section \<open>The output buffer\<close>

lemma clamp_len_range: "0 \<le> clamp_len v \<and> clamp_len v \<le> 64"
  by (simp add: clamp_len_def rand_limits)

lemma out_size_shift: "out_size (n + k) ces = out_size n ces + k"
proof (induction ces arbitrary: n)
  case (Cons ce ces)
  have "out_size (n + k - (int (ph_end ce) - int (ph_start ce) + 1) + ph_value ce) ces =
      out_size ((n - (int (ph_end ce) - int (ph_start ce) + 1) + ph_value ce) + k) ces"
    by (simp add: algebra_simps)
  then show ?case by (simp only: out_size.simps Cons)
qed simp

definition digits_ok :: "bytes \<Rightarrow> nat \<Rightarrow> bool" where
  "digits_ok ds k \<longleftrightarrow> length ds = k \<and> (\<forall>c \<in> set ds. is_digit c)"

lemma gen_digits_ok: "digits_ok (fst (gen_digits rand_r seed k)) k"
proof (induction k arbitrary: seed)
  case (Suc k)
  obtain r s where r: "rand_r seed = (r, s)" by (cases "rand_r seed")
  have "is_digit (char_of (0x30 + r mod 10))"
    using is_digit_digit [of r] by (simp add: digit_char_def)
  then show ?case using Suc [of s] by (auto simp: r digits_ok_def split: prod.splits)
qed (simp add: digits_ok_def)

lemma length_gen_digits [simp]: "length (fst (gen_digits rand_r seed k)) = k"
  using gen_digits_ok [of rand_r seed k] by (simp add: digits_ok_def)

lemma render_Cons:
  "render rand_r seed s p (ce # ces) = take (ph_start ce - p) (drop p s)
     @ fst (gen_digits rand_r seed (nat (ph_value ce)))
     @ render rand_r (snd (gen_digits rand_r seed (nat (ph_value ce)))) s (ph_end ce + 1) ces"
  by (simp split: prod.split)

declare render.simps(2) [simp del]

lemma well_placed_value:
  "well_placed s p (ce # ces) \<Longrightarrow> 0 \<le> ph_value ce \<and> ph_value ce \<le> 64"
  using clamp_len_range by (auto dest!: sym [of "clamp_len _"])

lemma length_render:
  "well_placed s p ces \<Longrightarrow>
    int (length (render rand_r seed s p ces)) = out_size (int (length s) - int p) ces"
proof (induction ces arbitrary: p seed)
  case (Cons ce ces)
  have v: "0 \<le> ph_value ce"
    using Cons.prems by (rule well_placed_value [THEN conjunct1])
  have "int (length s) - int p - (int (ph_end ce) - int (ph_start ce) + 1) + ph_value ce =
      int (length s) - int (ph_end ce + 1) + (int (ph_start ce) - int p + ph_value ce)"
    by simp
  then have "out_size (int (length s) - int p) (ce # ces) =
      out_size (int (length s) - int (ph_end ce + 1)) ces + (int (ph_start ce) - int p + ph_value ce)"
    by (simp only: out_size.simps out_size_shift)
  moreover have "int (length (take (ph_start ce - p) (drop p s))) = int (ph_start ce) - int p"
    using Cons.prems by (auto simp: rand_lens)
  moreover have "well_placed s (ph_end ce + 1) ces" using Cons.prems by simp
  ultimately show ?case
    using v by (simp only: render_Cons Cons.IH length_append length_gen_digits of_nat_add nat_0_le)
qed (simp add: of_nat_diff)

text \<open>The result of \<open>replace\<close>, once the placeholders are known.\<close>

lemma replace_cases:
  obtains (null) "replace mem rand_r seed s = Inr None" "\<exists>n. \<not> mem n"
    | (found) c where "well_placed s 0 (ents c)"
      "find_placeholders mem s 0 cache_empty = Inr (Some c)"
      "replace mem rand_r seed s = Inr (Some (render rand_r seed s 0 (ents c), ents c \<noteq> []))"
proof -
  have "found_ok mem s 0 cache_empty (find_placeholders mem s 0 cache_empty)"
    by (rule find_placeholders_ok) (simp_all add: cache_inv_empty)
  then consider "find_placeholders mem s 0 cache_empty = Inr None" "\<exists>n. \<not> mem n"
    | c' where "find_placeholders mem s 0 cache_empty = Inr (Some c')" "well_placed s 0 (ents c')"
    by (auto simp: found_ok_def cache_empty_def)
  then show ?thesis
  proof cases
    case 1
    then show ?thesis using null by (simp add: replace_def)
  next
    case (2 c')
    then show ?thesis
      using length_render [OF 2(2), of rand_r seed]
      by (intro found [of c']) (auto simp: replace_def Let_def)
  qed
qed

section \<open>Texts made of literals and placeholders\<close>

text \<open>
  A template: literals that do not contain \<open>r(\<close>, each followed by a placeholder with a
  printed number, and a last literal.
\<close>

primrec template :: "(bytes \<times> nat) list \<Rightarrow> bytes \<Rightarrow> bytes" where
  "template [] tl_lit = tl_lit"
| "template (x # xs) tl_lit = fst x @ ''r('' @ dec (snd x) @ '')'' @ template xs tl_lit"

primrec generated :: "(bytes \<times> nat) list \<Rightarrow> bytes \<Rightarrow> bytes \<Rightarrow> bool" where
  "generated [] tl_lit out \<longleftrightarrow> out = tl_lit"
| "generated (x # xs) tl_lit out \<longleftrightarrow>
     (\<exists>ds rest. out = fst x @ ds @ rest \<and> digits_ok ds (min (snd x) 64) \<and> generated xs tl_lit rest)"

definition plain :: "bytes \<Rightarrow> bool" where
  "plain s \<longleftrightarrow> memmem ''r('' s = None"

definition wf_template :: "(bytes \<times> nat) list \<Rightarrow> bytes \<Rightarrow> bool" where
  "wf_template xs tl_lit \<longleftrightarrow> plain tl_lit \<and> (\<forall>(l, n) \<in> set xs. plain l \<and> int n < 2 ^ 63)"

lemma first_match_paren: "first_match ''r('' (memmem ''r('')"
  by (rule first_match_memmem) simp

lemma plain_iff: "plain s \<longleftrightarrow> (\<forall>j. \<not> prefix ''r('' (drop j s))"
  unfolding plain_def by (rule first_match.find_None_iff [OF first_match_paren])

lemma plain_drop: "plain s \<Longrightarrow> plain (drop k s)"
  by (auto simp: plain_iff)

lemma plain_close: "plain s \<Longrightarrow> plain (CHR '')'' # s)"
  by (simp add: plain_def)

lemma plain_next:
  assumes "plain s" and "s ! d = CHR ''r''" and "d + 1 < length s"
  shows "s ! (d + 1) \<noteq> CHR ''(''"
proof
  assume "s ! (d + 1) = CHR ''(''"
  then have "drop d s = ''r('' @ drop (d + 2) s"
    using assms drop_nth2 [of d s] by simp
  then have "prefix ''r('' (drop d s)" by (metis prefix_def)
  then show False using assms(1) by (auto simp: plain_iff)
qed

text \<open>The search skips a plain text at the end, and a plain text in front of a placeholder.\<close>

lemma find_plain_end: "plain (drop p s) \<Longrightarrow> find_placeholders mem s p c = Inr (Some c)"
proof (induction "length s - p" arbitrary: p rule: less_induct)
  case less
  show ?case
  proof (cases "memchr CHR ''r'' (drop p s)")
    case None
    then show ?thesis by (rule find_none)
  next
    case (Some d)
    show ?thesis
    proof (cases "p + d + 4 \<le> length s")
      case True
      have "drop p s ! (d + 1) \<noteq> CHR ''(''"
        using less.prems memchr_Some_nth [OF Some] True by (intro plain_next) auto
      then have "s ! (p + d + 1) \<noteq> CHR ''(''" using True by simp
      moreover have "plain (drop (p + d + 1) s)"
        using plain_drop [OF less.prems, of "d + 1"] by (simp add: add.commute add.left_commute)
      ultimately show ?thesis
        using less.hyps [of "p + d + 1"] find_no_paren [OF Some True, of mem c] True by simp
    next
      case False
      then show ?thesis using find_short [OF Some] by simp
    qed
  qed
qed

lemma memchr_before:
  "memchr c (xs @ c # ys) = Some d \<Longrightarrow> d = length xs \<or> d < length xs \<and> xs ! d = c"
  by (induction xs arbitrary: d) (auto split: if_splits)

lemma memchr_appended: "\<exists>d. memchr c (xs @ c # ys) = Some d"
  by (induction xs) auto

lemma scan_long_number: "int n < 2 ^ 63 \<Longrightarrow> scan_long (dec n @ '')'' @ ys) = Some (int n)"
  by (rule scan_long_dec) (simp_all add: is_digit_def char_code_def)

lemma close_notin_dec: "CHR '')'' \<notin> set (dec n)"
  using dec_digits [of "CHR '')''" n] by (auto simp: is_digit_def char_code_def)

definition at_placeholder :: "nat \<Rightarrow> bytes \<Rightarrow> nat \<Rightarrow> replacing" where
  "at_placeholder p l n = \<lparr>ph_start = p + length l, ph_end = p + length l + 2 + length (dec n),
     ph_value = int (min n 64)\<rparr>"

lemma find_at_placeholder:
  assumes "drop p s = l @ ''r('' @ dec n @ '')'' @ ys" and "plain l" and n: "int n < 2 ^ 63"
  shows "find_placeholders mem s p c = (case cache_add mem c (at_placeholder p l n) of
     Inl f \<Rightarrow> Inl f | Inr None \<Rightarrow> Inr None
   | Inr (Some c') \<Rightarrow> find_placeholders mem s (ph_end (at_placeholder p l n)) c')"
  using assms(1,2)
proof (induction "length l" arbitrary: l p rule: less_induct)
  case less
  have len: "p + length l + 3 + length (dec n) + length ys = length s"
    using drop_eq_length [OF less.prems(1)] by simp
  have d4: "p + length l + 4 \<le> length s"
    using len by (cases "dec n") (auto dest: arg_cong [where f = length])
  obtain d where d: "memchr CHR ''r'' (drop p s) = Some d"
    using memchr_appended [of _ l] less.prems(1) by auto
  show ?case
  proof (cases "d = length l")
    case True
    have paren: "s ! (p + length l + 1) = CHR ''(''"
      using drop_eq_nth [of p s "l @ ''r''" "CHR ''(''"] less.prems(1) by simp
    have rest: "drop (p + length l + 2) s = dec n @ '')'' @ ys"
      using drop_eq_shift [of p s "l @ ''r(''"] less.prems(1) by simp
    have close: "memchr CHR '')'' (drop (p + length l + 2) s) = Some (length (dec n))"
      unfolding rest using memchr_append_notin [OF close_notin_dec] by simp
    have num: "scan_long (drop (p + length l + 2) s) = Some (int n)"
      unfolding rest by (rule scan_long_number [OF n])
    have clamp: "clamp_len (int n) = int (min n 64)"
      by (simp add: clamp_len_def rand_limits)
    show ?thesis
      by (simp only: find_number [OF d [unfolded True] d4 paren close num] clamp
          at_placeholder_def replacing.select_convs)
  next
    case False
    then have dl: "d < length l" "l ! d = CHR ''r''"
      using memchr_before [of _ l] d less.prems(1) by auto
    let ?l = "drop (d + 1) l"
    have "drop (p + d + 1) s = ?l @ ''r('' @ dec n @ '')'' @ ys"
      using drop_eq_shift [of p s "take (d + 1) l" "?l @ ''r('' @ dec n @ '')'' @ ys"]
        less.prems(1) dl by (simp add: append_assoc [symmetric] del: append_assoc)
    note step = less.hyps [of ?l "p + d + 1", OF _ this plain_drop [OF less.prems(2)]]
    have "s ! (p + d + 1) \<noteq> CHR ''(''"
    proof (cases "d + 1 < length l")
      case True
      then have "s ! (p + (d + 1)) = l ! (d + 1)"
        using less.prems(1) nth_append [of l _ "d + 1"]
        by (metis add_leD1 d4 nth_drop le_add1)
      then show ?thesis using plain_next [OF less.prems(2) dl(2) True] by simp
    next
      case False
      then have e: "p + d + 1 = p + length l" using dl by simp
      show ?thesis unfolding e using drop_eq_nth [of p s l "CHR ''r''"] less.prems(1) by simp
    qed
    moreover have "p + d + 4 \<le> length s" "\<not> length s < p + d + 5"
      using d4 dl by auto
    ultimately have skip: "find_placeholders mem s p c = find_placeholders mem s (p + d + 1) c"
      using find_no_paren [OF d] by simp
    have same: "at_placeholder (p + d + 1) ?l n = at_placeholder p l n"
      using dl by (simp add: at_placeholder_def)
    have "length ?l < length l" using dl by simp
    from step [OF this] show ?thesis unfolding skip same .
  qed
qed

text \<open>The placeholders of a template, by position, and the whole search.\<close>

primrec positions :: "nat \<Rightarrow> bytes \<Rightarrow> (bytes \<times> nat) list \<Rightarrow> replacing list" where
  "positions p pre [] = []"
| "positions p pre (x # xs) = at_placeholder p (pre @ fst x) (snd x)
     # positions (ph_end (at_placeholder p (pre @ fst x) (snd x))) '')'' xs"

lemma wf_template_Cons:
  "wf_template (x # xs) tl_lit \<longleftrightarrow> plain (fst x) \<and> int (snd x) < 2 ^ 63 \<and> wf_template xs tl_lit"
  by (cases x) (auto simp: wf_template_def)

lemma find_template:
  assumes "drop p s = pre @ template xs tl_lit" and "pre = [] \<or> pre = '')''"
    and "wf_template xs tl_lit" and "cache_inv c" and "\<forall>n. mem n"
  shows "\<exists>c'. find_placeholders mem s p c = Inr (Some c') \<and> ents c' = ents c @ positions p pre xs"
  using assms
proof (induction xs arbitrary: p pre c)
  case Nil
  then have "plain (drop p s)" by (auto simp: wf_template_def plain_close)
  then show ?case by (simp add: find_plain_end)
next
  case (Cons x xs)
  obtain l n where x: "x = (l, n)" by (cases x)
  let ?e = "at_placeholder p (pre @ l) n"
  have l: "plain (pre @ l)" "int n < 2 ^ 63"
    using Cons.prems(2,3) by (auto simp: x wf_template_Cons plain_close)
  have eq: "drop p s = (pre @ l) @ ''r('' @ dec n @ '')'' @ template xs tl_lit"
    using Cons.prems(1) by (simp add: x)
  have next_text: "drop (ph_end ?e) s = '')'' @ template xs tl_lit"
    using drop_eq_shift [of p s "(pre @ l) @ ''r('' @ dec n"] eq
    by (simp add: at_placeholder_def add.commute add.left_commute)
  from Cons.prems(4) show ?case
  proof (cases rule: cache_add_ok [of c mem ?e])
    case full
    then show ?thesis using Cons.prems(5) by blast
  next
    case (ok c')
    from Cons.IH [OF next_text _ _ ok(3) Cons.prems(5)] Cons.prems(3)
    obtain c'' where "find_placeholders mem s (ph_end ?e) c' = Inr (Some c'')"
      "ents c'' = ents c' @ positions (ph_end ?e) '')'' xs"
      by (auto simp: wf_template_Cons)
    then show ?thesis
      by (simp add: find_at_placeholder [OF eq l] ok(1,2) x)
  qed
qed

lemma render_template:
  "drop (q + length pre) s = template xs tl_lit \<Longrightarrow>
    generated xs tl_lit (render rand_r seed s (q + length pre) (positions q pre xs))"
proof (induction xs arbitrary: q pre seed)
  case (Cons x xs)
  obtain l n where x: "x = (l, n)" by (cases x)
  let ?e = "at_placeholder q (pre @ l) n" and ?p = "q + length pre"
  let ?ds = "fst (gen_digits rand_r seed (nat (ph_value ?e)))"
  have eq: "drop ?p s = l @ ''r('' @ dec n @ '')'' @ template xs tl_lit"
    using Cons.prems by (simp add: x)
  have "drop (ph_end ?e + length '')'') s = template xs tl_lit"
    using drop_eq_shift [of ?p s "l @ ''r('' @ dec n @ '')''"] eq
    by (simp add: at_placeholder_def add.commute add.left_commute)
  note IH = Cons.IH [OF this]
  have "take (ph_start ?e - ?p) (drop ?p s) = l"
    by (simp add: eq at_placeholder_def)
  moreover have "digits_ok ?ds (min n 64)"
    using gen_digits_ok [of rand_r seed "nat (ph_value ?e)"] by (simp add: at_placeholder_def)
  moreover obtain rest where "render rand_r (snd (gen_digits rand_r seed (nat (ph_value ?e)))) s
      (ph_end ?e + 1) (positions (ph_end ?e) '')'' xs) = rest" "generated xs tl_lit rest"
    using IH by simp
  ultimately show ?case
    by (simp only: x positions.simps render_Cons fst_conv snd_conv generated.simps) blast
qed simp

section \<open>What is replaced by what\<close>

text \<open>
  \<open>substituted s t\<close>: the texts \<open>t\<close> that \<open>s\<close> may become, with every placeholder replaced. The
  first \<open>r(\<close> of a text takes everything up to the next closing bracket as its argument; when
  the argument starts with a number the piece becomes that many digits, at least 0 and at most
  64, otherwise it is kept, and the text behind the bracket is treated likewise. A text without
  \<open>r(\<close>, or with no closing bracket behind its first \<open>r(\<close>, is kept as it is.
\<close>

inductive substituted :: "bytes \<Rightarrow> bytes \<Rightarrow> bool" where
  literal: "plain s \<Longrightarrow> substituted s s"
| unclosed: "plain lit \<Longrightarrow> CHR '')'' \<notin> set s \<Longrightarrow> substituted (lit @ ''r('' @ s) (lit @ ''r('' @ s)"
| kept: "plain lit \<Longrightarrow> CHR '')'' \<notin> set arg \<Longrightarrow> scan_long (arg @ '')'' @ s) = None \<Longrightarrow>
    substituted s t \<Longrightarrow> substituted (lit @ ''r('' @ arg @ '')'' @ s) (lit @ ''r('' @ arg @ '')'' @ t)"
| placeholder: "plain lit \<Longrightarrow> CHR '')'' \<notin> set arg \<Longrightarrow> scan_long (arg @ '')'' @ s) = Some v \<Longrightarrow>
    digits_ok ds (nat (clamp_len v)) \<Longrightarrow> substituted s t \<Longrightarrow>
    substituted (lit @ ''r('' @ arg @ '')'' @ s) (lit @ ds @ t)"

lemma plain_Nil: "plain []"
  by (simp add: plain_def)

lemma plain_Cons: "plain (c # s) \<longleftrightarrow> plain s \<and> \<not> prefix ''r('' (c # s)"
  by (simp add: plain_def)

lemma substituted_Cons:
  assumes "substituted s t" "\<not> prefix ''r('' (c # s)"
  shows "substituted (c # s) (c # t)"
  using assms
proof (cases rule: substituted.cases)
  case literal
  then show ?thesis using assms by (auto intro!: substituted.literal simp: plain_Cons)
next
  case (unclosed lit u)
  then have "plain (c # lit)" using assms(2) by (cases lit) (auto simp: plain_Cons plain_Nil)
  from substituted.unclosed [OF this unclosed(4)] show ?thesis using unclosed by simp
next
  case (kept lit arg u w)
  then have "plain (c # lit)" using assms(2) by (cases lit) (auto simp: plain_Cons plain_Nil)
  from substituted.kept [OF this kept(4-6)] show ?thesis using kept by simp
next
  case (placeholder lit arg u v ds w)
  then have "plain (c # lit)" using assms(2) by (cases lit) (auto simp: plain_Cons plain_Nil)
  from substituted.placeholder [OF this placeholder(4-7)] show ?thesis using placeholder by simp
qed

lemma substituted_append:
  "substituted s t \<Longrightarrow> CHR ''r'' \<notin> set l \<Longrightarrow> substituted (l @ s) (l @ t)"
  by (induction l) (auto intro!: substituted_Cons)

text \<open>The search stops where fewer than four characters are left, which hold no placeholder.\<close>

lemma substituted_short:
  assumes "length s < 4"
  shows "substituted s s"
proof (cases "memmem ''r('' s")
  case None
  then show ?thesis by (auto intro: substituted.literal simp: plain_def)
next
  case (Some i)
  let ?l = "take i s" and ?u = "drop (i + 2) s"
  have split: "s = ?l @ ''r('' @ ?u" using first_match.hit_split [OF first_match_paren Some] by simp
  have len: "i + length ?u < 2"
    using assms first_match.hit_bound [OF first_match_paren Some] by simp
  have "plain l" if "length l < 2" for l
    using that by (cases l) (auto simp: plain_def)
  then have "plain ?l" using len by simp
  show ?thesis
  proof (cases "CHR '')'' \<in> set ?u")
    case False
    show ?thesis by (subst (1 2) split) (rule substituted.unclosed [OF \<open>plain ?l\<close> False])
  next
    case True
    moreover have "u = '')''" if "length u < 2" "CHR '')'' \<in> set u" for u
      using that by (cases u) auto
    ultimately have "?u = [] @ '')'' @ []" using len by simp
    moreover have "substituted (?l @ ''r('' @ [] @ '')'' @ []) (?l @ ''r('' @ [] @ '')'' @ [])"
      by (rule substituted.kept [OF \<open>plain ?l\<close>])
        (simp_all add: scan_long_def scan_unsigned_def is_space_def is_digit_def char_code_def
          substituted.literal plain_Nil)
    ultimately show ?thesis using split by simp
  qed
qed

lemma render_shift:
  "well_placed s (p + k) ces \<Longrightarrow>
    render rand_r seed s p ces = take k (drop p s) @ render rand_r seed s (p + k) ces"
proof (cases ces)
  case Nil
  then show ?thesis by (simp add: add.commute flip: drop_drop)
next
  case (Cons ce tl)
  moreover assume "well_placed s (p + k) ces"
  ultimately have "ph_start ce - p = k + (ph_start ce - (p + k))" by simp
  then have "take (ph_start ce - p) (drop p s) =
      take k (drop p s) @ take (ph_start ce - (p + k)) (drop (p + k) s)"
    by (simp add: take_add add.commute)
  then show ?thesis by (simp add: Cons render_Cons)
qed

text \<open>What the search adds to the array is what the specification replaces.\<close>

definition sub_ok :: "(seed \<Rightarrow> nat \<times> seed) \<Rightarrow> bytes \<Rightarrow> nat \<Rightarrow> cache \<Rightarrow> cache option res \<Rightarrow> bool" where
  "sub_ok rand_r s p c r \<longleftrightarrow>
     (\<forall>c'. r = Inr (Some c') \<longrightarrow>
        (\<exists>new. ents c' = ents c @ new \<and> well_placed s p new \<and>
           (\<forall>seed. substituted (drop p s) (render rand_r seed s p new))))"

lemma sub_ok_stop: "p \<le> length s \<Longrightarrow> substituted (drop p s) (drop p s) \<Longrightarrow> sub_ok rand_r s p c (Inr (Some c))"
  by (auto simp: sub_ok_def)

lemma sub_ok_earlier:
  assumes "sub_ok rand_r s (p + k) c r"
    and "\<And>t. substituted (drop (p + k) s) t \<Longrightarrow> substituted (drop p s) (take k (drop p s) @ t)"
  shows "sub_ok rand_r s p c r"
  unfolding sub_ok_def
proof (intro allI impI)
  fix c' assume "r = Inr (Some c')"
  then obtain new where new: "ents c' = ents c @ new" "well_placed s (p + k) new"
    "\<And>seed. substituted (drop (p + k) s) (render rand_r seed s (p + k) new)"
    using assms(1) by (auto simp: sub_ok_def)
  have "\<forall>seed. substituted (drop p s) (render rand_r seed s p new)"
    using assms(2) [OF new(3)] by (simp add: render_shift [OF new(2)])
  moreover have "well_placed s p new" using well_placed_mono [OF new(2)] by simp
  ultimately show "\<exists>new. ents c' = ents c @ new \<and> well_placed s p new \<and>
      (\<forall>seed. substituted (drop p s) (render rand_r seed s p new))"
    using new(1) by blast
qed

lemma find_skip:
  assumes "p < length s" "s ! p \<noteq> CHR ''r''"
  shows "find_placeholders mem s p c = find_placeholders mem s (p + 1) c"
proof -
  have "memchr CHR ''r'' (drop p s) = map_option Suc (memchr CHR ''r'' (drop (p + 1) s))"
    using assms drop_nth [of p s] by simp
  then show ?thesis
    by (subst (1 2) find_placeholders.simps) (auto split: option.split)
qed

text \<open>The cases of the search at an \<open>r(\<close>, by what follows it.\<close>

lemma sub_ok_unclosed:
  assumes "drop p s = ''r('' @ drop (p + 2) s" "CHR '')'' \<notin> set (drop (p + 2) s)"
    and "sub_ok rand_r s (p + 2) c r"
  shows "sub_ok rand_r s p c r"
  unfolding sub_ok_def
proof (intro allI impI)
  fix c' assume "r = Inr (Some c')"
  then obtain new where new: "ents c' = ents c @ new" "well_placed s (p + 2) new"
    using assms(3) by (auto simp: sub_ok_def)
  have "new = []"
  proof (cases new)
    case (Cons ce ces)
    then have "p + 2 \<le> ph_end ce" "ph_end ce < length s" "s ! ph_end ce = CHR '')''"
      using new(2) by auto
    then obtain k where "ph_end ce = p + 2 + k" "p + 2 + k < length s" "s ! (p + 2 + k) = CHR '')''"
      by (metis le_Suc_ex)
    then have "drop (p + 2) s ! k = CHR '')''" "k < length (drop (p + 2) s)"
      by simp_all
    then show ?thesis using assms(2) nth_mem by metis
  qed
  moreover have "substituted (drop p s) (drop p s)"
    using substituted.unclosed [OF plain_Nil assms(2)] by (simp add: assms(1))
  ultimately show "\<exists>new. ents c' = ents c @ new \<and> well_placed s p new \<and>
      (\<forall>seed. substituted (drop p s) (render rand_r seed s p new))"
    using new by auto
qed

lemma sub_ok_kept:
  assumes "drop p s = ''r('' @ arg @ '')'' @ drop q s" "CHR '')'' \<notin> set arg"
    and "scan_long (arg @ '')'' @ drop q s) = None" "q = p + (length arg + 3)"
    and "sub_ok rand_r s q c r"
  shows "sub_ok rand_r s p c r"
  using assms(5) unfolding assms(4)
proof (rule sub_ok_earlier)
  fix t assume "substituted (drop (p + (length arg + 3)) s) t"
  from substituted.kept [OF plain_Nil assms(2,3), unfolded assms(4), OF this]
  show "substituted (drop p s) (take (length arg + 3) (drop p s) @ t)"
    using assms(1) by (simp add: assms(4) numeral_3_eq_3)
qed

lemma sub_ok_placeholder:
  assumes "drop p s = ''r('' @ arg @ '')'' @ drop q s" "CHR '')'' \<notin> set arg"
    and "scan_long (arg @ '')'' @ drop q s) = Some v" "q = p + (length arg + 3)"
    and "sub_ok rand_r s q c1 r" "q \<le> length s"
    and "ents c1 = ents c @ [\<lparr>ph_start = p, ph_end = p + 2 + length arg, ph_value = clamp_len v\<rparr>]"
  shows "sub_ok rand_r s p c r"
  unfolding sub_ok_def
proof (intro allI impI)
  let ?e = "\<lparr>ph_start = p, ph_end = p + 2 + length arg, ph_value = clamp_len v\<rparr>"
  have q: "q = ph_end ?e + 1" by (simp add: assms(4))
  fix c' assume "r = Inr (Some c')"
  then obtain new where new: "ents c' = ents c1 @ new" "well_placed s q new"
    "\<And>seed. substituted (drop q s) (render rand_r seed s q new)"
    using assms(5) by (auto simp: sub_ok_def)
  have "s ! p = CHR ''r''" "s ! (p + 1) = CHR ''(''" "s ! (p + 2 + length arg) = CHR '')''"
    using drop_eq_nth [of p s "[]"] drop_eq_nth [of p s "''r''"] drop_eq_nth [of p s "''r('' @ arg"] assms(1)
    by (simp_all add: add.assoc)
  moreover have rest: "drop (p + 2) s = arg @ '')'' @ drop q s"
    using drop_eq_shift [of p s "''r(''"] assms(1) by simp
  ultimately have "well_placed s p (?e # new)"
    using assms(2,3,6) new(2) unfolding q by (simp add: rand_lens rest [unfolded q])
  moreover have "substituted (drop p s) (render rand_r seed s p (?e # new))" for seed
    using substituted.placeholder [OF plain_Nil assms(2,3) gen_digits_ok new(3)]
    unfolding assms(1) render_Cons q by simp
  ultimately show "\<exists>new. ents c' = ents c @ new \<and> well_placed s p new \<and>
      (\<forall>seed. substituted (drop p s) (render rand_r seed s p new))"
    using new(1) assms(7) by (intro exI [of _ "?e # new"]) simp
qed

lemma find_substituted:
  "cache_inv c \<Longrightarrow> p \<le> length s \<Longrightarrow> sub_ok rand_r s p c (find_placeholders mem s p c)"
proof (induction "length s - p" arbitrary: p c rule: less_induct)
  case less
  note IH = less.hyps [OF diff_less_mono2]
  show ?case
  proof (cases "memchr CHR ''r'' (drop p s)")
    case None
    then have "substituted (drop p s) (drop p s)"
      using substituted_append [OF substituted.literal [OF plain_Nil], of "drop p s"]
      by (simp add: memchr_None_iff)
    then show ?thesis using less.prems by (auto simp: find_none [OF None] intro: sub_ok_stop)
  next
    case d: (Some d)
    have r: "s ! (p + d) = CHR ''r''" "p + d < length s" "CHR ''r'' \<notin> set (take d (drop p s))"
      using memchr_Some_nth [OF d] less.prems by auto
    have "drop p s = take d (drop p s) @ drop (p + d) s"
      by (metis add.commute append_take_drop_id drop_drop)
    then have lift: "sub_ok rand_r s p c x" if "sub_ok rand_r s (p + d) c x" for x
      using that r(3) by (metis sub_ok_earlier substituted_append)
    have short: "sub_ok rand_r s q c (Inr (Some c))" if "length s < q + 4" "q \<le> length s" for q
      using that by (intro sub_ok_stop substituted_short) simp_all
    show ?thesis
    proof (cases "p + d + 4 \<le> length s")
      case False
      then show ?thesis using short [of "p + d"] r(2) by (intro lift) (simp add: find_short [OF d])
    next
      case long: True
      show ?thesis
      proof (cases "s ! (p + d + 1) = CHR ''(''")
        case False
        have cons: "drop (p + d) s = CHR ''r'' # drop (p + d + 1) s"
          "drop (p + d + 1) s = s ! (p + d + 1) # drop (p + d + 2) s"
          using drop_nth [of "p + d" s] drop_nth [of "p + d + 1" s] r(1) long by simp_all
        then have "\<not> prefix ''r('' (CHR ''r'' # drop (p + d + 1) s)" using False by simp
        from substituted_Cons [OF _ this]
        have step: "substituted (drop (p + d) s) (take 1 (drop (p + d) s) @ t)"
          if "substituted (drop (p + d + 1) s) t" for t
          using that by (simp add: cons(1))
        have "sub_ok rand_r s (p + d + 1) c (find_placeholders mem s p c)"
          using short [of "p + d + 1"] IH [of "p + d + 1" c] less.prems long
          by (simp add: find_no_paren [OF d long False])
        then have "sub_ok rand_r s (p + d) c (find_placeholders mem s p c)"
          by (rule sub_ok_earlier) (rule step)
        then show ?thesis by (rule lift)
      next
        case paren: True
        have open': "drop (p + d) s = ''r('' @ drop (p + d + 2) s"
          using drop_nth2 [of "p + d" s] r(1) paren long by simp
        show ?thesis
        proof (cases "memchr CHR '')'' (drop (p + d + 2) s)")
          case None
          have "sub_ok rand_r s (p + d + 2) c (find_placeholders mem s p c)"
            using short [of "p + d + 2"] IH [of "p + d + 2" c] less.prems long
            by (simp add: find_no_close [OF d long paren None])
          with open' None [unfolded memchr_None_iff] have
            "sub_ok rand_r s (p + d) c (find_placeholders mem s p c)"
            by (rule sub_ok_unclosed)
          then show ?thesis by (rule lift)
        next
          case e: (Some e)
          let ?arg = "take e (drop (p + d + 2) s)" and ?q = "p + d + (e + 3)"
          have close: "p + d + 2 + e < length s" "s ! (p + d + 2 + e) = CHR '')''"
            "CHR '')'' \<notin> set ?arg" "length ?arg = e"
            using memchr_Some_nth [OF e] by (auto simp: add.assoc)
          have q: "?q = p + d + (length ?arg + 3)" "?q \<le> length s" using close by simp_all
          have arg: "drop (p + d + 2) s = ?arg @ '')'' @ drop ?q s"
            using memchr.hit_split [OF e] by (simp add: add.assoc add.commute numeral_3_eq_3)
          have at: "drop (p + d) s = ''r('' @ ?arg @ '')'' @ drop ?q s"
            using open' by (rule trans) (rule arg_cong [OF arg, where f = "\<lambda>x. ''r('' @ x"])
          have skip: "find_placeholders mem s (p + d + 2 + e) x = find_placeholders mem s ?q x" for x
            using find_skip [OF close(1)] close(2) by (simp add: add.assoc numeral_3_eq_3)
          have IH': "cache_inv x \<Longrightarrow> sub_ok rand_r s ?q x (find_placeholders mem s ?q x)" for x
            using less.prems close(1) by (intro IH) auto
          show ?thesis
          proof (cases "scan_long (drop (p + d + 2) s)")
            case None
            have "sub_ok rand_r s (p + d) c (find_placeholders mem s ?q c)"
              by (rule sub_ok_kept [OF at close(3) _ q(1) IH' [OF less.prems(1)]])
                (simp only: None flip: arg)
            then show ?thesis
              by (intro lift) (simp only: find_no_number [OF d long paren e None] skip)
          next
            case (Some v)
            let ?e = "\<lparr>ph_start = p + d, ph_end = p + d + 2 + e, ph_value = clamp_len v\<rparr>"
            note find = find_number [OF d long paren e Some, of mem c]
            from less.prems(1) show ?thesis
            proof (cases rule: cache_add_ok [of c mem ?e])
              case full
              then show ?thesis by (simp add: find sub_ok_def)
            next
              case (ok c1)
              have "sub_ok rand_r s (p + d) c (find_placeholders mem s ?q c1)"
                by (rule sub_ok_placeholder [OF at close(3) _ q(1) IH' [OF ok(3)] q(2)])
                  (simp_all only: Some ok(2) close(4) flip: arg)
              then show ?thesis
                by (intro lift) (simp only: find ok(1) sum.case option.case skip)
            qed
          qed
        qed
      qed
    qed
  qed
qed

section \<open>Properties\<close>

text \<open>
  C4. \<open>replace\<close> never writes outside its array of placeholders, never reads outside the text
  (what \<open>sscanf\<close> looks at apart, see above), and fills the output buffer exactly; when no
  \<open>realloc\<close> fails it returns a text.
\<close>

theorem replace_safe:
  "\<exists>r. replace mem rand_r seed s = Inr r \<and> (r \<noteq> None \<or> (\<exists>n. \<not> mem n))"
  by (cases rule: replace_cases [of mem rand_r seed s]) auto

theorem replace_safe_witness:
  "\<exists>r. replace (\<lambda>n. n < 1000) (\<lambda>s. (3, s)) 0 ''ar(1)r(2)'' = Inr r
    \<and> (r \<noteq> None \<or> (\<exists>n. \<not> n < (1000::nat)))"
  by (rule replace_safe)

text \<open>
  C17. Whatever the text and the random numbers, \<open>replace_rand\<close> replaces every placeholder of
  the text, and nothing else: the result is one of the texts the specification allows, which
  leaves only the choice of the digits open. Only when \<open>realloc\<close> fails may the text come back
  unchanged.
\<close>

theorem replace_rand_substituted:
  "\<exists>out. replace_rand mem rand_r seed s = Inr out \<and>
    (substituted s out \<or> out = s \<and> (\<exists>n. \<not> mem n))"
proof (cases rule: replace_cases [of mem rand_r seed s])
  case null
  then show ?thesis by (simp add: replace_rand_def)
next
  case (found c)
  have "substituted s (render rand_r seed s 0 (ents c))"
    using find_substituted [OF cache_inv_empty, where p = 0 and s = s and rand_r = rand_r and mem = mem] found(2)
    by (auto simp: sub_ok_def cache_empty_def)
  then show ?thesis
    using found(3) by (cases "ents c = []") (auto simp: replace_rand_def)
qed

theorem replace_rand_substituted_witness:
  "\<exists>out. replace_rand (\<lambda>_. True) (\<lambda>s. (unat s, s + 1)) 7 ''ar(2)r(x)'' = Inr out \<and>
    substituted ''ar(2)r(x)'' out"
  using replace_rand_substituted [of "\<lambda>_. True" "\<lambda>s. (unat s, s + 1)" 7 "''ar(2)r(x)''"] by simp

text \<open>
  C16. On a text of literals without \<open>r(\<close> and placeholders \<open>r(n)\<close>, every placeholder is
  replaced by exactly \<open>min n 64\<close> digits and every literal is kept; the flag says whether
  there was a placeholder.
\<close>

theorem replace_template:
  assumes "wf_template xs tl_lit" and "\<forall>n. mem n"
  shows "\<exists>out. replace mem rand_r seed (template xs tl_lit) = Inr (Some (out, xs \<noteq> []))
    \<and> generated xs tl_lit out"
proof (cases rule: replace_cases [of mem rand_r seed "template xs tl_lit"])
  case null
  then show ?thesis using assms(2) by simp
next
  case (found c)
  obtain c' where "find_placeholders mem (template xs tl_lit) 0 cache_empty = Inr (Some c')"
    "ents c' = positions 0 [] xs"
    using find_template [of 0 "template xs tl_lit" "[]" xs tl_lit cache_empty mem] assms
      cache_inv_empty by (auto simp: cache_empty_def)
  then have "ents c = positions 0 [] xs" using found(2) by simp
  moreover have "positions 0 [] xs = [] \<longleftrightarrow> xs = []" by (cases xs) auto
  ultimately show ?thesis
    using found(3) render_template [of 0 "[]" "template xs tl_lit" xs tl_lit rand_r seed] by auto
qed

theorem replace_template_witness:
  "\<exists>out. replace (\<lambda>_. True) (\<lambda>s. (unat s, s + 1)) 7 ''br(4)c'' = Inr (Some (out, True))
    \<and> generated [(''b'', 4)] ''c'' out"
proof -
  have "wf_template [(''b'', 4)] ''c''" by (simp add: wf_template_def plain_def)
  moreover have "dec 4 = ''4''" by code_simp
  ultimately show ?thesis
    using replace_template [of "[(''b'', 4)]" "''c''" "\<lambda>_. True" "\<lambda>s. (unat s, s + 1)" 7] by simp
qed

end
