(* ===== verification/Templates.thy ===== *)
theory Templates
  imports Prelude
begin

text \<open>
  src/f_process_templates.c: \<open>replace_placeholders\<close> replaces \<open>{{vars.name}}\<close> by the member
  \<open>name\<close> of a jsonb object, and \<open>process_templates\<close> applies it to a text or to every
  element of a text array. The jsonb object is a finite map from names to values; the
  text of a number is the parameter \<open>numeric_out\<close> (a PostgreSQL function).
\<close>

section \<open>Model\<close>

datatype 'n jsonb_value =
  JbvNull | JbvString bytes | JbvNumeric 'n | JbvBool bool | JbvContainer

datatype 'n jsonb = JsonObject "bytes \<Rightarrow> 'n jsonb_value option" | JsonNonObject

datatype parser_state = ST_NORMAL | ST_PLACEHOLDER

definition placeholder_prefix :: bytes where
  "placeholder_prefix = ''vars.''"

text \<open>The inner switch: what a value appends to the buffer.\<close>

fun serialize :: "('n \<Rightarrow> bytes) \<Rightarrow> 'n jsonb_value \<Rightarrow> bytes" where
  "serialize numeric_out JbvNull = []"
| "serialize numeric_out (JbvString s) = s"
| "serialize numeric_out (JbvNumeric n) = numeric_out n"
| "serialize numeric_out (JbvBool b) = (if b then ''true'' else ''false'')"
| "serialize numeric_out JbvContainer = []"

text \<open>
  The loop \<open>while(tpl_ptr < tpl_end)\<close>: \<open>tpl\<close> is the text from \<open>tpl_ptr\<close> on, \<open>out\<close> the string
  buffer.
\<close>

function template_loop ::
  "('n \<Rightarrow> bytes) \<Rightarrow> (bytes \<Rightarrow> 'n jsonb_value option) \<Rightarrow> parser_state \<Rightarrow> bytes \<Rightarrow> bytes \<Rightarrow> bytes" where
  "template_loop numeric_out vars st tpl out =
     (if tpl = [] then out
      else case st of
        ST_NORMAL \<Rightarrow>
          (case memmem ''{{'' tpl of
             None \<Rightarrow> template_loop numeric_out vars ST_NORMAL [] (out @ tpl)
           | Some i \<Rightarrow>
               template_loop numeric_out vars ST_PLACEHOLDER (drop (i + 2) tpl) (out @ take i tpl))
      | ST_PLACEHOLDER \<Rightarrow>
          (case memmem ''}}'' tpl of
             None \<Rightarrow> template_loop numeric_out vars ST_PLACEHOLDER [] (out @ tpl)
           | Some i \<Rightarrow>
               if i \<le> length placeholder_prefix
                  \<or> take (length placeholder_prefix) tpl \<noteq> placeholder_prefix
               then template_loop numeric_out vars ST_NORMAL (drop (i + 2) tpl) out
               else
                 (case vars (take (i - length placeholder_prefix)
                                  (drop (length placeholder_prefix) tpl)) of
                    None \<Rightarrow> template_loop numeric_out vars ST_NORMAL (drop (i + 2) tpl) out
                  | Some v \<Rightarrow> template_loop numeric_out vars ST_NORMAL (drop (i + 2) tpl)
                                (out @ serialize numeric_out v))))"
  by pat_completeness auto
termination
  by (relation "measure (\<lambda>(num, vars, st, tpl, out). length tpl)") auto

declare template_loop.simps [simp del]

definition replace_placeholders ::
  "('n \<Rightarrow> bytes) \<Rightarrow> (bytes \<Rightarrow> 'n jsonb_value option) \<Rightarrow> bytes \<Rightarrow> bytes" where
  "replace_placeholders numeric_out vars tpl = template_loop numeric_out vars ST_NORMAL tpl []"

text \<open>
  The SQL function: the type of the first argument decides between text and text array.
\<close>

datatype tpl_arg = TextArray "bytes option list" | TextScalar bytes | OtherType

datatype tpl_result = RNull | RText bytes | RArray "bytes option list"

text \<open>The loop over the array with the array build state \<open>acc\<close>.\<close>

fun process_array ::
  "('n \<Rightarrow> bytes) \<Rightarrow> (bytes \<Rightarrow> 'n jsonb_value option) \<Rightarrow> bytes option list \<Rightarrow> bytes option list
     \<Rightarrow> bytes option list" where
  "process_array numeric_out vars acc [] = acc"
| "process_array numeric_out vars acc (None # ts) =
     process_array numeric_out vars (acc @ [None]) ts"
| "process_array numeric_out vars acc (Some t # ts) =
     process_array numeric_out vars (acc @ [Some (replace_placeholders numeric_out vars t)]) ts"

definition process_templates ::
  "('n \<Rightarrow> bytes) \<Rightarrow> tpl_arg option \<Rightarrow> 'n jsonb option \<Rightarrow> tpl_result" where
  "process_templates numeric_out templates vars_arg =
     (case templates of
        None \<Rightarrow> RNull
      | Some OtherType \<Rightarrow> RNull
      | Some (TextArray ts) \<Rightarrow>
          (case vars_arg of
             Some (JsonObject vars) \<Rightarrow>
               RArray (process_array numeric_out vars [] ts)
           | _ \<Rightarrow> RArray ts)
      | Some (TextScalar t) \<Rightarrow>
          (case vars_arg of
             Some (JsonObject vars) \<Rightarrow> RText (replace_placeholders numeric_out vars t)
           | _ \<Rightarrow> RNull))"

section \<open>The loop with its buffer\<close>

lemma loop_Nil [simp]: "template_loop num vars st [] out = out"
  by (subst template_loop.simps) simp

text \<open>What a placeholder with this text between the brackets stands for.\<close>

definition value_of :: "('n \<Rightarrow> bytes) \<Rightarrow> (bytes \<Rightarrow> 'n jsonb_value option) \<Rightarrow> bytes \<Rightarrow> bytes" where
  "value_of numeric_out vars name =
     (if prefix ''vars.'' name \<and> 5 < length name
      then (case vars (drop 5 name) of None \<Rightarrow> [] | Some v \<Rightarrow> serialize numeric_out v)
      else [])"

lemma normal_none: "memmem ''{{'' tpl = None \<Longrightarrow> template_loop num vars ST_NORMAL tpl out = out @ tpl"
  by (subst template_loop.simps) simp

lemma placeholder_none:
  "memmem ''}}'' tpl = None \<Longrightarrow> template_loop num vars ST_PLACEHOLDER tpl out = out @ tpl"
  by (subst template_loop.simps) simp

lemma normal_some:
  "memmem ''{{'' tpl = Some i \<Longrightarrow> template_loop num vars ST_NORMAL tpl out =
    template_loop num vars ST_PLACEHOLDER (drop (i + 2) tpl) (out @ take i tpl)"
  by (subst template_loop.simps) auto

lemma take5_prefix: "5 < i \<Longrightarrow> take 5 tpl = ''vars.'' \<longleftrightarrow> prefix ''vars.'' (take i tpl)"
proof
  assume i: "5 < i" and "prefix ''vars.'' (take i tpl)"
  then obtain zs where "take i tpl = ''vars.'' @ zs" by (auto simp: prefix_def)
  then have "take 5 (take i tpl) = ''vars.''" by simp
  with i show "take 5 tpl = ''vars.''" by (simp add: min_def)
next
  assume i: "5 < i" and "take 5 tpl = ''vars.''"
  then have "take i tpl = ''vars.'' @ take (i - 5) (drop 5 tpl)"
    by (metis add_diff_inverse_nat less_imp_not_less take_add)
  then show "prefix ''vars.'' (take i tpl)" by (metis prefix_def)
qed

lemma prefix_length_5: "length placeholder_prefix = 5"
  by (simp add: placeholder_prefix_def)

lemma placeholder_step:
  assumes "memmem ''}}'' tpl = Some i"
  shows "template_loop num vars ST_PLACEHOLDER tpl out =
    (if i \<le> 5 \<or> take 5 tpl \<noteq> ''vars.'' then template_loop num vars ST_NORMAL (drop (i + 2) tpl) out
     else (case vars (take (i - 5) (drop 5 tpl)) of
        None \<Rightarrow> template_loop num vars ST_NORMAL (drop (i + 2) tpl) out
      | Some v \<Rightarrow> template_loop num vars ST_NORMAL (drop (i + 2) tpl) (out @ serialize num v)))"
proof -
  have "tpl \<noteq> []" using assms by auto
  then show ?thesis
    by (subst template_loop.simps)
      (simp only: assms prefix_length_5 parser_state.case option.case if_False,
       simp only: placeholder_prefix_def)
qed

lemma placeholder_some:
  assumes "memmem ''}}'' tpl = Some i"
  shows "template_loop num vars ST_PLACEHOLDER tpl out =
    template_loop num vars ST_NORMAL (drop (i + 2) tpl) (out @ value_of num vars (take i tpl))"
proof -
  have "i \<le> length tpl" using memmem2.hit_bound [OF assms] by simp
  then show ?thesis
    using take5_prefix [of i tpl]
    by (simp only: placeholder_step [OF assms])
      (auto simp: value_of_def drop_take split: option.split)
qed

text \<open>The buffer is only appended to.\<close>

lemma loop_out: "template_loop num vars st tpl out = out @ template_loop num vars st tpl []"
proof (induction "length tpl" arbitrary: st tpl out rule: less_induct)
  case less
  show ?case
  proof (cases st)
    case ST_NORMAL
    show ?thesis
    proof (cases "memmem ''{{'' tpl")
      case (Some i)
      note IH = less.hyps [OF memmem2.rest_shorter [OF Some], simplified]
      show ?thesis
        using IH [of ST_PLACEHOLDER "out @ take i tpl"] IH [of ST_PLACEHOLDER "take i tpl"]
        by (simp add: ST_NORMAL normal_some [OF Some])
    qed (simp add: ST_NORMAL normal_none)
  next
    case ST_PLACEHOLDER
    show ?thesis
    proof (cases "memmem ''}}'' tpl")
      case (Some i)
      let ?v = "value_of num vars (take i tpl)"
      note IH = less.hyps [OF memmem2.rest_shorter [OF Some], simplified]
      show ?thesis
        using IH [of ST_NORMAL "out @ ?v"] IH [of ST_NORMAL ?v]
        by (simp add: ST_PLACEHOLDER placeholder_some [OF Some])
    qed (simp add: ST_PLACEHOLDER placeholder_none)
  qed
qed

section \<open>The template language\<close>

text \<open>
  A template is a list of literals, each followed by a placeholder name, and an ending: a last
  literal, or a literal with an opening bracket that is never closed. The conditions say
  that \<open>{{\<close> starts nowhere earlier than the bracket that ends the literal, and likewise
  for \<open>}}\<close> and the name.
\<close>

datatype ending = Closed bytes | Open bytes bytes

definition literal_ok :: "bytes \<Rightarrow> bool" where
  "literal_ok l \<longleftrightarrow> memmem ''{{'' (l @ ''{{'') = Some (length l)"

definition name_ok :: "bytes \<Rightarrow> bool" where
  "name_ok n \<longleftrightarrow> memmem ''}}'' (n @ ''}}'') = Some (length n)"

fun ending_ok :: "ending \<Rightarrow> bool" where
  "ending_ok (Closed l) \<longleftrightarrow> memmem ''{{'' l = None"
| "ending_ok (Open l n) \<longleftrightarrow> literal_ok l \<and> memmem ''}}'' n = None"

fun segments_ok :: "(bytes \<times> bytes) list \<Rightarrow> bool" where
  "segments_ok [] \<longleftrightarrow> True"
| "segments_ok ((l, n) # xs) \<longleftrightarrow> literal_ok l \<and> name_ok n \<and> segments_ok xs"

fun unparse :: "(bytes \<times> bytes) list \<Rightarrow> ending \<Rightarrow> bytes" where
  "unparse [] (Closed l) = l"
| "unparse [] (Open l n) = l @ ''{{'' @ n"
| "unparse ((l, n) # xs) e = l @ ''{{'' @ n @ ''}}'' @ unparse xs e"

fun expand :: "(bytes \<Rightarrow> bytes) \<Rightarrow> (bytes \<times> bytes) list \<Rightarrow> ending \<Rightarrow> bytes" where
  "expand val [] (Closed l) = l"
| "expand val [] (Open l n) = l @ n"
| "expand val ((l, n) # xs) e = l @ val n @ expand val xs e"

lemma literal_found: "literal_ok l \<Longrightarrow> memmem ''{{'' (l @ ''{{'' @ t) = Some (length l)"
  unfolding literal_ok_def by (rule memmem2.find_append)

lemma name_found: "name_ok n \<Longrightarrow> memmem ''}}'' (n @ ''}}'' @ t) = Some (length n)"
  unfolding name_ok_def by (rule memmem2.find_append)

lemma loop_literal:
  "literal_ok l \<Longrightarrow> template_loop num vars ST_NORMAL (l @ ''{{'' @ t) [] =
    l @ template_loop num vars ST_PLACEHOLDER t []"
  using normal_some [OF literal_found [of l t], of num vars "[]"]
    loop_out [of num vars ST_PLACEHOLDER t l] by simp

lemma loop_name:
  "name_ok n \<Longrightarrow> template_loop num vars ST_PLACEHOLDER (n @ ''}}'' @ t) [] =
    value_of num vars n @ template_loop num vars ST_NORMAL t []"
  using placeholder_some [OF name_found [of n t], of num vars "[]"]
    loop_out [of num vars ST_NORMAL t "value_of num vars n"] by simp

lemma loop_expand:
  "segments_ok xs \<Longrightarrow> ending_ok e \<Longrightarrow>
    template_loop num vars ST_NORMAL (unparse xs e) [] = expand (value_of num vars) xs e"
proof (induction xs)
  case Nil
  then show ?case
    by (cases e) (auto simp: normal_none placeholder_none loop_literal [unfolded append.simps])
next
  case (Cons x xs)
  obtain l n where x: "x = (l, n)" by (cases x)
  with Cons have "literal_ok l" and n: "name_ok n" by auto
  from loop_literal [OF this(1), of num vars "n @ ''}}'' @ unparse xs e"] show ?case
    using Cons by (simp only: x unparse.simps expand.simps loop_name [OF n] segments_ok.simps)
qed

text \<open>Every text is a template.\<close>

lemma text_is_template: "\<exists>xs e. segments_ok xs \<and> ending_ok e \<and> t = unparse xs e"
proof (induction "length t" arbitrary: t rule: less_induct)
  case less
  show ?case
  proof (cases "memmem ''{{'' t")
    case None
    then show ?thesis by (intro exI [of _ "[]"] exI [of _ "Closed t"]) simp
  next
    case (Some i)
    let ?l = "take i t" and ?r = "drop (i + 2) t"
    have l: "literal_ok ?l" unfolding literal_ok_def by (rule memmem2.find_take [OF Some])
    have t: "t = ?l @ ''{{'' @ ?r" using memmem2.hit_split [OF Some] by simp
    show ?thesis
    proof (cases "memmem ''}}'' ?r")
      case None
      then show ?thesis using l t
        by (intro exI [of _ "[]"] exI [of _ "Open ?l ?r"]) simp
    next
      case (Some k)
      let ?n = "take k ?r" and ?q = "drop (k + 2) ?r"
      have n: "name_ok ?n" unfolding name_ok_def by (rule memmem2.find_take [OF Some])
      have r: "?r = ?n @ ''}}'' @ ?q" using memmem2.hit_split [OF Some] by simp
      have "length ?q < length t"
        using memmem2.rest_shorter [OF Some] by simp
      then obtain xs e where "segments_ok xs" "ending_ok e" "?q = unparse xs e"
        using less by blast
      then show ?thesis
        using l n t r by (intro exI [of _ "(?l, ?n) # xs"] exI [of _ e]) (metis segments_ok.simps(2) unparse.simps(3) append_assoc)
    qed
  qed
qed

lemma process_array_eq:
  "process_array num vars acc ts = acc @ map (map_option (replace_placeholders num vars)) ts"
  by (induction num vars acc ts rule: process_array.induct) auto

section \<open>Properties\<close>

text \<open>
  C18. The scanner of \<open>replace_placeholders\<close> computes the meaning of the template language:
  literals are kept, \<open>{{vars.k}}\<close> becomes the value of member \<open>k\<close> (not expanded again), any
  other \<open>{{...}}\<close> disappears, and an opening bracket without a closing one is dropped.
\<close>

theorem replace_placeholders_expand:
  assumes "segments_ok xs" and "ending_ok e"
  shows "replace_placeholders numeric_out vars (unparse xs e) =
    expand (value_of numeric_out vars) xs e"
  unfolding replace_placeholders_def by (rule loop_expand [OF assms])

theorem replace_placeholders_expand_witness:
  "replace_placeholders (\<lambda>n::nat. ''42'') [''w'' \<mapsto> JbvNumeric 42] ''}}q{{vars.w}}e{{nx}}{{'' =
     ''}}q42e''"
  using replace_placeholders_expand [of "[(''}}q'', ''vars.w''), (''e'', ''nx'')]" "Open [] []"
      "\<lambda>n::nat. ''42''" "[''w'' \<mapsto> JbvNumeric 42]"]
  by (simp add: literal_ok_def name_ok_def value_of_def)

text \<open>
  C19. The language covers every input: each text has such a reading, so the meaning of
  the template language determines \<open>replace_placeholders\<close> on all texts; a text without \<open>{{\<close> is returned unchanged.
\<close>

theorem replace_placeholders_total:
  "(\<exists>xs e. segments_ok xs \<and> ending_ok e \<and> t = unparse xs e \<and>
      replace_placeholders numeric_out vars t = expand (value_of numeric_out vars) xs e) \<and>
   (memmem ''{{'' u = None \<longrightarrow> replace_placeholders numeric_out vars u = u)"
proof
  obtain xs e where "segments_ok xs" "ending_ok e" "t = unparse xs e"
    using text_is_template by blast
  then show "\<exists>xs e. segments_ok xs \<and> ending_ok e \<and> t = unparse xs e \<and>
      replace_placeholders numeric_out vars t = expand (value_of numeric_out vars) xs e"
    unfolding replace_placeholders_def using loop_expand by blast
  show "memmem ''{{'' u = None \<longrightarrow> replace_placeholders numeric_out vars u = u"
    by (simp add: replace_placeholders_def normal_none)
qed

theorem replace_placeholders_total_witness:
  "replace_placeholders (\<lambda>_::nat. []) (\<lambda>_. None) ''plain'' = ''plain''"
  using replace_placeholders_total [THEN conjunct2, of "''plain''" "\<lambda>_::nat. []" "\<lambda>_. None"]
  by simp

text \<open>
  \<open>process_templates\<close>: on an array with a jsonb object every element is expanded on its
  own and NULL elements and the length are kept; without an object an array comes back
  unchanged while a text gives NULL; a NULL template gives NULL.
\<close>

lemma process_templates_branches:
  "(\<exists>rs. process_templates num (Some (TextArray ts)) (Some (JsonObject vars)) = RArray rs \<and>
      length rs = length ts \<and>
      list_all2 (\<lambda>r t. r = map_option (replace_placeholders num vars) t) rs ts) \<and>
   process_templates num (Some (TextScalar t)) (Some (JsonObject vars)) =
     RText (replace_placeholders num vars t) \<and>
   process_templates num (Some (TextArray ts)) None = RArray ts \<and>
   process_templates num (Some (TextArray ts)) (Some JsonNonObject) = RArray ts \<and>
   process_templates num (Some (TextScalar t)) None = RNull \<and>
   process_templates num (Some (TextScalar t)) (Some JsonNonObject) = RNull \<and>
   process_templates num None vars_arg = RNull \<and>
   process_templates num (Some OtherType) vars_arg = RNull"
  by (auto simp: process_templates_def process_array_eq list_all2_conv_all_nth)

end
