(* ===== verification/Regexp_Replace.thy ===== *)
theory Regexp_Replace
  imports Replace_Rand Templates
begin

text \<open>
  src/f_regexp_replace_rand.c: the three SQL functions \<open>regexp_replace_rand\<close>. A rule
  \<open>r1||r2||...\<close> and a result \<open>q1||q2||...\<close> are tried in parallel: the first \<open>ri\<close> that matches
  the input is applied with \<open>qi\<close>. The functions pass their pieces to PostgreSQL by
  overwriting the argument slots of \<open>fcinfo\<close>, so \<open>fcinfo\<close> is explicit state here.
  The regular expression engine, the clock's seed, \<open>rand_r\<close>, \<open>realloc\<close> and \<open>numeric_out\<close>
  are parameters.
\<close>

section \<open>Splitting at ||\<close>

function search_split_token :: "bytes \<Rightarrow> nat option" where
  "search_split_token s =
     (case memchr CHR ''|'' s of
        None \<Rightarrow> None
      | Some d \<Rightarrow>
          if d + 2 > length s then None
          else if s ! (d + 1) = CHR ''|'' then Some d
          else if d + 2 < length s
               then map_option (\<lambda>k. d + 2 + k) (search_split_token (drop (d + 2) s))
               else None)"
  by pat_completeness auto
termination by (relation "measure length") auto

declare search_split_token.simps [simp del]

lemma prefix_bars: "prefix ''||'' (drop j s) \<longleftrightarrow> j + 1 < length s \<and> s ! j = CHR ''|'' \<and> s ! (j + 1) = CHR ''|''"
proof
  assume "prefix ''||'' (drop j s)"
  then obtain zs where z: "drop j s = ''||'' @ zs" by (auto simp: prefix_def)
  then have "length (drop j s) = 2 + length zs" by simp
  then have "j + 1 < length s" unfolding length_drop by linarith
  with z show "j + 1 < length s \<and> s ! j = CHR ''|'' \<and> s ! (j + 1) = CHR ''|''"
    using drop_nth2 [of j s] by simp
next
  assume "j + 1 < length s \<and> s ! j = CHR ''|'' \<and> s ! (j + 1) = CHR ''|''"
  then have "drop j s = ''||'' @ drop (j + 2) s" using drop_nth2 [of j s] by simp
  then show "prefix ''||'' (drop j s)" by (metis prefix_def)
qed

text \<open>
  The skip \<open>p += 2\<close> never jumps over a token: the second skipped byte is not a bar.
\<close>

lemma split_token_first:
  "(case search_split_token s of
      None \<Rightarrow> \<forall>j. \<not> prefix ''||'' (drop j s)
    | Some i \<Rightarrow> prefix ''||'' (drop i s) \<and> (\<forall>j < i. \<not> prefix ''||'' (drop j s)))"
proof (induction s rule: search_split_token.induct)
  case (1 s)
  show ?case
  proof (cases "memchr CHR ''|'' s")
    case None
    then have "s ! j \<noteq> CHR ''|''" if "j < length s" for j
      using that by (metis memchr_None_iff nth_mem)
    then show ?thesis
      using None by (subst search_split_token.simps) (auto simp: prefix_bars)
  next
    case (Some d)
    have d: "d < length s" "s ! d = CHR ''|''" and before: "\<And>j. j < d \<Longrightarrow> s ! j \<noteq> CHR ''|''"
      using memchr_Some_nth [OF Some] by (auto simp: in_set_conv_nth)
    consider (short) "d + 2 > length s" | (hit) "d + 2 \<le> length s" "s ! (d + 1) = CHR ''|''"
      | (skip) "d + 2 \<le> length s" "s ! (d + 1) \<noteq> CHR ''|''" by linarith
    then show ?thesis
    proof cases
      case short
      then show ?thesis
        using Some before by (subst search_split_token.simps) (auto simp: prefix_bars not_less_eq)
    next
      case hit
      then show ?thesis
        using Some before d by (subst search_split_token.simps) (auto simp: prefix_bars)
    next
      case skip
      let ?t = "drop (d + 2) s"
      have no: "\<not> prefix ''||'' (drop j s)" if "j < d + 2" for j
      proof -
        have "j < d \<or> j = d \<or> j = d + 1" using that by linarith
        then show ?thesis using before skip(2) by (auto simp: prefix_bars)
      qed
      have shift: "prefix ''||'' (drop j s) \<longleftrightarrow> prefix ''||'' (drop (j - (d + 2)) ?t)" if "d + 2 \<le> j" for j
        using that by (simp only: drop_drop le_add_diff_inverse2)
      have IH: "case search_split_token ?t of
          None \<Rightarrow> \<forall>j. \<not> prefix ''||'' (drop j ?t)
        | Some i \<Rightarrow> prefix ''||'' (drop i ?t) \<and> (\<forall>j < i. \<not> prefix ''||'' (drop j ?t))"
        if "d + 2 < length s"
        using "1.IH" [OF Some _ skip(2) that] skip(1) by simp
      have eq: "search_split_token s = (if d + 2 < length s
          then map_option (\<lambda>k. d + 2 + k) (search_split_token ?t) else None)"
        using Some skip by (subst search_split_token.simps) simp
      show ?thesis
      proof (cases "d + 2 < length s \<and> search_split_token ?t \<noteq> None")
        case True
        then obtain k where k: "search_split_token ?t = Some k" by auto
        have "\<not> prefix ''||'' (drop j s)" if "j < d + 2 + k" for j
        proof (cases "j < d + 2")
          case False
          have "\<forall>i < k. \<not> prefix ''||'' (drop i ?t)" using IH k True by simp
          moreover have "j - (d + 2) < k" using False that by linarith
          ultimately show ?thesis using shift [of j] False by (metis not_less)
        qed (rule no)
        then show ?thesis using True k IH shift [of "d + 2 + k"] by (simp add: eq)
      next
        case False
        have "\<not> prefix ''||'' (drop j s)" for j
        proof (cases "d + 2 < length s")
          case True
          then have none: "\<forall>i. \<not> prefix ''||'' (drop i ?t)" using IH False by simp
          show ?thesis
          proof (cases "j < d + 2")
            case False
            then show ?thesis using shift [of j] none by (metis not_less)
          qed (rule no)
        next
          case at_end: False
          then show ?thesis using no [of j] by (auto simp: prefix_bars)
        qed
        then show ?thesis using False by (auto simp: eq)
      qed
    qed
  qed
qed

interpretation split_token: first_match "''||''" search_split_token
proof unfold_locales
  fix xs i j
  show "''||'' \<noteq> []" by simp
  show "search_split_token xs = Some i \<Longrightarrow> prefix ''||'' (drop i xs)"
    and "search_split_token xs = Some i \<Longrightarrow> j < i \<Longrightarrow> \<not> prefix ''||'' (drop j xs)"
    and "search_split_token xs = None \<Longrightarrow> \<not> prefix ''||'' (drop j xs)"
    using split_token_first [of xs] by auto
qed

text \<open>The reference: the pieces between the tokens.\<close>

function split_tokens :: "bytes \<Rightarrow> bytes list" where
  "split_tokens s = (case search_split_token s of None \<Rightarrow> [s]
     | Some i \<Rightarrow> take i s # split_tokens (drop (i + 2) s))"
  by pat_completeness auto
termination
  by (relation "measure length") (auto dest: split_token.rest_shorter)

declare split_tokens.simps [simp del]

lemma split_tokens_nonempty [simp]: "split_tokens s \<noteq> []"
  by (subst split_tokens.simps) (simp split: option.split)

section \<open>Model\<close>

definition REGEXP_SPLIT_MAX_TOKENS :: nat where "REGEXP_SPLIT_MAX_TOKENS = 10"
definition REGEXP_SPLIT_TOKEN_LEN :: nat where "REGEXP_SPLIT_TOKEN_LEN = 2"

text \<open>
  The surroundings of a call. \<open>re_exec rule text\<close>: None when \<open>pg_regcomp\<close> fails, otherwise
  whether \<open>pg_regexec\<close> matches. \<open>re_replace text rule result\<close> is \<open>textregexreplace_noopt\<close>,
  \<open>re_replace_opt text rule result opt\<close> is \<open>textregexreplace\<close>; None when they raise.
\<close>

record 'n rx_env =
  re_exec :: "bytes \<Rightarrow> bytes \<Rightarrow> bool option"
  re_replace :: "bytes \<Rightarrow> bytes \<Rightarrow> bytes \<Rightarrow> bytes option"
  re_replace_opt :: "bytes \<Rightarrow> bytes \<Rightarrow> bytes \<Rightarrow> bytes \<Rightarrow> bytes option"
  rx_mem :: "nat \<Rightarrow> bool"
  rx_rand :: "seed \<Rightarrow> nat \<times> seed"
  rx_seed :: seed
  rx_num :: "'n \<Rightarrow> bytes"

text \<open>The slots of \<open>fcinfo\<close> that the calls overwrite; None is SQL NULL.\<close>

record fcinfo =
  arg_rule :: "bytes option"
  arg_result :: "bytes option"

text \<open>
  \<open>apply_textregexreplace_noopt\<close>: the result Datum (None for 0) and \<open>*matched\<close>. It reads
  rule and result from \<open>fcinfo\<close>.
\<close>

definition apply_noopt ::
  "('n, 'z) rx_env_scheme \<Rightarrow> bytes \<Rightarrow> bytes \<Rightarrow> bytes \<Rightarrow> bool \<Rightarrow> bool \<Rightarrow> bytes option \<times> bool" where
  "apply_noopt env inp rule result final keep_empty =
     (case re_exec env rule inp of
        None \<Rightarrow> (None, False)
      | Some False \<Rightarrow> (if final then Some inp else None, False)
      | Some True \<Rightarrow>
          (case re_replace env inp rule result of
             Some out \<Rightarrow>
               if \<not> keep_empty \<and> out = [] then (if final then Some inp else None, True)
               else (Some out, True)
           | None \<Rightarrow> (if final then Some inp else None, True)))"

text \<open>
  The loop over the pieces in \<open>regexp_replace_rand_noopt\<close>, with what follows it up to
  \<open>out:\<close>. \<open>rp\<close> and \<open>qp\<close> are the texts from \<open>rule_ptr\<close> and \<open>result_ptr\<close> on.
\<close>

function noopt_loop ::
  "('n, 'z) rx_env_scheme \<Rightarrow> bytes \<Rightarrow> bool \<Rightarrow> bytes \<times> bytes \<Rightarrow> bytes \<Rightarrow> bytes \<Rightarrow> nat
     \<Rightarrow> bytes option \<times> bytes \<times> bytes" where
  "noopt_loop env inp keep (rule, result) rp qp n =
     (case search_split_token rp of
        Some i \<Rightarrow>
          (let rule1 = take i rp in
           case search_split_token qp of
             None \<Rightarrow>
               (let result1 = (if n > 0 then qp else result)
                in (fst (apply_noopt env inp rule1 result1 True keep), rule1, result1))
           | Some j \<Rightarrow>
               (let result1 = take j qp;
                    (ret, matched) = apply_noopt env inp rule1 result1 False keep
                in if matched then (ret, rule1, result1)
                   else if n + 1 \<ge> REGEXP_SPLIT_MAX_TOKENS - 1 then (ret, rule1, result1)
                   else if drop (i + 2) rp = [] then (ret, rule1, result1)
                   else if drop (j + 2) qp = [] then (ret, rule1, result1)
                   else noopt_loop env inp keep (rule1, result1) (drop (i + 2) rp) (drop (j + 2) qp)
                          (n + 1)))
      | None \<Rightarrow>
          (let result1 = (case search_split_token qp of
                            Some j \<Rightarrow> take j qp
                          | None \<Rightarrow> if n \<noteq> 0 then qp else result);
               rule1 = (if n \<noteq> 0 then rp else rule)
           in (fst (apply_noopt env inp rule1 result1 True keep), rule1, result1)))"
  by pat_completeness auto
termination
  by (relation "measure (\<lambda>(env, inp, keep, a, rp, qp, n). length rp)")
    (auto dest: split_token.rest_shorter)

declare noopt_loop.simps [simp del]

text \<open>
  What the three functions do before they match: replace \<open>r(n)\<close> in the result, then the
  template variables in result and rule. The value is the new rule and result together
  with \<open>orig_rule\<close> and \<open>orig_result\<close> (None where nothing has to be restored); the outer
  None is the failed \<open>replace\<close>.
\<close>

definition prepare_args ::
  "('n, 'z) rx_env_scheme \<Rightarrow> bytes \<Rightarrow> bytes \<Rightarrow> 'n jsonb option
     \<Rightarrow> (bytes \<times> bytes \<times> bytes option \<times> bytes option) option res" where
  "prepare_args env rule result vars =
     rbind (replace (rx_mem env) (rx_rand env) (rx_seed env) result)
       (\<lambda>r. case r of
          None \<Rightarrow> Inr None
        | Some (t, replaced) \<Rightarrow>
            (let result1 = (if replaced then t else result);
                 orig_result1 = (if replaced then Some result else None)
             in case vars of
                  Some (JsonObject vs) \<Rightarrow>
                    Inr (Some (replace_placeholders (rx_num env) vs rule,
                               replace_placeholders (rx_num env) vs result1,
                               Some rule,
                               if replaced then orig_result1 else Some result1))
                | _ \<Rightarrow> Inr (Some (rule, result1, None, orig_result1))))"

text \<open>Restoring the slots: only those whose original was saved.\<close>

definition restore_args :: "bytes \<Rightarrow> bytes \<Rightarrow> bytes option \<Rightarrow> bytes option \<Rightarrow> fcinfo" where
  "restore_args rule result orig_rule orig_result =
     \<lparr>arg_rule = Some (case orig_rule of Some r \<Rightarrow> r | None \<Rightarrow> rule),
      arg_result = Some (case orig_result of Some r \<Rightarrow> r | None \<Rightarrow> result)\<rparr>"

text \<open>\<open>regexp_replace_rand(text, text, text, boolean, jsonb)\<close>.\<close>

definition regexp_replace_rand_noopt ::
  "('n, 'z) rx_env_scheme \<Rightarrow> bytes option \<Rightarrow> fcinfo \<Rightarrow> bool option \<Rightarrow> 'n jsonb option
     \<Rightarrow> (bytes option \<times> fcinfo) res" where
  "regexp_replace_rand_noopt env in_arg fc keep_arg vars =
     (case in_arg of
        None \<Rightarrow> Inr (None, fc)
      | Some inp \<Rightarrow>
          (case (arg_rule fc, arg_result fc) of
             (Some rule, Some result) \<Rightarrow>
               (let keep = (keep_arg = Some True) in
                if rule = [] then Inr (Some inp, fc)
                else rbind (prepare_args env rule result vars)
                  (\<lambda>p. case p of
                     None \<Rightarrow> Inr (Some inp, fc)
                   | Some (rule1, result1, orig_rule, orig_result) \<Rightarrow>
                       (let (ret, rule2, result2) =
                              noopt_loop env inp keep (rule1, result1) rule1 result1 0
                        in Inr (Some (case ret of None \<Rightarrow> inp | Some out \<Rightarrow> out),
                                restore_args rule2 result2 orig_rule orig_result))))
           | _ \<Rightarrow> Inr (Some inp, fc)))"

text \<open>
  \<open>regexp_replace_rand(text, text, text, text, boolean, jsonb)\<close>, with regular expression
  options: no splitting, one call of \<open>textregexreplace\<close>.
\<close>

definition regexp_replace_rand_opt ::
  "('n, 'z) rx_env_scheme \<Rightarrow> bytes option \<Rightarrow> fcinfo \<Rightarrow> bytes option \<Rightarrow> bool option \<Rightarrow> 'n jsonb option
     \<Rightarrow> (bytes option \<times> fcinfo) res" where
  "regexp_replace_rand_opt env in_arg fc opt_arg keep_arg vars =
     (case in_arg of
        None \<Rightarrow> Inr (None, fc)
      | Some inp \<Rightarrow>
          (case arg_rule fc of
             None \<Rightarrow> Inr (Some inp, fc)
           | Some rule \<Rightarrow>
               (case opt_arg of
                  None \<Rightarrow> Inr (None, fc)
                | Some opts \<Rightarrow>
                    (case arg_result fc of
                       None \<Rightarrow> Inr (Some inp, fc)
                     | Some result \<Rightarrow>
                         (let keep = (keep_arg = Some True) in
                          if rule = [] then Inr (Some inp, fc)
                          else rbind (prepare_args env rule result vars)
                            (\<lambda>p. case p of
                               None \<Rightarrow> Inr (Some inp, fc)
                             | Some (rule1, result1, orig_rule, orig_result) \<Rightarrow>
                                 Inr (Some (case re_replace_opt env inp rule1 result1 opts of
                                              Some out \<Rightarrow> if \<not> keep \<and> out = [] then inp else out
                                            | None \<Rightarrow> inp),
                                      restore_args rule1 result1 orig_rule orig_result)))))))"

text \<open>
  \<open>regexp_replace_rand(text[], text, text, boolean, jsonb)\<close>: the loop over the pieces for
  one element ends with the element's result inserted, or falls through to the code after
  the loop with the pointers where they are.
\<close>

datatype piece_end =
    Inserted "bytes option" bytes bytes
  | Fallthrough bytes bytes bytes bytes nat

function array_loop ::
  "('n, 'z) rx_env_scheme \<Rightarrow> bytes \<Rightarrow> bool \<Rightarrow> bytes \<times> bytes \<Rightarrow> bytes \<Rightarrow> bytes \<Rightarrow> nat \<Rightarrow> piece_end" where
  "array_loop env v keep (rule, result) rp qp n =
     (case search_split_token rp of
        Some i \<Rightarrow>
          (let rule1 = take i rp in
           case search_split_token qp of
             None \<Rightarrow>
               (let result1 = (if n > 0 then qp else result)
                in Inserted (fst (apply_noopt env v rule1 result1 False keep)) rule1 result1)
           | Some j \<Rightarrow>
               (let result1 = take j qp;
                    (ret, matched) = apply_noopt env v rule1 result1 False keep
                in if matched then Inserted ret rule1 result1
                   else if n + 1 \<ge> REGEXP_SPLIT_MAX_TOKENS - 1
                     then Fallthrough rule1 result1 rp qp (n + 1)
                   else if drop (i + 2) rp = []
                     then Fallthrough rule1 result1 (drop (i + 2) rp) qp (n + 1)
                   else if drop (j + 2) qp = []
                     then Fallthrough rule1 result1 (drop (i + 2) rp) (drop (j + 2) qp) (n + 1)
                   else array_loop env v keep (rule1, result1) (drop (i + 2) rp) (drop (j + 2) qp)
                          (n + 1)))
      | None \<Rightarrow> Fallthrough rule result rp qp n)"
  by pat_completeness auto
termination
  by (relation "measure (\<lambda>(env, inp, keep, a, rp, qp, n). length rp)")
    (auto dest: split_token.rest_shorter)

declare array_loop.simps [simp del]

definition array_element ::
  "('n, 'z) rx_env_scheme \<Rightarrow> bytes \<Rightarrow> bool \<Rightarrow> bytes \<times> bytes \<Rightarrow> bytes \<Rightarrow> bytes
     \<Rightarrow> bytes \<times> bytes \<times> bytes" where
  "array_element env v keep args rule_begin result_begin =
     (case array_loop env v keep args rule_begin result_begin 0 of
        Inserted ret rule1 result1 \<Rightarrow> (case ret of None \<Rightarrow> v | Some out \<Rightarrow> out, rule1, result1)
      | Fallthrough rule1 result1 rp qp n \<Rightarrow>
          (let result2 = (case search_split_token qp of
                            Some j \<Rightarrow> take j qp
                          | None \<Rightarrow> if n \<noteq> 0 then qp else result1);
               rule2 = (if n \<noteq> 0 then rp else rule1)
           in (case fst (apply_noopt env v rule2 result2 False keep) of None \<Rightarrow> v | Some out \<Rightarrow> out,
               rule2, result2)))"

fun array_elements ::
  "('n, 'z) rx_env_scheme \<Rightarrow> bool \<Rightarrow> bytes \<Rightarrow> bytes \<Rightarrow> bytes \<times> bytes \<Rightarrow> bytes option list
     \<Rightarrow> bytes option list \<Rightarrow> bytes option list \<times> bytes \<times> bytes" where
  "array_elements env keep rule_begin result_begin args acc [] = (acc, args)"
| "array_elements env keep rule_begin result_begin args acc (None # vs) =
     array_elements env keep rule_begin result_begin args (acc @ [None]) vs"
| "array_elements env keep rule_begin result_begin args acc (Some v # vs) =
     (let (out, args') = array_element env v keep args rule_begin result_begin
      in array_elements env keep rule_begin result_begin args' (acc @ [Some out]) vs)"

definition regexp_replace_rand_array_noopt ::
  "('n, 'z) rx_env_scheme \<Rightarrow> bytes option list option \<Rightarrow> fcinfo \<Rightarrow> bool option \<Rightarrow> 'n jsonb option
     \<Rightarrow> (bytes option list option \<times> fcinfo) res" where
  "regexp_replace_rand_array_noopt env in_arg fc keep_arg vars =
     (case in_arg of
        None \<Rightarrow> Inr (None, fc)
      | Some vs \<Rightarrow>
          (case (arg_rule fc, arg_result fc) of
             (Some rule, Some result) \<Rightarrow>
               (let keep = (keep_arg = Some True) in
                if rule = [] then Inr (Some vs, fc)
                else rbind (prepare_args env rule result vars)
                  (\<lambda>p. case p of
                     None \<Rightarrow> Inr (Some vs, fc)
                   | Some (rule1, result1, orig_rule, orig_result) \<Rightarrow>
                       (let (outs, rule2, result2) =
                              array_elements env keep rule1 result1 (rule1, result1) [] vs
                        in Inr (Some outs, restore_args rule2 result2 orig_rule orig_result))))
           | _ \<Rightarrow> Inr (Some vs, fc)))"

section \<open>Specification\<close>

text \<open>
  The pairs that are tried: the pieces of rule and result side by side, without an empty
  last piece (unless it is the only one), at most nine of them.
\<close>

definition strip_last :: "bytes list \<Rightarrow> bytes list" where
  "strip_last xs = (if length xs > 1 \<and> last xs = [] then butlast xs else xs)"

definition candidates :: "bytes \<Rightarrow> bytes \<Rightarrow> (bytes \<times> bytes) list" where
  "candidates rule result =
     take 9 (zip (strip_last (split_tokens rule)) (strip_last (split_tokens result)))"

definition replace_with ::
  "('n, 'z) rx_env_scheme \<Rightarrow> bytes \<Rightarrow> bool \<Rightarrow> bytes \<times> bytes \<Rightarrow> bytes" where
  "replace_with env inp keep = (\<lambda>(r, q). case re_replace env inp r q of
     None \<Rightarrow> inp
   | Some out \<Rightarrow> if \<not> keep \<and> out = [] then inp else out)"

definition first_matching ::
  "('n, 'z) rx_env_scheme \<Rightarrow> bytes \<Rightarrow> bool \<Rightarrow> (bytes \<times> bytes) list \<Rightarrow> bytes" where
  "first_matching env inp keep ps =
     (case find (\<lambda>(r, q). re_exec env r inp = Some True) ps of
        None \<Rightarrow> inp
      | Some p \<Rightarrow> replace_with env inp keep p)"

lemma first_matching_Nil [simp]: "first_matching env inp keep [] = inp"
  by (simp add: first_matching_def)

lemma first_matching_Cons:
  "first_matching env inp keep ((r, q) # ps) =
    (if re_exec env r inp = Some True then replace_with env inp keep (r, q)
     else first_matching env inp keep ps)"
  by (simp add: first_matching_def)

lemma apply_value:
  "(case fst (apply_noopt env inp r q final keep) of None \<Rightarrow> inp | Some out \<Rightarrow> out) =
    (if re_exec env r inp = Some True then replace_with env inp keep (r, q) else inp)"
  by (auto simp: apply_noopt_def replace_with_def split: option.split bool.split)

lemma apply_matched: "snd (apply_noopt env inp r q final keep) \<longleftrightarrow> re_exec env r inp = Some True"
  by (auto simp: apply_noopt_def split: option.split bool.split)

text \<open>The pairs still to be tried from the pointers on, after \<open>n\<close> attempts.\<close>

definition remaining :: "bytes \<Rightarrow> bytes \<Rightarrow> nat \<Rightarrow> (bytes \<times> bytes) list" where
  "remaining rp qp n =
     take (9 - n) (zip (strip_last (split_tokens rp)) (strip_last (split_tokens qp)))"

lemma split_None: "search_split_token s = None \<Longrightarrow> split_tokens s = [s]"
  by (subst split_tokens.simps) simp

lemma split_Some:
  "search_split_token s = Some i \<Longrightarrow> split_tokens s = take i s # split_tokens (drop (i + 2) s)"
  by (subst split_tokens.simps) simp

lemma split_single_Nil: "split_tokens t = [[]] \<longleftrightarrow> t = []"
proof (cases "search_split_token t")
  case None
  then show ?thesis by (simp add: split_None)
next
  case (Some i)
  then have "t \<noteq> []" using split_token.hit_bound [OF Some] by auto
  then show ?thesis by (simp add: split_Some [OF Some])
qed

lemma strip_last_None: "search_split_token s = None \<Longrightarrow> strip_last (split_tokens s) = [s]"
  by (simp add: split_None strip_last_def)

lemma strip_last_Some:
  assumes "search_split_token s = Some i"
  shows "strip_last (split_tokens s) =
    take i s # (if drop (i + 2) s = [] then [] else strip_last (split_tokens (drop (i + 2) s)))"
proof -
  let ?t = "drop (i + 2) s"
  have s: "split_tokens s = take i s # split_tokens ?t" by (rule split_Some [OF assms])
  show ?thesis
  proof (cases "?t = []")
    case True
    then have "split_tokens ?t = [[]]" using split_single_Nil [of ?t] by blast
    then show ?thesis using True by (simp only: s strip_last_def) simp
  next
    case False
    obtain y ys where T: "split_tokens ?t = y # ys" by (cases "split_tokens ?t") auto
    have "ys = [] \<Longrightarrow> y \<noteq> []" using False split_single_Nil [of ?t] T by auto
    then show ?thesis using False by (simp only: s T strip_last_def) auto
  qed
qed

lemma remaining_Suc:
  assumes "search_split_token rp = Some i" and "search_split_token qp = Some j" and "n < 9"
  shows "remaining rp qp n = (take i rp, take j qp) #
    (if n = 8 \<or> drop (i + 2) rp = [] \<or> drop (j + 2) qp = [] then []
     else remaining (drop (i + 2) rp) (drop (j + 2) qp) (n + 1))"
proof -
  have "9 - n = Suc (9 - (n + 1))" using assms(3) by simp
  then show ?thesis
    using assms by (auto simp: remaining_def strip_last_Some)
qed

lemma remaining_last:
  assumes "search_split_token rp = None \<or> search_split_token qp = None" and "n < 9"
  shows "remaining rp qp n =
    [(case search_split_token rp of None \<Rightarrow> rp | Some i \<Rightarrow> take i rp,
      case search_split_token qp of None \<Rightarrow> qp | Some j \<Rightarrow> take j qp)]"
proof -
  have "9 - n = Suc (8 - n)" using assms(2) by simp
  then show ?thesis
    using assms(1)
    by (cases "search_split_token rp"; cases "search_split_token qp")
      (simp_all add: remaining_def strip_last_None strip_last_Some)
qed

text \<open>One iteration of the loop, by the two searches.\<close>

lemma noopt_loop_last:
  assumes "search_split_token rp = None \<or> search_split_token qp = None"
    and "n = 0 \<Longrightarrow> rule = rp \<and> result = qp"
  shows "\<exists>r q. remaining rp qp 0 = [(r, q)] \<and>
    noopt_loop env inp keep (rule, result) rp qp n = (fst (apply_noopt env inp r q True keep), r, q)"
  using assms
  by (subst noopt_loop.simps)
    (auto simp: remaining_last Let_def split: option.split)

lemma noopt_loop_Suc:
  assumes "search_split_token rp = Some i" and "search_split_token qp = Some j"
  shows "noopt_loop env inp keep args rp qp n =
    (let r = take i rp; q = take j qp
     in if re_exec env r inp = Some True \<or> n \<ge> 8 \<or> drop (i + 2) rp = [] \<or> drop (j + 2) qp = []
        then (fst (apply_noopt env inp r q False keep), r, q)
        else noopt_loop env inp keep (r, q) (drop (i + 2) rp) (drop (j + 2) qp) (n + 1))"
proof -
  obtain rule result where a: "args = (rule, result)" by (cases args)
  show ?thesis
    using assms
    by (auto simp: a noopt_loop.simps [of env inp keep rule result rp qp n] Let_def
        REGEXP_SPLIT_MAX_TOKENS_def case_prod_unfold apply_matched)
qed

lemma noopt_loop_value:
  "n < 9 \<Longrightarrow> (n = 0 \<Longrightarrow> args = (rp, qp)) \<Longrightarrow>
    (case fst (noopt_loop env inp keep args rp qp n) of None \<Rightarrow> inp | Some out \<Rightarrow> out) =
      first_matching env inp keep (remaining rp qp n)"
proof (induction "length rp" arbitrary: args rp qp n rule: less_induct)
  case less
  show ?case
  proof (cases "search_split_token rp = None \<or> search_split_token qp = None")
    case True
    obtain rule result where a: "args = (rule, result)" by (cases args)
    obtain r q where "remaining rp qp 0 = [(r, q)]"
      "noopt_loop env inp keep args rp qp n = (fst (apply_noopt env inp r q True keep), r, q)"
      using noopt_loop_last [OF True, of n rule result env inp keep] less.prems(2) a by auto
    moreover have "remaining rp qp n = remaining rp qp 0"
      using remaining_last [OF True] less.prems(1) by simp
    ultimately show ?thesis by (simp add: apply_value first_matching_Cons)
  next
    case False
    then obtain i j where ij: "search_split_token rp = Some i" "search_split_token qp = Some j"
      by auto
    have "length (drop (i + 2) rp) < length rp"
      using split_token.rest_shorter [OF ij(1)] by simp
    note IH = less.hyps [OF this]
    show ?thesis
      using IH [of "n + 1" "(take i rp, take j qp)" "drop (j + 2) qp"] less.prems(1)
      by (auto simp: noopt_loop_Suc [OF ij] Let_def remaining_Suc [OF ij] first_matching_Cons apply_value)
  qed
qed

section \<open>The array version\<close>

text \<open>
  Rule and result that do not end in an empty piece and do not both have ten pieces: the
  loop over the pieces then never stops half-way.
\<close>

definition regular :: "bytes \<Rightarrow> bytes \<Rightarrow> nat \<Rightarrow> bool" where
  "regular rp qp n \<longleftrightarrow>
     strip_last (split_tokens rp) = split_tokens rp \<and>
     strip_last (split_tokens qp) = split_tokens qp \<and>
     (n + length (split_tokens rp) \<le> 9 \<or> n + length (split_tokens qp) \<le> 9)"

definition args_ok :: "bytes \<times> bytes \<Rightarrow> bytes \<Rightarrow> bytes \<Rightarrow> bool" where
  "args_ok args rp qp \<longleftrightarrow> (search_split_token rp = None \<longrightarrow> fst args = rp) \<and>
     (search_split_token qp = None \<longrightarrow> snd args = qp)"

lemma split_tokens_Nil [simp]: "split_tokens [] = [[]]"
  using split_single_Nil [of "[]"] by simp

lemma strip_last_id_Some:
  assumes "search_split_token s = Some i" and "strip_last (split_tokens s) = split_tokens s"
  shows "drop (i + 2) s \<noteq> []"
    and "strip_last (split_tokens (drop (i + 2) s)) = split_tokens (drop (i + 2) s)"
proof -
  show "drop (i + 2) s \<noteq> []"
    using assms strip_last_Some [OF assms(1)] split_Some [OF assms(1)] by (auto split: if_splits)
  then show "strip_last (split_tokens (drop (i + 2) s)) = split_tokens (drop (i + 2) s)"
    using assms(2) strip_last_Some [OF assms(1)] split_Some [OF assms(1)] by simp
qed

lemma regular_Suc:
  assumes "search_split_token rp = Some i" and "search_split_token qp = Some j"
    and "regular rp qp n"
  shows "drop (i + 2) rp \<noteq> []" and "drop (j + 2) qp \<noteq> []" and "n < 8"
    and "regular (drop (i + 2) rp) (drop (j + 2) qp) (n + 1)"
proof -
  have pos: "0 < length (split_tokens t)" for t by simp
  have rp: "strip_last (split_tokens rp) = split_tokens rp"
    and qp: "strip_last (split_tokens qp) = split_tokens qp"
    and len: "n + length (split_tokens rp) \<le> 9 \<or> n + length (split_tokens qp) \<le> 9"
    using assms(3) by (simp_all only: regular_def)
  have len1: "n + 1 + length (split_tokens (drop (i + 2) rp)) \<le> 9 \<or>
      n + 1 + length (split_tokens (drop (j + 2) qp)) \<le> 9"
    using len by (simp add: split_Some [OF assms(1)] split_Some [OF assms(2)])
  then show "n < 8"
    using pos [of "drop (i + 2) rp"] pos [of "drop (j + 2) qp"] by linarith
  show "drop (i + 2) rp \<noteq> []" "drop (j + 2) qp \<noteq> []"
    using strip_last_id_Some(1) [OF assms(1) rp] strip_last_id_Some(1) [OF assms(2) qp] by blast+
  show "regular (drop (i + 2) rp) (drop (j + 2) qp) (n + 1)"
    unfolding regular_def
    using strip_last_id_Some(2) [OF assms(1) rp] strip_last_id_Some(2) [OF assms(2) qp] len1 by blast
qed

text \<open>What one element contributes, by how its loop ended.\<close>

definition piece_value :: "('n, 'z) rx_env_scheme \<Rightarrow> bytes \<Rightarrow> bool \<Rightarrow> piece_end \<Rightarrow> bytes" where
  "piece_value env v keep pe = (case pe of
     Inserted ret rule1 result1 \<Rightarrow> (case ret of None \<Rightarrow> v | Some out \<Rightarrow> out)
   | Fallthrough rule1 result1 rp qp n \<Rightarrow>
       (case fst (apply_noopt env v (if n \<noteq> 0 then rp else rule1)
                   (case search_split_token qp of Some j \<Rightarrow> take j qp
                    | None \<Rightarrow> if n \<noteq> 0 then qp else result1) False keep) of
          None \<Rightarrow> v | Some out \<Rightarrow> out))"

lemma array_element_fst:
  "fst (array_element env v keep args rb qb) = piece_value env v keep (array_loop env v keep args rb qb 0)"
  by (simp add: array_element_def piece_value_def Let_def split: piece_end.split)

lemma array_loop_last:
  assumes "search_split_token rp = None \<or> search_split_token qp = None" and "n < 9"
    and "n = 0 \<Longrightarrow> args_ok args rp qp"
  shows "piece_value env v keep (array_loop env v keep args rp qp n) =
    first_matching env v keep (remaining rp qp n)"
proof -
  obtain rule result where a: "args = (rule, result)" by (cases args)
  note eqs = remaining_last [OF assms(1,2)] a array_loop.simps [of env v keep rule result rp qp n]
    piece_value_def first_matching_Cons apply_value
  show ?thesis
  proof (cases "search_split_token rp")
    case None
    then show ?thesis
      using assms(3) by (cases "search_split_token qp") (auto simp: eqs args_ok_def)
  next
    case (Some i)
    then have "search_split_token qp = None" using assms(1) by simp
    then show ?thesis using assms(3) Some by (auto simp: eqs Let_def args_ok_def)
  qed
qed

lemma array_loop_value:
  "n < 9 \<Longrightarrow> (n = 0 \<Longrightarrow> args_ok args rp qp) \<Longrightarrow> regular rp qp n \<Longrightarrow>
    piece_value env v keep (array_loop env v keep args rp qp n) =
      first_matching env v keep (remaining rp qp n)"
proof (induction "length rp" arbitrary: args rp qp n rule: less_induct)
  case less
  show ?case
  proof (cases "search_split_token rp = None \<or> search_split_token qp = None")
    case True
    then show ?thesis using less.prems by (intro array_loop_last)
  next
    case False
    then obtain i j where ij: "search_split_token rp = Some i" "search_split_token qp = Some j"
      by auto
    obtain rule result where a: "args = (rule, result)" by (cases args)
    have "length (drop (i + 2) rp) < length rp"
      using split_token.rest_shorter [OF ij(1)] by simp
    note IH = less.hyps [OF this]
    note reg = regular_Suc [OF ij less.prems(3)]
    have "piece_value env v keep (array_loop env v keep args rp qp n) =
      (if re_exec env (take i rp) v = Some True
       then (case fst (apply_noopt env v (take i rp) (take j qp) False keep) of
               None \<Rightarrow> v | Some out \<Rightarrow> out)
       else piece_value env v keep
         (array_loop env v keep (take i rp, take j qp) (drop (i + 2) rp) (drop (j + 2) qp) (n + 1)))"
      using ij reg(1-3)
      by (simp add: a array_loop.simps [of env v keep rule result rp qp n] Let_def
          REGEXP_SPLIT_MAX_TOKENS_def case_prod_unfold apply_matched piece_value_def)
    then show ?thesis
      using IH [of "n + 1" "(take i rp, take j qp)" "drop (j + 2) qp"] reg
      by (simp add: remaining_Suc [OF ij less.prems(1)] first_matching_Cons apply_value)
  qed
qed

text \<open>The argument slots stay usable from one element to the next.\<close>

lemma array_loop_args:
  assumes "args_ok args rp qp" and "search_split_token rp = None \<or> search_split_token qp = None"
  shows "args_ok (snd (array_element env v keep args rp qp)) rp qp"
proof -
  obtain rule result where a: "args = (rule, result)" by (cases args)
  show ?thesis
    using assms
    by (auto simp: a array_element_def array_loop.simps [of env v keep rule result rp qp 0]
        args_ok_def Let_def split: option.split)
qed

lemma array_element_args:
  "args_ok args rp qp \<Longrightarrow> args_ok (snd (array_element env v keep args rp qp)) rp qp"
proof (cases "search_split_token rp = None \<or> search_split_token qp = None")
  case False
  then show ?thesis by (auto simp: args_ok_def)
qed (rule array_loop_args)

lemma array_elements_value:
  "args_ok args rb qb \<Longrightarrow> regular rb qb 0 \<Longrightarrow>
    fst (array_elements env keep rb qb args acc vs) =
      acc @ map (map_option (\<lambda>v. first_matching env v keep (candidates rb qb))) vs"
proof (induction env keep rb qb args acc vs rule: array_elements.induct)
  case (3 env keep rb qb args acc v vs)
  have "fst (array_element env v keep args rb qb) = first_matching env v keep (candidates rb qb)"
    using array_loop_value [of 0 args rb qb env v keep] "3.prems"
    by (simp add: array_element_fst candidates_def remaining_def)
  then show ?case
    using "3.IH" [OF refl prod.collapse]
      array_element_args [OF "3.prems"(1), of env v keep] "3.prems"(2)
    by (simp add: case_prod_unfold)
qed simp_all

section \<open>Preparing and restoring the arguments\<close>

definition expand_vars :: "('n, 'z) rx_env_scheme \<Rightarrow> 'n jsonb option \<Rightarrow> bytes \<Rightarrow> bytes" where
  "expand_vars env vars t = (case vars of
     Some (JsonObject vs) \<Rightarrow> replace_placeholders (rx_num env) vs t | _ \<Rightarrow> t)"

definition is_object :: "'n jsonb option \<Rightarrow> bool" where
  "is_object vars \<longleftrightarrow> (case vars of Some (JsonObject vs) \<Rightarrow> True | _ \<Rightarrow> False)"

lemma prepare_args_cases:
  obtains (null) "prepare_args env rule result vars = Inr None" "\<exists>n. \<not> rx_mem env n"
    | (ready) q b orule oresult where
      "replace (rx_mem env) (rx_rand env) (rx_seed env) result = Inr (Some (q, b))"
      "prepare_args env rule result vars =
         Inr (Some (expand_vars env vars rule, expand_vars env vars q, orule, oresult))"
      "orule = (if is_object vars then Some rule else None)"
      "oresult = (if is_object vars \<or> b then Some result else None)"
      "\<not> is_object vars \<and> \<not> b \<Longrightarrow> expand_vars env vars q = result"
proof (cases rule: replace_cases [of "rx_mem env" "rx_rand env" "rx_seed env" result])
  case null
  then show ?thesis by (intro that(1)) (simp_all add: prepare_args_def)
next
  case (found c)
  let ?q = "render (rx_rand env) (rx_seed env) result 0 (ents c)" and ?b = "ents c \<noteq> []"
  have same: "\<not> ?b \<Longrightarrow> ?q = result" by simp
  show ?thesis
  proof (rule that(2) [OF found(3) _ refl refl])
    show "prepare_args env rule result vars =
        Inr (Some (expand_vars env vars rule, expand_vars env vars ?q,
          if is_object vars then Some rule else None,
          if is_object vars \<or> ?b then Some result else None))"
      using same
      by (auto simp: prepare_args_def found(3) expand_vars_def is_object_def Let_def
          split: option.split jsonb.split)
    show "\<not> is_object vars \<and> \<not> ?b \<Longrightarrow> expand_vars env vars ?q = result"
      using same by (auto simp: expand_vars_def is_object_def split: option.splits jsonb.splits)
  qed
qed

lemma split_case_prod3: "(let (a, b, c) = p in f a b c) = f (fst p) (fst (snd p)) (snd (snd p))"
  by (simp add: case_prod_unfold)

text \<open>
  An engine for rules without special characters: a rule matches where it occurs, and its
  first occurrence is replaced. It instantiates the parameters in the examples.
\<close>

definition literal_env :: "nat rx_env" where
  "literal_env =
     \<lparr>re_exec = (\<lambda>r t. Some (memmem r t \<noteq> None)),
      re_replace = (\<lambda>t r q. Some (case memmem r t of None \<Rightarrow> t
         | Some i \<Rightarrow> take i t @ q @ drop (i + length r) t)),
      re_replace_opt = (\<lambda>t r q opts. Some (case memmem r t of None \<Rightarrow> t
         | Some i \<Rightarrow> take i t @ q @ drop (i + length r) t)),
      rx_mem = (\<lambda>_. True), rx_rand = (\<lambda>s. (unat s, s + 1)), rx_seed = 5, rx_num = dec\<rparr>"

section \<open>Properties\<close>



text \<open>
  C5. On rules and results without an empty last piece, of which one has at most nine
  pieces, the array version does for each element what the text version does; NULL
  elements and the length of the array are kept.
\<close>

theorem regexp_replace_rand_array_elementwise:
  assumes "\<forall>n. rx_mem env n" and "rule \<noteq> []"
    and "\<And>q b. replace (rx_mem env) (rx_rand env) (rx_seed env) result = Inr (Some (q, b)) \<Longrightarrow>
      regular (expand_vars env vars rule) (expand_vars env vars q) 0"
  shows "\<exists>outs fc'. regexp_replace_rand_array_noopt env (Some vs)
      \<lparr>arg_rule = Some rule, arg_result = Some result\<rparr> keep vars = Inr (Some outs, fc') \<and>
    list_all2 (\<lambda>out v. case v of None \<Rightarrow> out = None | Some inp \<Rightarrow>
      (\<exists>fc''. regexp_replace_rand_noopt env (Some inp)
        \<lparr>arg_rule = Some rule, arg_result = Some result\<rparr> keep vars = Inr (out, fc''))) outs vs"
proof (cases rule: prepare_args_cases [of env rule result vars])
  case null
  then show ?thesis using assms(1) by simp
next
  case (ready q b orule oresult)
  let ?r = "expand_vars env vars rule" and ?q = "expand_vars env vars q"
  let ?f = "\<lambda>v. first_matching env v (keep = Some True) (candidates ?r ?q)"
  have scalar: "\<exists>fc''. regexp_replace_rand_noopt env (Some inp)
      \<lparr>arg_rule = Some rule, arg_result = Some result\<rparr> keep vars = Inr (Some (?f inp), fc'')" for inp
    using assms(2) noopt_loop_value [where n = 0 and rp = ?r and qp = ?q and env = env and inp = inp
        and keep = "keep = Some True" and args = "(?r, ?q)"]
    by (auto simp: regexp_replace_rand_noopt_def ready(2) Let_def case_prod_unfold
        remaining_def candidates_def split: option.split)
  have "fst (array_elements env (keep = Some True) ?r ?q (?r, ?q) [] vs) = map (map_option ?f) vs"
    using array_elements_value [of "(?r, ?q)" ?r ?q env "keep = Some True" "[]" vs] assms(3) ready(1)
    by (simp add: args_ok_def)
  then have "\<exists>fc'. regexp_replace_rand_array_noopt env (Some vs)
      \<lparr>arg_rule = Some rule, arg_result = Some result\<rparr> keep vars =
      Inr (Some (map (map_option ?f) vs), fc')"
    using assms(2)
    by (auto simp: regexp_replace_rand_array_noopt_def ready(2) Let_def case_prod_unfold)
  moreover have "list_all2 (\<lambda>out v. case v of None \<Rightarrow> out = None | Some inp \<Rightarrow>
      (\<exists>fc''. regexp_replace_rand_noopt env (Some inp)
        \<lparr>arg_rule = Some rule, arg_result = Some result\<rparr> keep vars = Inr (out, fc'')))
      (map (map_option ?f) vs) vs"
    using scalar by (auto simp: list_all2_conv_all_nth split: option.split)
  ultimately show ?thesis by blast
qed

theorem regexp_replace_rand_array_elementwise_witness:
  "\<exists>outs fc'. regexp_replace_rand_array_noopt literal_env (Some [Some ''b'', None])
     \<lparr>arg_rule = Some ''a||b'', arg_result = Some ''x||y''\<rparr> None None = Inr (Some outs, fc')"
proof -
  have "replace (\<lambda>_. True) (\<lambda>s. (unat s, s + 1)) 5 ''x||y'' = Inr (Some (''x||y'', False))"
    by (simp add: replace_def cache_empty_def find_none)
  moreover have "regular ''a||b'' ''x||y'' 0" by code_simp
  ultimately show ?thesis
    using regexp_replace_rand_array_elementwise [of literal_env "''a||b''" "''x||y''" None
        "[Some ''b'', None]" None]
    by (auto simp: literal_env_def expand_vars_def)
qed



text \<open>
  Without template variables the slots are left at the last pieces: the first call of an
  SQL expression with constant rule and result answers \<open>y\<close> for \<open>b\<close> and leaves \<open>b\<close> and \<open>y\<close>
  in the slots; a second call that finds them there no longer replaces \<open>a\<close>.
\<close>

lemma fcinfo_not_restored:
  "regexp_replace_rand_noopt literal_env (Some ''b'')
     \<lparr>arg_rule = Some ''a||b'', arg_result = Some ''x||y''\<rparr> None None =
   Inr (Some ''y'', \<lparr>arg_rule = Some ''b'', arg_result = Some ''y''\<rparr>)"
  "regexp_replace_rand_noopt literal_env (Some ''a'')
     \<lparr>arg_rule = Some ''b'', arg_result = Some ''y''\<rparr> None None =
   Inr (Some ''a'', \<lparr>arg_rule = Some ''b'', arg_result = Some ''y''\<rparr>)"
  "regexp_replace_rand_noopt literal_env (Some ''a'')
     \<lparr>arg_rule = Some ''a||b'', arg_result = Some ''x||y''\<rparr> None None =
   Inr (Some ''x'', \<lparr>arg_rule = Some ''a'', arg_result = Some ''x''\<rparr>)"
  by code_simp+

text \<open>
  A rule that ends in \<open>||\<close>: the text version gives up after the last real piece, the array
  version goes on with the empty rule, which matches every text.
\<close>

lemma array_differs_from_text:
  "regexp_replace_rand_noopt literal_env (Some ''b'')
     \<lparr>arg_rule = Some ''a||'', arg_result = Some ''x||y''\<rparr> None None =
   Inr (Some ''b'', \<lparr>arg_rule = Some ''a'', arg_result = Some ''x''\<rparr>)"
  "regexp_replace_rand_array_noopt literal_env (Some [Some ''b''])
     \<lparr>arg_rule = Some ''a||'', arg_result = Some ''x||y''\<rparr> None None =
   Inr (Some [Some ''xb''], \<lparr>arg_rule = Some [], arg_result = Some ''x''\<rparr>)"
  by code_simp+

end
