(* ===== verification/Rank_Srv.thy ===== *)
theory Rank_Srv
  imports Prelude "HOL-Library.Multiset" "HOL-Library.Signed_Division"
begin

text \<open>
  The window function \<open>rank_dns_srv(weight)\<close> of src/f_sort_srv.c: a random order of the
  rows of a partition by the weights of DNS SRV records (RFC 2782). The partition-local
  memory is an array of 20 rows, zeroed when the executor allocates it. A write past its end
  is the fault \<open>OutOfBounds\<close>, a remainder by zero the fault \<open>DivByZero\<close>. \<open>rand_r\<close> is a
  parameter; int32 variables take their values through \<open>to_int32\<close>.
\<close>

section \<open>The program\<close>

definition CTX_MAX_ROWS :: nat where "CTX_MAX_ROWS = 20"

record row_stat =
  rank :: int
  weight :: int
  w_sum :: int

type_synonym rank_ctx = "row_stat list"

definition rank_ctx_new :: rank_ctx where
  "rank_ctx_new = replicate CTX_MAX_ROWS \<lparr>rank = 0, weight = 0, w_sum = 0\<rparr>"

text \<open>A store into row \<open>row\<close> of the context.\<close>

definition ctx_store :: "rank_ctx \<Rightarrow> nat \<Rightarrow> (row_stat \<Rightarrow> row_stat) \<Rightarrow> rank_ctx res" where
  "ctx_store ctx row f =
     (if row < length ctx then Inr (ctx[row := f (ctx ! row)]) else Inl OutOfBounds)"

text \<open>\<open>fill_weights\<close>: the loop from row \<open>row\<close> on, over the weights of the remaining rows.\<close>

primrec fill_weights :: "rank_ctx \<Rightarrow> nat \<Rightarrow> int option list \<Rightarrow> rank_ctx res" where
  "fill_weights ctx row [] = Inr ctx"
| "fill_weights ctx row (v # vs) =
     rbind (ctx_store ctx row
              (\<lambda>s. s\<lparr>weight := (case v of None \<Rightarrow> 0 | Some x \<Rightarrow> x)\<rparr>))
       (\<lambda>ctx'. fill_weights ctx' (row + 1) vs)"

text \<open>The two loops of \<open>get_next_row\<close> over the rows of the partition.\<close>

fun sum_rows :: "int \<Rightarrow> row_stat list \<Rightarrow> int \<times> row_stat list" where
  "sum_rows t [] = (t, [])"
| "sum_rows t (s # ss) =
     (if rank s \<noteq> 0 then (let (total, ss') = sum_rows t ss in (total, s # ss'))
      else (let (total, ss') = sum_rows (t + weight s) ss
            in (total, s\<lparr>w_sum := to_int32 (t + weight s)\<rparr> # ss')))"

fun select_row :: "int \<Rightarrow> nat \<Rightarrow> row_stat list \<Rightarrow> nat" where
  "select_row r row [] = row"
| "select_row r row (s # ss) =
     (if rank s \<noteq> 0 then select_row r (row + 1) ss
      else if w_sum s \<ge> r then row
      else select_row r (row + 1) ss)"

definition get_next_row ::
  "(seed \<Rightarrow> nat \<times> seed) \<Rightarrow> rank_ctx \<Rightarrow> nat \<Rightarrow> seed \<Rightarrow> (nat \<times> rank_ctx \<times> seed) res" where
  "get_next_row rand_r ctx rows seed =
     (if rows > length ctx then Inl OutOfBounds
      else let (total, used) = sum_rows 0 (take rows ctx);
               (v, seed') = rand_r seed
           in if total + 1 = 0 then Inl DivByZero
              else let r = to_int32 (int v smod (total + 1))
                   in Inr (select_row r 0 used, used @ drop rows ctx, seed'))"

text \<open>The \<open>while\<close> loop of \<open>fill_distribution\<close>.\<close>

function rank_loop ::
  "(seed \<Rightarrow> nat \<times> seed) \<Rightarrow> rank_ctx \<Rightarrow> nat \<Rightarrow> seed \<Rightarrow> nat \<Rightarrow> rank_ctx res" where
  "rank_loop rand_r ctx rows seed k =
     (if k < rows then
        rbind (get_next_row rand_r ctx rows seed)
          (\<lambda>(row, ctx', seed').
             rbind (ctx_store ctx' row (\<lambda>s. s\<lparr>rank := to_int32 (int (k + 1))\<rparr>))
               (\<lambda>ctx''. rank_loop rand_r ctx'' rows seed' (k + 1)))
      else Inr ctx)"
  by pat_completeness auto
termination
  by (relation "measure (\<lambda>(rand_r, ctx, rows, seed, k). rows - k)") auto

declare rank_loop.simps [simp del]

text \<open>
  \<open>fill_distribution\<close>. Its test \<open>if(rows > CTX_MAX_ROWS) row = CTX_MAX_ROWS\<close> assigns
  \<open>row\<close>, which is overwritten before it is read, so \<open>rows\<close> keeps the size of the partition.
\<close>

definition fill_distribution ::
  "(seed \<Rightarrow> nat \<times> seed) \<Rightarrow> seed \<Rightarrow> int option list \<Rightarrow> rank_ctx \<Rightarrow> rank_ctx res" where
  "fill_distribution rand_r seed weights ctx =
     (let rows = length weights
      in rbind (fill_weights ctx 0 weights) (\<lambda>ctx'. rank_loop rand_r ctx' rows seed 0))"

text \<open>One call of the window function, at position \<open>row\<close> of the partition.\<close>

definition rank_dns_srv ::
  "(seed \<Rightarrow> nat \<times> seed) \<Rightarrow> seed \<Rightarrow> int option list \<Rightarrow> rank_ctx \<Rightarrow> nat \<Rightarrow> (int \<times> rank_ctx) res" where
  "rank_dns_srv rand_r seed weights ctx row =
     rbind (if row = 0 then fill_distribution rand_r seed weights ctx else Inr ctx)
       (\<lambda>ctx'. if row \<ge> CTX_MAX_ROWS then Inr (int CTX_MAX_ROWS + 1, ctx')
               else if row < length ctx' then Inr (rank (ctx' ! row), ctx')
               else Inl OutOfBounds)"

text \<open>The executor calls the function for the rows of the partition in order.\<close>

fun run_window ::
  "(seed \<Rightarrow> nat \<times> seed) \<Rightarrow> seed \<Rightarrow> int option list \<Rightarrow> rank_ctx \<Rightarrow> nat list \<Rightarrow> int list res" where
  "run_window rand_r seed weights ctx [] = Inr []"
| "run_window rand_r seed weights ctx (row # rs) =
     rbind (rank_dns_srv rand_r seed weights ctx row)
       (\<lambda>(v, ctx'). rbind (run_window rand_r seed weights ctx' rs) (\<lambda>vs. Inr (v # vs)))"

section \<open>Specification\<close>

definition weight_of :: "int option \<Rightarrow> int" where
  "weight_of v = (case v of None \<Rightarrow> 0 | Some x \<Rightarrow> x)"

text \<open>The weights of the rows that have no rank yet.\<close>

definition open_weight :: "row_stat \<Rightarrow> int" where
  "open_weight s = (if rank s = 0 then weight s else 0)"

definition total_open :: "row_stat list \<Rightarrow> int" where
  "total_open ss = sum_list (map open_weight ss)"

text \<open>Weights of a partition whose cumulative sums fit the int32 column \<open>w_sum\<close>.\<close>

definition rows_ok :: "row_stat list \<Rightarrow> bool" where
  "rows_ok ss \<longleftrightarrow> (\<forall>s \<in> set ss. 0 \<le> weight s) \<and> sum_list (map weight ss) < 2 ^ 31"

section \<open>The selection of a row\<close>

lemma total_open_Nil [simp]: "total_open [] = 0" by (simp add: total_open_def)

lemma total_open_Cons [simp]: "total_open (s # ss) = open_weight s + total_open ss"
  by (simp add: total_open_def)

lemma total_open_append [simp]: "total_open (xs @ ys) = total_open xs + total_open ys"
  by (simp add: total_open_def)

lemma total_open_bounds:
  "\<forall>s \<in> set ss. 0 \<le> weight s \<Longrightarrow> 0 \<le> total_open ss \<and> total_open ss \<le> sum_list (map weight ss)"
  by (induction ss) (auto simp: open_weight_def)

lemma sum_rows_total: "fst (sum_rows a ss) = a + total_open ss"
  by (induction a ss rule: sum_rows.induct)
    (auto simp: open_weight_def case_prod_unfold Let_def)

lemma sum_rows_length [simp]: "length (snd (sum_rows a ss)) = length ss"
  by (induction a ss rule: sum_rows.induct) (auto simp: case_prod_unfold Let_def)

lemma sum_rows_same:
  "map rank (snd (sum_rows a ss)) = map rank ss \<and> map weight (snd (sum_rows a ss)) = map weight ss"
  by (induction a ss rule: sum_rows.induct) (auto simp: case_prod_unfold Let_def)

lemma sum_rows_rank [simp]: "i < length ss \<Longrightarrow> rank (snd (sum_rows a ss) ! i) = rank (ss ! i)"
  using sum_rows_same [of a ss] by (metis nth_map sum_rows_length)

text \<open>
  The row that is selected for \<open>r\<close>: the first one without a rank whose cumulative weight
  reaches \<open>r\<close>.
\<close>

lemma select_row_shift: "select_row r (row + k) ss = select_row r row ss + k"
  by (induction r row ss rule: select_row.induct) (auto simp: algebra_simps)

lemma select_row_from: "select_row r row ss = row + select_row r 0 ss"
  using select_row_shift [of r 0 row ss] by simp

lemma select_row_spec:
  assumes "\<forall>s \<in> set ss. 0 \<le> weight s" "0 \<le> a" "a + sum_list (map weight ss) < 2 ^ 31"
    and "n = select_row r 0 (snd (sum_rows a ss))"
  shows "n \<le> length ss \<and>
    (\<forall>i < n. rank (ss ! i) = 0 \<longrightarrow> a + total_open (take (Suc i) ss) < r) \<and>
    (n < length ss \<longrightarrow> rank (ss ! n) = 0 \<and> r \<le> a + total_open (take (Suc n) ss))"
  using assms
proof (induction ss arbitrary: a n)
  case Nil
  then show ?case by simp
next
  case (Cons s ss)
  let ?a = "a + open_weight s" and ?m = "select_row r 0 (snd (sum_rows (a + open_weight s) ss))"
  have rest: "0 \<le> sum_list (map weight ss)"
    using Cons.prems(1) by (auto intro!: sum_list_nonneg)
  have here: "to_int32 (a + weight s) = a + weight s"
    using Cons.prems rest by (intro to_int32_id) auto
  have IH: "?m \<le> length ss \<and>
    (\<forall>i < ?m. rank (ss ! i) = 0 \<longrightarrow> ?a + total_open (take (Suc i) ss) < r) \<and>
    (?m < length ss \<longrightarrow> rank (ss ! ?m) = 0 \<and> r \<le> ?a + total_open (take (Suc ?m) ss))"
    using Cons.prems rest by (intro Cons.IH) (auto simp: open_weight_def)
  show ?case
  proof (cases "rank s = 0 \<and> r \<le> a + weight s")
    case True
    then have "n = 0" using Cons.prems(4) here by (simp add: case_prod_unfold Let_def)
    then show ?thesis using True by (simp add: open_weight_def)
  next
    case False
    then have n: "n = Suc ?m"
      using Cons.prems(4) here select_row_from [of r "Suc 0" "snd (sum_rows (a + open_weight s) ss)"]
      by (auto simp: case_prod_unfold Let_def open_weight_def)
    have "rank ((s # ss) ! i) = 0 \<Longrightarrow> a + total_open (take (Suc i) (s # ss)) < r" if "i < n" for i
      using IH False that n by (cases i) (auto simp: open_weight_def)
    then show ?thesis using IH n by (auto simp: add.assoc)
  qed
qed

text \<open>The last row without a rank carries the whole sum.\<close>

lemma last_open_row:
  "\<exists>s \<in> set ss. rank s = 0 \<Longrightarrow>
    \<exists>i < length ss. rank (ss ! i) = 0 \<and> total_open (take (Suc i) ss) = total_open ss"
proof (induction ss rule: rev_induct)
  case (snoc s ss)
  show ?case
  proof (cases "rank s = 0")
    case True
    then show ?thesis by (intro exI [of _ "length ss"]) simp
  next
    case False
    with snoc obtain i where i: "i < length ss" "rank (ss ! i) = 0"
      "total_open (take (Suc i) ss) = total_open ss"
      by auto
    then show ?thesis
      using False by (intro exI [of _ i]) (auto simp: nth_append open_weight_def Suc_leI)
  qed
qed simp

lemma total_open_mono:
  assumes "\<forall>s \<in> set ss. 0 \<le> weight s" "i \<le> j"
  shows "total_open (take i ss) \<le> total_open (take j ss)"
proof -
  have "take j ss = take i ss @ drop i (take j ss)"
    using assms(2) by (metis append_take_drop_id min.absorb1 take_take)
  moreover have "0 \<le> total_open (drop i (take j ss))"
    using total_open_bounds [of "drop i (take j ss)"] assms(1)
    by (meson in_set_dropD in_set_takeD)
  ultimately show ?thesis by (metis total_open_append le_add_same_cancel1)
qed

text \<open>Row \<open>i\<close> owns the interval of \<open>r\<close> between the sums before and after it.\<close>

lemma select_row_iff:
  assumes ok: "rows_ok ss" and i: "i < length ss" "rank (ss ! i) = 0"
  shows "select_row r 0 (snd (sum_rows 0 ss)) = i \<longleftrightarrow>
    r \<le> total_open (take (Suc i) ss) \<and>
    (total_open (take i ss) < r \<or> (\<forall>j < i. rank (ss ! j) \<noteq> 0))"
proof -
  let ?n = "select_row r 0 (snd (sum_rows 0 ss))" and ?T = "\<lambda>k. total_open (take k ss)"
  have nonneg: "\<forall>s \<in> set ss. 0 \<le> weight s" using ok by (simp add: rows_ok_def)
  have sp: "?n \<le> length ss" "\<And>j. j < ?n \<Longrightarrow> rank (ss ! j) = 0 \<Longrightarrow> ?T (Suc j) < r"
    "?n < length ss \<Longrightarrow> rank (ss ! ?n) = 0 \<and> r \<le> ?T (Suc ?n)"
    using select_row_spec [of ss 0 ?n r] ok by (auto simp: rows_ok_def)
  show ?thesis
  proof
    assume n: "?n = i"
    have "?T i < r" if "j < i" "rank (ss ! j) = 0" for j
    proof -
      have "\<exists>s \<in> set (take i ss). rank s = 0"
        using that i by (auto simp: in_set_conv_nth intro!: bexI [of _ "ss ! j"] exI [of _ j])
      from last_open_row [OF this] obtain m where
        "m < i" "rank (ss ! m) = 0" "?T (Suc m) = ?T i"
        using i(1) by (auto simp: min_def)
      then show ?thesis using sp(2) [of m] n by simp
    qed
    then show "r \<le> ?T (Suc i) \<and> (?T i < r \<or> (\<forall>j < i. rank (ss ! j) \<noteq> 0))"
      using sp(3) n i by auto
  next
    assume r: "r \<le> ?T (Suc i) \<and> (?T i < r \<or> (\<forall>j < i. rank (ss ! j) \<noteq> 0))"
    have "\<not> i < ?n" using sp(2) [of i] i r by auto
    moreover have "\<not> ?n < i"
    proof
      assume n: "?n < i"
      then have "rank (ss ! ?n) = 0" "r \<le> ?T (Suc ?n)" using sp(3) i by auto
      moreover have "?T (Suc ?n) \<le> ?T i" using n by (intro total_open_mono [OF nonneg]) simp
      ultimately show False using r n by auto
    qed
    ultimately show "?n = i" by simp
  qed
qed

lemma get_next_row_eq:
  assumes "rows \<le> length ctx" "rows_ok (take rows ctx)" "rand_r seed = (v, seed')"
  shows "get_next_row rand_r ctx rows seed =
    (let used = snd (sum_rows 0 (take rows ctx))
     in Inr (select_row (int v mod (total_open (take rows ctx) + 1)) 0 used, used @ drop rows ctx, seed'))"
proof -
  let ?S = "total_open (take rows ctx)"
  have S: "0 \<le> ?S" "?S < 2 ^ 31"
    using total_open_bounds [of "take rows ctx"] assms(2) by (auto simp: rows_ok_def)
  obtain used where used: "sum_rows 0 (take rows ctx) = (?S, used)"
    using sum_rows_total [of 0 "take rows ctx"] by (cases "sum_rows 0 (take rows ctx)") simp
  have smod: "int v smod (?S + 1) = int v mod (?S + 1)"
    using S by (cases "v = 0") (simp_all add: signed_modulo_int_def)
  have "0 \<le> int v mod (?S + 1)"
    using S by (intro pos_mod_sign) simp
  moreover have "int v mod (?S + 1) < ?S + 1"
    using S by (intro pos_mod_bound) simp
  ultimately have "to_int32 (int v smod (?S + 1)) = int v mod (?S + 1)"
    using S unfolding smod by (intro to_int32_id; linarith)
  then show ?thesis
    using assms(1,3) S by (simp add: get_next_row_def used)
qed

lemma get_next_row_open:
  assumes "rows \<le> length ctx" "rows_ok (take rows ctx)" "\<exists>s \<in> set (take rows ctx). rank s = 0"
  shows "\<exists>n ctx' seed'. get_next_row rand_r ctx rows seed = Inr (n, ctx', seed') \<and>
    n < rows \<and> rank (ctx ! n) = 0 \<and> length ctx' = length ctx \<and>
    map rank ctx' = map rank ctx \<and> map weight ctx' = map weight ctx"
proof -
  obtain v seed' where v: "rand_r seed = (v, seed')" by (cases "rand_r seed")
  let ?ss = "take rows ctx"
  let ?r = "int v mod (total_open ?ss + 1)"
  let ?n = "select_row ?r 0 (snd (sum_rows 0 ?ss))"
  have "0 \<le> total_open ?ss"
    using total_open_bounds [of ?ss] assms(2) by (auto simp: rows_ok_def)
  then have "?r < total_open ?ss + 1" by (intro pos_mod_bound) simp
  moreover from last_open_row [OF assms(3)] obtain i where
    "i < length ?ss" "rank (?ss ! i) = 0" "total_open (take (Suc i) ?ss) = total_open ?ss"
    by blast
  moreover have sp: "?n \<le> length ?ss" "\<forall>j < ?n. rank (?ss ! j) = 0 \<longrightarrow> total_open (take (Suc j) ?ss) < ?r"
    "?n < length ?ss \<longrightarrow> rank (?ss ! ?n) = 0"
    using select_row_spec [of ?ss 0 ?n ?r] assms(2) by (auto simp: rows_ok_def)
  ultimately have "?n < length ?ss" by (cases "?n = length ?ss") auto
  moreover have "map f (snd (sum_rows 0 ?ss) @ drop rows ctx) = map f ctx"
    if "f = rank \<or> f = weight" for f
    using that sum_rows_same [of 0 ?ss] by (metis append_take_drop_id map_append)
  ultimately show ?thesis
    using sp(3) assms(1) get_next_row_eq [where rand_r = rand_r, OF assms(1) assms(2) v]
    by (auto simp: Let_def)
qed

section \<open>The ranks\<close>

text \<open>After \<open>k\<close> rounds the ranks given are 1 to \<open>k\<close>, each once.\<close>

definition ranked :: "nat \<Rightarrow> nat \<Rightarrow> rank_ctx \<Rightarrow> bool" where
  "ranked k rows ctx \<longleftrightarrow> rows \<le> length ctx \<and> rows_ok (take rows ctx) \<and>
     mset (filter (\<lambda>x. x \<noteq> 0) (map rank (take rows ctx))) = mset (map int [1..<Suc k])"

lemma ranked_open:
  assumes "ranked k rows ctx" "k < rows"
  shows "\<exists>s \<in> set (take rows ctx). rank s = 0"
proof (rule ccontr)
  assume "\<not> ?thesis"
  then have "filter (\<lambda>x. x \<noteq> 0) (map rank (take rows ctx)) = map rank (take rows ctx)"
    by (simp add: filter_id_conv)
  then have "rows = k"
    using assms(1) by (metis (no_types, lifting) ranked_def diff_Suc_1 length_map length_upt
        length_take min.absorb2 size_mset One_nat_def)
  with assms(2) show False by simp
qed

lemma mset_filter_update:
  assumes "n < length xs" "xs ! n = 0" "y \<noteq> (0 :: int)"
  shows "mset (filter (\<lambda>x. x \<noteq> 0) (xs[n := y])) = add_mset y (mset (filter (\<lambda>x. x \<noteq> 0) xs))"
  using assms by (simp only: mset_filter mset_update) simp

lemma rows_ok_cong: "map weight ss = map weight ts \<Longrightarrow> rows_ok ss = rows_ok ts"
proof -
  have "rows_ok us \<longleftrightarrow> (\<forall>w \<in> set (map weight us). 0 \<le> w) \<and> sum_list (map weight us) < 2 ^ 31" for us
    by (simp add: rows_ok_def)
  then show "map weight ss = map weight ts \<Longrightarrow> rows_ok ss = rows_ok ts" by (simp only:)
qed

lemma map_update_same: "f y = f (xs ! n) \<Longrightarrow> map f (xs[n := y]) = map f xs"
  by (metis list_update_id map_update)

lemma ranked_step:
  assumes "ranked k rows ctx" "n < rows" "rank (ctx ! n) = 0" "k < 2 ^ 31 - 1"
    and "length ctx' = length ctx" "map rank ctx' = map rank ctx" "map weight ctx' = map weight ctx"
  shows "ranked (Suc k) rows (ctx'[n := (ctx' ! n)\<lparr>rank := to_int32 (int (k + 1))\<rparr>])"
proof -
  let ?y = "(ctx' ! n)\<lparr>rank := to_int32 (int (k + 1))\<rparr>"
  have len: "n < length ctx'" "rows \<le> length ctx'" using assms by (auto simp: ranked_def)
  have k: "to_int32 (int (k + 1)) = int (Suc k)" using assms(4) by (simp add: to_int32_id)
  have "map rank (take rows (ctx'[n := ?y])) = (map rank (take rows ctx))[n := int (Suc k)]"
    using k assms(6) by (simp add: map_update take_update_swap flip: take_map)
  moreover have "map weight (take rows (ctx'[n := ?y])) = map weight (take rows ctx)"
    using assms(7) by (simp add: map_update_same flip: take_map)
  then have "rows_ok (take rows (ctx'[n := ?y])) = rows_ok (take rows ctx)"
    by (rule rows_ok_cong)
  then have "rows_ok (take rows (ctx'[n := ?y]))"
    using assms(1) by (simp add: ranked_def)
  moreover have "mset (filter (\<lambda>x. x \<noteq> 0) ((map rank (take rows ctx))[n := int (Suc k)])) =
      mset (map int [1..<Suc (Suc k)])"
    using assms(1-3) by (subst mset_filter_update) (auto simp: ranked_def)
  ultimately show ?thesis using len by (simp add: ranked_def)
qed

lemma rank_loop_ranked:
  assumes "ranked k rows ctx" "k \<le> rows" "rows < 2 ^ 31"
  shows "\<exists>ctx'. rank_loop rand_r ctx rows seed k = Inr ctx' \<and> ranked rows rows ctx' \<and>
    length ctx' = length ctx"
  using assms
proof (induction "rows - k" arbitrary: k ctx seed)
  case 0
  then have "rows = k" by simp
  moreover have "rank_loop rand_r ctx k seed k = Inr ctx"
    by (subst rank_loop.simps) simp
  ultimately show ?case using 0 by auto
next
  case (Suc d)
  then have k: "k < rows" by simp
  from ranked_open [OF Suc.prems(1) k] have op: "\<exists>s \<in> set (take rows ctx). rank s = 0" .
  obtain n ctx' seed' where g: "get_next_row rand_r ctx rows seed = Inr (n, ctx', seed')"
    "n < rows" "rank (ctx ! n) = 0" "length ctx' = length ctx"
    "map rank ctx' = map rank ctx" "map weight ctx' = map weight ctx"
    using get_next_row_open [OF _ _ op, of rand_r seed] Suc.prems(1) by (auto simp: ranked_def)
  let ?c = "ctx'[n := (ctx' ! n)\<lparr>rank := to_int32 (int (k + 1))\<rparr>]"
  have n: "n < length ctx'" using g Suc.prems(1) by (simp add: ranked_def)
  have "ranked (Suc k) rows ?c"
    using Suc.prems k g by (intro ranked_step) auto
  moreover have "d = rows - Suc k" using Suc.hyps(2) by simp
  ultimately obtain c where
    "rank_loop rand_r ?c rows seed' (Suc k) = Inr c" "ranked rows rows c" "length c = length ?c"
    using Suc.hyps(1) [of "Suc k" ?c seed'] Suc.prems(3) k Suc_leI [OF k] by blast
  then show ?case
    using k g n by (simp add: rank_loop.simps [of rand_r ctx rows seed k] ctx_store_def)
qed

text \<open>\<open>fill_weights\<close> in a context that is large enough, and in one that is not.\<close>

lemma fill_weights_eq:
  "row + length vs \<le> length ctx \<Longrightarrow>
    \<exists>ctx'. fill_weights ctx row vs = Inr ctx' \<and> length ctx' = length ctx \<and>
      map rank ctx' = map rank ctx \<and>
      map weight ctx' = take row (map weight ctx) @ map weight_of vs @ drop (row + length vs) (map weight ctx)"
proof (induction vs arbitrary: ctx row)
  case (Cons v vs)
  let ?c = "ctx[row := (ctx ! row)\<lparr>weight := weight_of v\<rparr>]"
  have row: "row < length ctx" using Cons.prems by simp
  from Cons.IH [of "row + 1" ?c] Cons.prems obtain ctx' where
    c: "fill_weights ?c (row + 1) vs = Inr ctx'" "length ctx' = length ctx"
      "map rank ctx' = map rank ?c"
      "map weight ctx' = take (row + 1) (map weight ?c) @ map weight_of vs @
         drop (row + 1 + length vs) (map weight ?c)"
    by auto
  have "map rank ?c = map rank ctx" by (simp add: map_update_same)
  moreover have "take (row + 1) (map weight ?c) = take row (map weight ctx) @ [weight_of v]"
    using row by (simp add: map_update take_Suc_conv_app_nth)
  moreover have "drop (row + 1 + length vs) (map weight ?c) = drop (row + 1 + length vs) (map weight ctx)"
    by (simp add: map_update)
  moreover have "fill_weights ctx row (v # vs) = Inr ctx'"
    using c(1) row by (simp add: ctx_store_def weight_of_def)
  ultimately show ?case using c by auto
qed simp

lemma fill_weights_overflow:
  "row \<le> length ctx \<Longrightarrow> length ctx < row + length vs \<Longrightarrow> fill_weights ctx row vs = Inl OutOfBounds"
proof (induction vs arbitrary: ctx row)
  case (Cons v vs)
  show ?case
  proof (cases "row < length ctx")
    case True
    then show ?thesis using Cons.IH [of "row + 1"] Cons.prems by (simp add: ctx_store_def)
  qed (simp add: ctx_store_def)
qed simp

lemma fill_distribution_ranks:
  assumes "length ws \<le> CTX_MAX_ROWS" "\<forall>w \<in> set ws. 0 \<le> weight_of w"
    "sum_list (map weight_of ws) < 2 ^ 31"
  shows "\<exists>ctx. fill_distribution rand_r seed ws rank_ctx_new = Inr ctx \<and> length ctx = CTX_MAX_ROWS \<and>
    mset (map rank (take (length ws) ctx)) = mset (map int [1..<Suc (length ws)])"
proof -
  have new: "length rank_ctx_new = CTX_MAX_ROWS" by (simp add: rank_ctx_new_def)
  from fill_weights_eq [of 0 ws rank_ctx_new] assms(1) obtain c where
    c: "fill_weights rank_ctx_new 0 ws = Inr c" "length c = CTX_MAX_ROWS"
      "map rank c = map rank rank_ctx_new"
      "map weight c = map weight_of ws @ drop (length ws) (map weight rank_ctx_new)"
    by (auto simp: new)
  have "map weight (take (length ws) c) = map weight_of ws"
    using c(4) by (simp flip: take_map)
  then have "rows_ok (take (length ws) c)"
    using assms(2,3) unfolding rows_ok_def by (metis (no_types, lifting) imageE imageI set_map)
  moreover have "map rank (take (length ws) c) = replicate (length ws) 0"
    using c(3) assms(1) by (simp add: rank_ctx_new_def min_def flip: take_map)
  ultimately have "ranked 0 (length ws) c"
    using assms(1) c(2) by (simp add: ranked_def)
  moreover have "length ws < 2 ^ 31" using assms(1) by (simp add: CTX_MAX_ROWS_def)
  ultimately obtain ctx where ctx: "rank_loop rand_r c (length ws) seed 0 = Inr ctx"
    "ranked (length ws) (length ws) ctx" "length ctx = length c"
    using rank_loop_ranked [of 0 "length ws" c rand_r seed] by auto
  let ?ranks = "map rank (take (length ws) ctx)"
  have f: "mset (filter (\<lambda>x. x \<noteq> 0) ?ranks) = mset (map int [1..<Suc (length ws)])"
    using ctx(2) by (simp add: ranked_def)
  have "length (filter (\<lambda>x. x \<noteq> 0) ?ranks) = length ws"
    using arg_cong [OF f, of size] by (simp only: size_mset length_map length_upt diff_Suc_1)
  then have "length (filter (\<lambda>x. x \<noteq> 0) ?ranks) = length ?ranks"
    using ctx(3) c(2) assms(1) by (simp only: length_map length_take min.absorb2)
  then have "filter (\<lambda>x. x \<noteq> 0) ?ranks = ?ranks"
    by (metis filter_True length_filter_less less_irrefl)
  then show ?thesis using f ctx c by (simp add: fill_distribution_def Let_def)
qed

lemma run_window_rest:
  "length ctx = CTX_MAX_ROWS \<Longrightarrow> \<forall>r \<in> set rs. 0 < r \<and> r < CTX_MAX_ROWS \<Longrightarrow>
    run_window rand_r seed ws ctx rs = Inr (map (\<lambda>r. rank (ctx ! r)) rs)"
  by (induction rs) (auto simp: rank_dns_srv_def)

section \<open>Properties\<close>

text \<open>
  C3. On a partition of at most 20 rows with non-negative weights whose sum fits an int32, the
  window function ends without a fault and gives the rows the ranks 1 to n, each once,
  whatever the random numbers are.
\<close>

theorem rank_dns_srv_permutation:
  assumes "ws \<noteq> []" "length ws \<le> CTX_MAX_ROWS" "\<forall>w \<in> set ws. 0 \<le> weight_of w"
    "sum_list (map weight_of ws) < 2 ^ 31"
  shows "\<exists>ranks. run_window rand_r seed ws rank_ctx_new [0..<length ws] = Inr ranks \<and>
    length ranks = length ws \<and> distinct ranks \<and> set ranks = {1..int (length ws)}"
proof -
  from fill_distribution_ranks [OF assms(2-4)] obtain ctx where
    ctx: "fill_distribution rand_r seed ws rank_ctx_new = Inr ctx" "length ctx = CTX_MAX_ROWS"
      "mset (map rank (take (length ws) ctx)) = mset (map int [1..<Suc (length ws)])"
    by blast
  let ?ranks = "map rank (take (length ws) ctx)"
  have first: "rank_dns_srv rand_r seed ws rank_ctx_new 0 = Inr (rank (ctx ! 0), ctx)"
    using ctx(1,2) by (cases ctx) (simp_all add: rank_dns_srv_def CTX_MAX_ROWS_def)
  have "[0..<length ws] = 0 # [1..<length ws]"
    using assms(1) by (simp add: upt_rec)
  then have "run_window rand_r seed ws rank_ctx_new [0..<length ws] =
      Inr (map (\<lambda>r. rank (ctx ! r)) [0..<length ws])"
    using first run_window_rest [OF ctx(2), of "[1..<length ws]"] assms(2) by auto
  moreover have "map (\<lambda>r. rank (ctx ! r)) [0..<length ws] = ?ranks"
    using ctx(2) assms(2) by (intro nth_equalityI) auto
  moreover have "set ?ranks = set (map int [1..<Suc (length ws)])"
    using ctx(3) by (rule mset_eq_setD)
  moreover have "set (map int [1..<Suc (length ws)]) = {1..int (length ws)}"
    using image_int_atLeastAtMost [of 1 "length ws"]
    by (simp only: set_map set_upt atLeastLessThanSuc_atLeastAtMost) simp
  moreover have "distinct ?ranks = distinct (map int [1..<Suc (length ws)])"
    using ctx(3) by (rule mset_eq_imp_distinct_iff)
  moreover have "length ?ranks = length ws" using ctx(2) assms(2) by simp
  ultimately show ?thesis by (auto simp: distinct_map)
qed

theorem rank_dns_srv_permutation_witness:
  "\<exists>ranks. run_window (\<lambda>s. (unat s, s + 1)) 7 [Some 10, None, Some 5] rank_ctx_new [0..<3] = Inr ranks \<and>
    length ranks = 3 \<and> distinct ranks \<and> set ranks = {1..3}"
  using rank_dns_srv_permutation [of "[Some 10, None, Some 5]" "\<lambda>s. (unat s, s + 1)" 7]
  by (simp add: weight_of_def CTX_MAX_ROWS_def eval_nat_numeral del: run_window.simps)

text \<open>
  C30. The draw is weighted: of the values 0 to S of the random number (S the sum of the
  weights of the rows without a rank), a row without a rank is chosen by as many as its
  weight, and the first such row by one more.
\<close>

theorem get_next_row_weighted:
  assumes "rows \<le> length ctx" "rows_ok (take rows ctx)" "i < rows" "rank (ctx ! i) = 0"
  shows "card {v \<in> {0..nat (total_open (take rows ctx))}.
      \<exists>ctx' seed'. get_next_row (\<lambda>s. (v, s)) ctx rows seed = Inr (i, ctx', seed')} =
    nat (weight (ctx ! i)) + (if \<forall>j < i. rank (ctx ! j) \<noteq> 0 then 1 else 0)"
proof -
  let ?ss = "take rows ctx" and ?T = "\<lambda>k. total_open (take k (take rows ctx))"
  have nonneg: "\<forall>s \<in> set ?ss. 0 \<le> weight s" using assms(2) by (simp add: rows_ok_def)
  have T: "0 \<le> ?T i" "?T (Suc i) = ?T i + weight (ctx ! i)" "?T (Suc i) \<le> total_open ?ss"
    using total_open_mono [OF nonneg, of 0 i] total_open_mono [OF nonneg, of "Suc i" "length ?ss"]
      assms by (auto simp: take_Suc_conv_app_nth open_weight_def)
  have w: "0 \<le> weight (ctx ! i)"
    using nonneg assms by (auto simp: set_conv_nth)
  have "(\<exists>ctx' seed'. get_next_row (\<lambda>s. (v, s)) ctx rows seed = Inr (i, ctx', seed')) \<longleftrightarrow>
      int v \<le> ?T (Suc i) \<and> (?T i < int v \<or> (\<forall>j < i. rank (ctx ! j) \<noteq> 0))"
    if "v \<le> nat (total_open ?ss)" for v
  proof -
    have "int v mod (total_open ?ss + 1) = int v"
      using that T w by (intro mod_pos_pos_trivial) auto
    then show ?thesis
      using get_next_row_eq [where rand_r = "\<lambda>s. (v, s)" and seed = seed, OF assms(1,2) refl]
        select_row_iff [OF assms(2), of i "int v"] assms(1,3,4)
      by (simp add: Let_def)
  qed
  then have "{v \<in> {0..nat (total_open ?ss)}.
      \<exists>ctx' seed'. get_next_row (\<lambda>s. (v, s)) ctx rows seed = Inr (i, ctx', seed')} =
    {v \<in> {0..nat (total_open ?ss)}. int v \<le> ?T (Suc i) \<and> (?T i < int v \<or> (\<forall>j < i. rank (ctx ! j) \<noteq> 0))}"
    by (intro Collect_cong conj_cong refl) simp
  also have "\<dots> =
    (if \<forall>j < i. rank (ctx ! j) \<noteq> 0 then {0..nat (?T (Suc i))} else {nat (?T i)<..nat (?T (Suc i))})"
    using T(1,3) w unfolding T(2) by (simp, safe, simp_all add: nat_le_iff le_nat_iff; linarith)
  finally have set: "{v \<in> {0..nat (total_open ?ss)}.
      \<exists>ctx' seed'. get_next_row (\<lambda>s. (v, s)) ctx rows seed = Inr (i, ctx', seed')} =
    (if \<forall>j < i. rank (ctx ! j) \<noteq> 0 then {0..nat (?T (Suc i))} else {nat (?T i)<..nat (?T (Suc i))})" .
  have "?T i = 0" if "\<forall>j < i. rank (ctx ! j) \<noteq> 0"
  proof -
    have "\<forall>s \<in> set (take i ?ss). open_weight s = 0"
      using that assms by (auto simp: set_conv_nth open_weight_def)
    then have "map open_weight (take i ?ss) = map (\<lambda>_. 0) (take i ?ss)" by simp
    then show ?thesis unfolding total_open_def by (simp only:) simp
  qed
  then show ?thesis
    using T w unfolding set by (auto simp: nat_add_distrib)
qed

theorem get_next_row_weighted_witness:
  "card {v \<in> {0..5}. \<exists>ctx' seed'. get_next_row (\<lambda>s. (v, s))
      [\<lparr>rank = 0, weight = 2, w_sum = 0\<rparr>, \<lparr>rank = 0, weight = 3, w_sum = 0\<rparr>] 2 9 =
      Inr (1, ctx', seed')} = 3"
  using get_next_row_weighted [of 2 "[\<lparr>rank = 0, weight = 2, w_sum = 0\<rparr>,
      \<lparr>rank = 0, weight = 3, w_sum = 0\<rparr>]" 1 9]
  by (simp add: rows_ok_def open_weight_def)

text \<open>
  C38. On a partition of more than 20 rows the first call writes past the context: the clamp of
  \<open>fill_distribution\<close> assigns the wrong variable, so the value 21 for the rows from the
  twenty-first on is never reached.
\<close>

theorem rank_dns_srv_overflow:
  assumes "CTX_MAX_ROWS < length ws"
  shows "rank_dns_srv rand_r seed ws rank_ctx_new 0 = Inl OutOfBounds"
  using assms fill_weights_overflow [of 0 rank_ctx_new ws]
  by (simp add: rank_dns_srv_def fill_distribution_def rank_ctx_new_def Let_def)

theorem rank_dns_srv_overflow_witness:
  "rank_dns_srv (\<lambda>s. (unat s, s)) 0 (replicate 21 (Some 1)) rank_ctx_new 0 = Inl OutOfBounds"
  by (rule rank_dns_srv_overflow) (simp add: CTX_MAX_ROWS_def)

text \<open>A negative weight can make the divisor zero.\<close>

lemma negative_weight_traps:
  "rank_dns_srv (\<lambda>s. (unat s, s)) 0 [Some (-1)] rank_ctx_new 0 = Inl DivByZero"
  by code_simp

end
