(* ===== verification/Uri_Parser.thy ===== *)
theory Uri_Parser
  imports C_Strings
begin

text \<open>
  \<open>parseAddr\<close> of src/uri_parser.c: \<open>proto://host:port\<close> into the fixed-size fields of
  \<open>UriComponents\<close>. The address is the text a \<open>const char *\<close> points to, up to its NUL; None
  is the NULL pointer. A \<open>strncpy\<close> beyond its field is the fault \<open>OutOfBounds\<close>.
\<close>

section \<open>The program\<close>

definition SOCKADDR_SIZE :: nat where "SOCKADDR_SIZE = 128"
definition PROTOCOL_SIZE :: nat where "PROTOCOL_SIZE = 16"
definition HOST_SIZE :: nat where "HOST_SIZE = 64"

record uri_components =
  proto :: bytes
  host :: bytes
  port :: int

definition uri_zero :: uri_components where
  "uri_zero = \<lparr>proto = zeros (PROTOCOL_SIZE + 1), host = zeros (HOST_SIZE + 1), port = 0\<rparr>"

text \<open>The copy of a component of \<open>sz\<close> bytes that is skipped when it is empty or too long.\<close>

definition copy_component :: "bytes \<Rightarrow> bytes \<Rightarrow> nat \<Rightarrow> nat \<Rightarrow> bytes res" where
  "copy_component dst addr sz limit =
     (if sz > 0 \<and> sz \<le> limit then strncpy dst addr sz else Inr dst)"

definition parse_proto :: "bytes \<Rightarrow> uri_components \<Rightarrow> (uri_components \<times> bytes) res" where
  "parse_proto addr u =
     (case memmem ''://'' addr of
        None \<Rightarrow> Inr (u, addr)
      | Some n \<Rightarrow>
          rbind (copy_component (proto u) addr n PROTOCOL_SIZE)
            (\<lambda>p. Inr (u\<lparr>proto := p\<rparr>, drop (n + length ''://'') addr)))"

definition parse_host :: "bytes \<Rightarrow> uri_components \<Rightarrow> uri_components res" where
  "parse_host addr u =
     (case memchr (CHR '':'') addr of
        Some n \<Rightarrow>
          rbind (copy_component (host u) addr n HOST_SIZE)
            (\<lambda>h. Inr (u\<lparr>host := h, port := atoi (drop (n + 1) addr)\<rparr>))
      | None \<Rightarrow>
          rbind (copy_component (host u) addr (length addr) HOST_SIZE)
            (\<lambda>h. rbind (strncpy h addr (length addr)) (\<lambda>h'. Inr (u\<lparr>host := h'\<rparr>))))"

definition parseAddr :: "bytes option \<Rightarrow> uri_components option \<Rightarrow> (int \<times> uri_components option) res" where
  "parseAddr addr out =
     (case addr of
        None \<Rightarrow> Inr (-1, out)
      | Some a \<Rightarrow>
          if length a = 0 \<or> length a \<ge> SOCKADDR_SIZE then Inr (-1, out)
          else (case out of
                  None \<Rightarrow> Inr (-1, None)
                | Some _ \<Rightarrow>
                    rbind (parse_proto a uri_zero)
                      (\<lambda>(u, rest). rbind (parse_host rest u) (\<lambda>u'. Inr (0, Some u')))))"

section \<open>Specification\<close>

text \<open>The text of an address, with an optional protocol and an optional port.\<close>

definition uri_text :: "bytes option \<Rightarrow> bytes \<Rightarrow> nat option \<Rightarrow> bytes" where
  "uri_text p h n =
     (case p of None \<Rightarrow> [] | Some x \<Rightarrow> x @ ''://'') @ h @
     (case n of None \<Rightarrow> [] | Some k \<Rightarrow> CHR '':'' # dec k)"

definition component_ok :: "nat \<Rightarrow> bytes \<Rightarrow> bool" where
  "component_ok sz s \<longleftrightarrow> s \<noteq> [] \<and> length s \<le> sz \<and> NUL \<notin> set s \<and> CHR '':'' \<notin> set s"

definition uri_ok :: "bytes option \<Rightarrow> bytes \<Rightarrow> nat option \<Rightarrow> bool" where
  "uri_ok p h n \<longleftrightarrow>
     (case p of None \<Rightarrow> True | Some x \<Rightarrow> component_ok PROTOCOL_SIZE x) \<and>
     component_ok HOST_SIZE h \<and>
     (case n of None \<Rightarrow> True | Some k \<Rightarrow> k < 2 ^ 31) \<and>
     length (uri_text p h n) < SOCKADDR_SIZE"

definition uri_denotes :: "uri_components \<Rightarrow> bytes option \<Rightarrow> bytes \<Rightarrow> nat option \<Rightarrow> bool" where
  "uri_denotes u p h n \<longleftrightarrow>
     cstr (proto u) = Inr (case p of None \<Rightarrow> [] | Some x \<Rightarrow> x) \<and>
     cstr (host u) = Inr h \<and>
     port u = (case n of None \<Rightarrow> 0 | Some k \<Rightarrow> int k)"

text \<open>What is left of an address after the protocol.\<close>

definition after_proto :: "bytes \<Rightarrow> bytes" where
  "after_proto a = (case memmem ''://'' a of None \<Rightarrow> a | Some n \<Rightarrow> drop (n + length ''://'') a)"

section \<open>Lemmas\<close>

interpretation scheme: first_match "''://''" "memmem ''://''"
  by (rule first_match_memmem) simp

lemma strncpy_slot:
  assumes "NUL \<notin> set s" "length s < sz"
  shows "strncpy (zeros sz) (s @ t) (length s) = Inr (s @ zeros (sz - length s))"
  using assms by (simp add: strncpy_def takeWhile_append flip: replicate_add)

lemma strncpy_again:
  assumes "NUL \<notin> set s" "length s < sz"
  shows "strncpy (s @ zeros (sz - length s)) s (length s) = Inr (s @ zeros (sz - length s))"
  using assms by (simp add: strncpy_def)

lemma scheme_found:
  assumes "CHR '':'' \<notin> set p"
  shows "memmem ''://'' (p @ ''://'' @ t) = Some (length p)"
proof (rule scheme.find_eqI)
  fix j assume "j < length p"
  then have "drop j (p @ ''://'' @ t) = p ! j # drop (Suc j) (p @ ''://'' @ t)"
    by (metis Cons_nth_drop_Suc length_append nth_append trans_less_add1)
  moreover have "p ! j \<noteq> CHR '':''" using assms \<open>j < length p\<close> by (metis nth_mem)
  ultimately show "\<not> prefix ''://'' (drop j (p @ ''://'' @ t))" by simp
qed simp

lemma dec_no_slash: "CHR ''/'' \<notin> set (dec k)"
  using dec_digits [of "CHR ''/''" k] by (auto simp: is_digit_def char_code_def)

lemma scheme_not_found:
  assumes "CHR '':'' \<notin> set h"
  shows "memmem ''://'' (h @ (case n of None \<Rightarrow> [] | Some k \<Rightarrow> CHR '':'' # dec k)) = None"
    (is "memmem _ ?t = None")
proof (rule ccontr)
  assume "memmem ''://'' ?t \<noteq> None"
  then obtain i where "memmem ''://'' ?t = Some i" by blast
  from scheme.hit_split [OF this] obtain xs ys where
    eq: "?t = xs @ ''://'' @ ys" by blast
  show False
  proof (cases n)
    case None
    then have "CHR '':'' \<in> set h" using eq by simp
    with assms show False by simp
  next
    case (Some k)
    then have "CHR ''/'' \<in> set (dec k)"
      using eq assms by (auto simp: append_eq_append_conv2 Cons_eq_append_conv append_eq_Cons_conv)
    with dec_no_slash show False by simp
  qed
qed

lemma parse_host_ok:
  assumes "component_ok HOST_SIZE h" "host u = zeros (HOST_SIZE + 1)" "port u = 0"
    "case n of None \<Rightarrow> True | Some k \<Rightarrow> k < 2 ^ 31"
  shows "parse_host (h @ (case n of None \<Rightarrow> [] | Some k \<Rightarrow> CHR '':'' # dec k)) u =
    Inr (u\<lparr>host := h @ zeros (HOST_SIZE + 1 - length h),
           port := (case n of None \<Rightarrow> 0 | Some k \<Rightarrow> int k)\<rparr>)"
proof -
  have h: "NUL \<notin> set h" "length h < HOST_SIZE + 1" "CHR '':'' \<notin> set h" "h \<noteq> []"
    using assms(1) by (auto simp: component_ok_def)
  have slot: "strncpy (zeros (HOST_SIZE + 1)) (h @ t) (length h) =
      Inr (h @ zeros (HOST_SIZE + 1 - length h))" for t
    using h by (rule_tac strncpy_slot)
  show ?thesis
  proof (cases n)
    case None
    moreover have "memchr (CHR '':'') h = None" using h by (simp add: memchr_None_iff)
    ultimately show ?thesis
      using slot [of "[]"] strncpy_again [OF h(1,2)] h assms(2,3)
      by (simp add: parse_host_def copy_component_def)
  next
    case (Some k)
    then have "atoi (dec k) = int k" using assms(4) by (simp add: atoi_dec)
    moreover have "memchr (CHR '':'') (h @ CHR '':'' # dec k) = Some (length h)"
      using h(3) by (simp add: memchr_append_notin)
    ultimately show ?thesis
      using slot h assms(2) Some by (simp add: parse_host_def copy_component_def)
  qed
qed

lemma parseAddr_parts:
  assumes "uri_ok p h n"
  shows "\<exists>u. parseAddr (Some (uri_text p h n)) (Some u0) = Inr (0, Some u) \<and> uri_denotes u p h n"
proof -
  let ?t = "h @ (case n of None \<Rightarrow> [] | Some k \<Rightarrow> CHR '':'' # dec k)"
  have h: "component_ok HOST_SIZE h" and n: "case n of None \<Rightarrow> True | Some k \<Rightarrow> k < 2 ^ 31"
    and len: "length (uri_text p h n) < SOCKADDR_SIZE" and ne: "uri_text p h n \<noteq> []"
    using assms by (auto simp: uri_ok_def uri_text_def component_ok_def)
  have "\<exists>u. parse_proto (uri_text p h n) uri_zero = Inr (u, ?t) \<and> host u = zeros (HOST_SIZE + 1) \<and>
      port u = 0 \<and> cstr (proto u) = Inr (case p of None \<Rightarrow> [] | Some x \<Rightarrow> x)"
  proof (cases p)
    case None
    moreover have "memmem ''://'' ?t = None"
      using h scheme_not_found by (simp add: component_ok_def)
    ultimately show ?thesis
      by (simp add: parse_proto_def uri_text_def uri_zero_def)
  next
    case (Some x)
    then have x: "component_ok PROTOCOL_SIZE x" using assms by (simp add: uri_ok_def)
    then have "memmem ''://'' (x @ ''://'' @ ?t) = Some (length x)"
      by (intro scheme_found) (simp add: component_ok_def)
    moreover have "strncpy (zeros (PROTOCOL_SIZE + 1)) (x @ ''://'' @ ?t) (length x) =
        Inr (x @ zeros (PROTOCOL_SIZE + 1 - length x))"
      using x by (intro strncpy_slot) (auto simp: component_ok_def)
    moreover have "cstr (x @ zeros (PROTOCOL_SIZE + 1 - length x)) = Inr x"
      using x by (intro cstr_padded) (auto simp: component_ok_def)
    ultimately show ?thesis
      using x Some
      by (simp add: parse_proto_def uri_text_def uri_zero_def copy_component_def component_ok_def)
  qed
  then obtain u where u: "parse_proto (uri_text p h n) uri_zero = Inr (u, ?t)"
    "host u = zeros (HOST_SIZE + 1)" "port u = 0"
    "cstr (proto u) = Inr (case p of None \<Rightarrow> [] | Some x \<Rightarrow> x)"
    by blast
  have "cstr (h @ zeros (HOST_SIZE + 1 - length h)) = Inr h"
    using h by (intro cstr_padded) (auto simp: component_ok_def)
  then show ?thesis
    using u parse_host_ok [OF h u(2,3) n] len ne
    by (auto simp: parseAddr_def uri_denotes_def)
qed

section \<open>Properties\<close>



text \<open>
  C37. The only fault of the parser: an address below 128 bytes whose part after the protocol has
  no colon and more than 65 bytes is copied past the host field by the second, unguarded
  \<open>strncpy\<close>; every other address returns -1 or 0.
\<close>

theorem parseAddr_fault:
  "parseAddr (Some a) (Some u0) = Inl f \<longleftrightarrow>
     f = OutOfBounds \<and> length a < SOCKADDR_SIZE \<and>
     CHR '':'' \<notin> set (after_proto a) \<and> HOST_SIZE + 1 < length (after_proto a)"
proof -
  have cc: "\<exists>d. copy_component dst s k l = Inr d \<and> length d = length dst" if "l < length dst" for dst s k l
    using that by (auto simp: copy_component_def strncpy_def)
  obtain u where u: "parse_proto a uri_zero = Inr (u, after_proto a)" "length (host u) = HOST_SIZE + 1"
  proof (cases "memmem ''://'' a")
    case None
    then show ?thesis using that by (simp add: parse_proto_def after_proto_def uri_zero_def)
  next
    case (Some n)
    from cc [of PROTOCOL_SIZE "proto uri_zero" a n] obtain d where
      "copy_component (proto uri_zero) a n PROTOCOL_SIZE = Inr d"
      by (auto simp: uri_zero_def)
    then show ?thesis
      using that Some by (simp add: parse_proto_def after_proto_def uri_zero_def)
  qed
  have "parse_host r u = Inl f \<longleftrightarrow> f = OutOfBounds \<and> CHR '':'' \<notin> set r \<and> HOST_SIZE + 1 < length r" for r
  proof (cases "memchr (CHR '':'') r")
    case None
    from cc [of HOST_SIZE "host u" r "length r"] u(2) obtain d where
      "copy_component (host u) r (length r) HOST_SIZE = Inr d" "length d = HOST_SIZE + 1"
      by auto
    moreover have "CHR '':'' \<notin> set r" using None by (simp add: memchr_None_iff)
    ultimately show ?thesis using None by (auto simp: parse_host_def strncpy_def)
  next
    case (Some n)
    from cc [of HOST_SIZE "host u" r n] u(2) obtain d where
      "copy_component (host u) r n HOST_SIZE = Inr d" by auto
    then show ?thesis
      using Some memchr_Some_nth [OF Some] by (auto simp: parse_host_def dest: nth_mem)
  qed
  then show ?thesis
    using u(1) by (cases "a = []") (auto simp: parseAddr_def rbind_Inl_iff after_proto_def)
qed

end
