(* ===== verification/Request_Id.thy ===== *)
theory Request_Id
  imports Prelude
begin

text \<open>
  \<open>gen_request_id\<close> of src/request_id.c: the global \<open>req_id\<close> is a \<open>uint32_t\<close> counter that
  starts from \<open>rand()\<close> when it is zero. The generator of the C library is a parameter with
  its hidden state.
\<close>

definition gen_request_id :: "('r \<Rightarrow> nat \<times> 'r) \<Rightarrow> 'r \<Rightarrow> 32 word \<Rightarrow> 32 word \<times> 'r \<times> 32 word" where
  "gen_request_id rand rng req_id =
     (if req_id = 0 then (let (v, rng') = rand rng; id' = word_of_nat v in (id', rng', id'))
      else (req_id + 1, rng, req_id + 1))"

text \<open>The ids of \<open>n\<close> calls in a row.\<close>

primrec request_ids :: "('r \<Rightarrow> nat \<times> 'r) \<Rightarrow> 'r \<Rightarrow> 32 word \<Rightarrow> nat \<Rightarrow> 32 word list" where
  "request_ids rand rng req_id 0 = []"
| "request_ids rand rng req_id (Suc n) =
     (let (v, rng', req_id') = gen_request_id rand rng req_id
      in v # request_ids rand rng' req_id' n)"

lemma gen_request_id_global: "gen_request_id rand rng i = (v, rng', i') \<Longrightarrow> v = i'"
  by (auto simp: gen_request_id_def Let_def case_prod_unfold split: if_splits)

lemma request_ids_run:
  assumes "req_id \<noteq> 0" "unat req_id + n \<le> 2 ^ 32"
  shows "request_ids rand rng req_id n = map (\<lambda>k. req_id + word_of_nat (Suc k)) [0..<n]"
  using assms
proof (induction n arbitrary: req_id)
  case (Suc n)
  have upt: "[0..<Suc n] = 0 # map Suc [0..<n]"
    by (simp add: upt_conv_Cons map_Suc_upt del: upt_Suc)
  show ?case
  proof (cases n)
    case 0
    then show ?thesis using Suc.prems by (simp add: gen_request_id_def)
  next
    case (Suc m)
    have "unat req_id + unat (1 :: 32 word) < 2 ^ LENGTH(32)"
      using Suc.prems(2) Suc by simp
    then have "unat (req_id + 1) = unat req_id + 1"
      by (simp only: unat_add_lem) simp
    moreover from this have "req_id + 1 \<noteq> 0" by (metis add_is_0 one_neq_zero unat_0)
    ultimately have "request_ids rand rng (req_id + 1) n =
        map (\<lambda>k. req_id + 1 + word_of_nat (Suc k)) [0..<n]"
      using Suc.prems(2) by (intro Suc.IH) auto
    moreover have "request_ids rand rng req_id (Suc n) =
        (req_id + 1) # request_ids rand rng (req_id + 1) n"
      using Suc.prems(1) by (simp add: gen_request_id_def)
    ultimately show ?thesis
      unfolding upt by (simp add: add.assoc del: upt_Suc)
  qed
qed simp

section \<open>Properties\<close>

text \<open>
  C33. From a nonzero counter the ids of successive requests are distinct up to the wrap-around
  of the 32-bit counter, whatever \<open>rand()\<close> returns.
\<close>

theorem request_ids_distinct:
  assumes "req_id \<noteq> 0" "unat req_id + n \<le> 2 ^ 32"
  shows "distinct (request_ids rand rng req_id n)"
proof -
  have "inj_on (\<lambda>k. req_id + word_of_nat (Suc k) :: 32 word) {0..<n}"
  proof (rule inj_onI)
    fix i j assume ij: "i \<in> {0..<n}" "j \<in> {0..<n}"
      and "req_id + word_of_nat (Suc i) = req_id + (word_of_nat (Suc j) :: 32 word)"
    then have eq: "(word_of_nat (Suc i) :: 32 word) = word_of_nat (Suc j)"
      by (simp only: add_left_cancel)
    have "0 < unat req_id" using assms(1) by (simp add: word_neq_0_conv unat_gt_0)
    then have "Suc i < 2 ^ 32" "Suc j < 2 ^ 32" using assms(2) ij by auto
    moreover from arg_cong [OF eq, of unat]
    have "Suc i mod 2 ^ LENGTH(32) = Suc j mod 2 ^ LENGTH(32)" by (simp only: unat_of_nat)
    ultimately show "i = j" by simp
  qed
  then show ?thesis
    by (simp only: request_ids_run [OF assms] distinct_map distinct_upt set_upt simp_thms)
qed

theorem request_ids_distinct_witness:
  "distinct (request_ids (\<lambda>r. (r, r)) 0 4294967290 6)"
  using request_ids_distinct [of 4294967290 6 "\<lambda>r. (r, r)" 0] by simp

text \<open>After the wrap-around one request has the id 0, and the next ids start from \<open>rand()\<close>.\<close>

lemma request_ids_wrap: "request_ids (\<lambda>r. (r, r + 1)) 7 4294967295 3 = [0, 7, 8]"
  by (simp add: numeral_3_eq_3 gen_request_id_def)

end
