(* ===== verification/Transport.thy ===== *)
theory Transport
  imports C_Strings "HOL-Library.Signed_Division"
begin

text \<open>
  The UDP transport of src/transport.c. Its state is the global \<open>socket_fd\<close>; the model adds
  what the kernel keeps for it (the receive timeout last set, the descriptors that are open).
  The results of \<open>sendto\<close>, \<open>poll\<close> and \<open>recvfrom\<close> are scripts of the environment, consumed one
  system call at a time; a call on an exhausted script has not returned yet (\<open>Blocked\<close>).
\<close>

section \<open>The environment\<close>

text \<open>\<open>Errno\<close> carries the error number and the text \<open>strerror\<close> has for it.\<close>

datatype errno = EINTR | Errno nat bytes

datatype 'a sysres = SysOk 'a | SysErr errno

record sockaddr_in =
  sin_port :: "16 word"
  sin_addr :: "32 word"

record net =
  sends :: "nat sysres list"
  polls :: "nat sysres list"
  recvs :: "bytes sysres list"
  sent :: "(sockaddr_in \<times> bytes) list"

text \<open>The loops \<open>while((n = call(...)) == -1 && errno == EINTR)\<close>.\<close>

fun retry_eintr :: "'a sysres list \<Rightarrow> ('a sysres \<times> 'a sysres list) res" where
  "retry_eintr [] = Inl Blocked"
| "retry_eintr (r # rs) = (if r = SysErr EINTR then retry_eintr rs else Inr (r, rs))"

section \<open>The program\<close>

definition DEFAULT_RECV_TIMEOUT_MSEC :: int where "DEFAULT_RECV_TIMEOUT_MSEC = 5000"
definition ERROR_SZ :: nat where "ERROR_SZ = 1024 * 2"

record transport =
  socket_fd :: int
  rcvtimeo :: "(int \<times> int) option"
  open_fds :: "int list"

definition transport_new :: transport where
  "transport_new = \<lparr>socket_fd = -1, rcvtimeo = None, open_fds = []\<rparr>"

text \<open>\<open>SET_ERROR\<close>: \<open>snprintf\<close> into a buffer of \<open>ERROR_SZ\<close> bytes.\<close>

definition set_error :: "bytes \<Rightarrow> bytes option" where
  "set_error s = Some (take (ERROR_SZ - 1) s)"

definition tr_set_timeout :: "int \<Rightarrow> transport \<Rightarrow> int \<times> transport" where
  "tr_set_timeout t tr =
     (if socket_fd tr < 0 then (-1, tr)
      else (0, tr\<lparr>rcvtimeo := Some (t sdiv 1000, (t smod 1000) * 1000)\<rparr>))"

text \<open>\<open>fd\<close> is what \<open>socket()\<close> returns. \<open>err\<close> raises, with \<open>socket_fd\<close> already assigned.\<close>

definition tr_init_socket :: "int \<Rightarrow> transport \<Rightarrow> int res \<times> transport" where
  "tr_init_socket fd tr =
     (if socket_fd tr \<ge> 0 then (Inr (-1), tr)
      else if fd < 0 then (Inl (PgError ''cant create udp socket''), tr\<lparr>socket_fd := fd\<rparr>)
      else (Inr 0, snd (tr_set_timeout DEFAULT_RECV_TIMEOUT_MSEC
              (tr\<lparr>socket_fd := fd, open_fds := fd # open_fds tr\<rparr>))))"

definition tr_get_socket_fd :: "transport \<Rightarrow> int" where
  "tr_get_socket_fd tr = socket_fd tr"

definition tr_send_data ::
  "transport \<Rightarrow> bytes \<Rightarrow> sockaddr_in \<Rightarrow> bytes option \<Rightarrow> net \<Rightarrow> (int \<times> bytes option \<times> net) res" where
  "tr_send_data tr buf addr error net =
     (if socket_fd tr < 0
      then Inr (-1, set_error ''transport: send_data: error: invalid socket_fd'', net)
      else rbind (retry_eintr (sends net))
        (\<lambda>(r, rest). case r of
           SysOk n \<Rightarrow> Inr (int n, error, net\<lparr>sends := rest, sent := sent net @ [(addr, take n buf)]\<rparr>)
         | SysErr e \<Rightarrow>
             Inr (-1, case e of Errno _ t \<Rightarrow> set_error (''transport: send_data: errno: '' @ t)
                              | EINTR \<Rightarrow> error,
                  net\<lparr>sends := rest\<rparr>)))"

definition tr_recv_data ::
  "transport \<Rightarrow> nat \<Rightarrow> bytes option \<Rightarrow> net \<Rightarrow> (int \<times> bytes \<times> bytes option \<times> net) res" where
  "tr_recv_data tr len error net =
     (if socket_fd tr < 0
      then Inr (-1, [], set_error ''transport: recv_data: error: invalid socket_fd'', net)
      else rbind (retry_eintr (recvs net))
        (\<lambda>(r, rest). case r of
           SysOk d \<Rightarrow> Inr (int (length (take len d)), take len d, error, net\<lparr>recvs := rest\<rparr>)
         | SysErr e \<Rightarrow>
             Inr (-1, [], case e of Errno _ t \<Rightarrow> set_error (''transport: recv_data: errno: '' @ t)
                                  | EINTR \<Rightarrow> error,
                  net\<lparr>recvs := rest\<rparr>)))"

definition tr_shutdown_socket :: "transport \<Rightarrow> int \<times> transport" where
  "tr_shutdown_socket tr =
     (if socket_fd tr < 0 then (-1, tr)
      else (0, tr\<lparr>socket_fd := -1, rcvtimeo := None, open_fds := remove1 (socket_fd tr) (open_fds tr)\<rparr>))"

section \<open>The socket as a state machine\<close>

datatype tr_op = InitSocket int | SetTimeout int | ShutdownSocket

text \<open>The operations other components call, in any order, with any result of \<open>socket()\<close>.\<close>

inductive tr_step :: "transport \<Rightarrow> tr_op \<Rightarrow> transport \<Rightarrow> bool" where
  step_init: "tr_step tr (InitSocket fd) (snd (tr_init_socket fd tr))"
| step_timeout: "tr_step tr (SetTimeout t) (snd (tr_set_timeout t tr))"
| step_shutdown: "tr_step tr ShutdownSocket (snd (tr_shutdown_socket tr))"

inductive_cases tr_stepE: "tr_step tr x tr'"
inductive_simps tr_step_init [simp]: "tr_step tr (InitSocket fd) tr'"
inductive_simps tr_step_timeout [simp]: "tr_step tr (SetTimeout t) tr'"
inductive_simps tr_step_shutdown [simp]: "tr_step tr ShutdownSocket tr'"

inductive tr_run :: "transport \<Rightarrow> tr_op list \<Rightarrow> transport \<Rightarrow> bool" where
  run_done: "tr_run tr [] tr"
| run_step: "tr_step tr x tr' \<Longrightarrow> tr_run tr' xs tr'' \<Longrightarrow> tr_run tr (x # xs) tr''"

text \<open>Closed with nothing open, or open with exactly its descriptor and a timeout set.\<close>

definition tr_inv :: "transport \<Rightarrow> bool" where
  "tr_inv tr \<longleftrightarrow>
     (if socket_fd tr < 0 then open_fds tr = [] \<and> rcvtimeo tr = None
      else open_fds tr = [socket_fd tr] \<and> rcvtimeo tr \<noteq> None)"

lemma tr_inv_new: "tr_inv transport_new"
  by (simp add: tr_inv_def transport_new_def)

lemma tr_inv_step: "tr_step tr x tr' \<Longrightarrow> tr_inv tr \<Longrightarrow> tr_inv tr'"
  by (erule tr_stepE)
    (auto simp: tr_inv_def tr_init_socket_def tr_set_timeout_def tr_shutdown_socket_def split: if_splits)

lemma tr_inv_run: "tr_run tr xs tr' \<Longrightarrow> tr_inv tr \<Longrightarrow> tr_inv tr'"
  by (induction rule: tr_run.induct) (auto dest: tr_inv_step)

lemma retry_eintr_shorter: "retry_eintr rs = Inr (r, rest) \<Longrightarrow> length rest < length rs"
  by (induction rs) (auto split: if_splits)

lemma retry_eintr_result: "retry_eintr rs = Inr (r, rest) \<Longrightarrow> r \<noteq> SysErr EINTR"
  by (induction rs) (auto split: if_splits)

lemma retry_eintr_interrupted [simp]:
  "r \<noteq> SysErr EINTR \<Longrightarrow> retry_eintr (replicate k (SysErr EINTR) @ r # rs) = Inr (r, rs)"
  by (induction k) auto

section \<open>Properties\<close>

text \<open>
  C32. Whatever sequence of operations runs, also when \<open>socket()\<close> fails, no descriptor is lost
  and none is closed twice: the descriptors open are none, or just \<open>socket_fd\<close>.
\<close>

theorem transport_no_leak:
  assumes "tr_run transport_new xs tr"
  shows "open_fds tr = (if socket_fd tr < 0 then [] else [socket_fd tr])"
  using tr_inv_run [OF assms tr_inv_new] by (auto simp: tr_inv_def split: if_splits)

theorem transport_no_leak_witness:
  "open_fds (snd (tr_init_socket 4 (snd (tr_shutdown_socket (snd (tr_init_socket 3 transport_new)))))) = [4]"
proof -
  let ?t = "snd (tr_init_socket 4 (snd (tr_shutdown_socket (snd (tr_init_socket 3 transport_new)))))"
  have "tr_run transport_new [InitSocket 3, ShutdownSocket, InitSocket 4] ?t"
    by (rule run_step, rule step_init, rule run_step, rule step_shutdown, rule run_step,
        rule step_init, rule run_done)
  moreover have "socket_fd ?t = 4" by code_simp
  ultimately show ?thesis using transport_no_leak by fastforce
qed

text \<open>
  A non-negative timeout in milliseconds is set as a valid \<open>timeval\<close> of the same length.
\<close>

lemma tr_set_timeout_value:
  assumes "0 \<le> t" "0 \<le> socket_fd tr"
  shows "\<exists>s u. rcvtimeo (snd (tr_set_timeout t tr)) = Some (s, u) \<and>
    0 \<le> s \<and> 0 \<le> u \<and> u < 1000000 \<and> s * 1000000 + u = t * 1000"
proof -
  have "t div 1000 * 1000000 + t mod 1000 * 1000 = t * 1000" by presburger
  then show ?thesis
    using assms by (auto simp: tr_set_timeout_def signed_divide_int_def signed_modulo_int_def sgn_if)
qed

text \<open>
  Interrupted system calls are repeated: after any number of \<open>EINTR\<close>s the caller sees the
  first other result, with the datagram handed to the network once.
\<close>

lemma tr_calls_retry:
  assumes "0 \<le> socket_fd tr"
  shows "tr_send_data tr buf addr error
      (net\<lparr>sends := replicate k (SysErr EINTR) @ SysOk n # rest\<rparr>) =
    Inr (int n, error, net\<lparr>sends := rest, sent := sent net @ [(addr, take n buf)]\<rparr>) \<and>
    tr_recv_data tr len error
      (net\<lparr>recvs := replicate k (SysErr EINTR) @ SysOk d # rest'\<rparr>) =
    Inr (int (min (length d) len), take len d, error, net\<lparr>recvs := rest'\<rparr>)"
  using assms by (simp_all add: tr_send_data_def tr_recv_data_def min.commute)

end
