(* ===== verification/Resolver_Wire.thy ===== *)
theory Resolver_Wire
  imports Transport
begin

text \<open>
  The message formats of src/resolver.c: the requests \<open>prepare_tagged_msg\<close> and
  \<open>prepare_json_msg\<close> write into the static buffer \<open>msg\<close>, and the responses
  \<open>parse_confrm_resp_msg\<close>, \<open>parse_tagged_msg\<close> and \<open>parse_json_msg\<close> read from it. The
  32-bit fields are in the byte order of the host, which is taken to be little-endian. A read
  outside the buffer is the fault \<open>OutOfBounds\<close>.
\<close>

section \<open>Constants, requests and responses\<close>

definition MSG_SZ :: nat where "MSG_SZ = 1024 * 2"
definition TAGGED_REQ_VERSION :: "8 word" where "TAGGED_REQ_VERSION = 0"
definition CNAM_REQ_VERSION :: "8 word" where "CNAM_REQ_VERSION = 1"
definition CNFRM_RESPONSE_HDR_SIZE :: nat where "CNFRM_RESPONSE_HDR_SIZE = 4"
definition TAGGED_HDR_SIZE :: nat where "TAGGED_HDR_SIZE = 7"
definition TAGGED_ERR_RESPONSE_HDR_SIZE :: nat where "TAGGED_ERR_RESPONSE_HDR_SIZE = 6"
definition TAGGED_RESPONSE_CODE_SUCCESS :: nat where "TAGGED_RESPONSE_CODE_SUCCESS = 0"
definition CNAM_HDR_SIZE :: nat where "CNAM_HDR_SIZE = 10"
definition CNAM_RESPONSE_HDR_SIZE :: nat where "CNAM_RESPONSE_HDR_SIZE = 8"

lemmas wire_sizes = MSG_SZ_def CNFRM_RESPONSE_HDR_SIZE_def TAGGED_HDR_SIZE_def
  TAGGED_ERR_RESPONSE_HDR_SIZE_def TAGGED_RESPONSE_CODE_SUCCESS_def CNAM_HDR_SIZE_def
  CNAM_RESPONSE_HDR_SIZE_def

record request =
  req_id :: "32 word"
  req_type :: "8 word"
  db_id :: int
  req_data :: bytes

text \<open>\<open>val_1\<close> and \<open>val_2\<close> are allocated char arrays, with the terminating NUL.\<close>

record response =
  resp_id :: "32 word"
  is_confrm :: bool
  val :: "bytes option"
  val_1 :: "bytes option"
  val_2 :: "bytes option"

definition response_zero :: response where
  "response_zero = \<lparr>resp_id = 0, is_confrm = False, val = None, val_1 = None, val_2 = None\<rparr>"

record wire =
  msg :: bytes
  msg_len :: nat

section \<open>Fields of a message\<close>

definition byte :: "nat \<Rightarrow> char" where
  "byte n = char_of n"

definition store32 :: "32 word \<Rightarrow> bytes" where
  "store32 w = [byte (unat w), byte (unat w div 2 ^ 8), byte (unat w div 2 ^ 16), byte (unat w div 2 ^ 24)]"

definition load8 :: "bytes \<Rightarrow> nat \<Rightarrow> nat res" where
  "load8 buf off = (if off < length buf then Inr (char_code (buf ! off)) else Inl OutOfBounds)"

definition load32 :: "bytes \<Rightarrow> nat \<Rightarrow> 32 word res" where
  "load32 buf off =
     (if off + 4 \<le> length buf
      then Inr (word_of_nat (char_code (buf ! off) + 2 ^ 8 * char_code (buf ! (off + 1)) +
             2 ^ 16 * char_code (buf ! (off + 2)) + 2 ^ 24 * char_code (buf ! (off + 3))))
      else Inl OutOfBounds)"

definition load_bytes :: "bytes \<Rightarrow> nat \<Rightarrow> nat \<Rightarrow> bytes res" where
  "load_bytes buf off n =
     (if off + n \<le> length buf then Inr (take n (drop off buf)) else Inl OutOfBounds)"

section \<open>Requests\<close>

definition prepare_tagged_msg ::
  "request \<Rightarrow> bytes option \<Rightarrow> 'z wire_scheme \<Rightarrow> int \<times> bytes option \<times> 'z wire_scheme" where
  "prepare_tagged_msg req error w =
     (let data_size = length (req_data req);
          w1 = w\<lparr>msg_len := data_size + TAGGED_HDR_SIZE\<rparr>
      in if msg_len w1 > MSG_SZ then (-1, set_error ''message is to long'', w1)
         else (0, error, w1\<lparr>msg := store32 (req_id req) @
                 [byte (nat (db_id req mod 256)), byte (unat (req_type req)), byte data_size] @
                 req_data req @ zeros (MSG_SZ - msg_len w1)\<rparr>))"

definition prepare_json_msg ::
  "request \<Rightarrow> bytes option \<Rightarrow> 'z wire_scheme \<Rightarrow> int \<times> bytes option \<times> 'z wire_scheme" where
  "prepare_json_msg req error w =
     (let data_size = length (req_data req);
          w1 = w\<lparr>msg_len := data_size + CNAM_HDR_SIZE\<rparr>
      in if msg_len w1 > MSG_SZ then (-1, set_error ''message is to long'', w1)
         else (0, error, w1\<lparr>msg := store32 (req_id req) @
                 [byte (nat (db_id req mod 256)), byte (unat (req_type req))] @
                 store32 (word_of_nat data_size) @
                 req_data req @ zeros (MSG_SZ - msg_len w1)\<rparr>))"

definition prepare_msg ::
  "request \<Rightarrow> bytes option \<Rightarrow> 'z wire_scheme \<Rightarrow> int \<times> bytes option \<times> 'z wire_scheme" where
  "prepare_msg req error w =
     (if req_type req = TAGGED_REQ_VERSION then prepare_tagged_msg req error w
      else if req_type req = CNAM_REQ_VERSION then prepare_json_msg req error w
      else (-1, error, w))"

section \<open>Responses\<close>

text \<open>The parsers fill the response the caller has zeroed.\<close>

type_synonym parsed = "(int \<times> response \<times> bytes option) res"

definition too_small :: "bytes option" where
  "too_small = set_error ''local: unexpected response (response too small)''"

definition parse_confrm_resp_msg :: "'z wire_scheme \<Rightarrow> response \<Rightarrow> bytes option \<Rightarrow> parsed" where
  "parse_confrm_resp_msg w resp error =
     (if msg_len w > CNFRM_RESPONSE_HDR_SIZE then Inr (-1, resp, error)
      else if msg_len w < CNFRM_RESPONSE_HDR_SIZE then Inr (-1, resp, too_small)
      else rbind (load32 (msg w) 0)
        (\<lambda>i. Inr (0, resp\<lparr>resp_id := i, is_confrm := True\<rparr>, error)))"

definition parse_json_msg :: "'z wire_scheme \<Rightarrow> response \<Rightarrow> bytes option \<Rightarrow> parsed" where
  "parse_json_msg w resp error =
     (if msg_len w < CNAM_RESPONSE_HDR_SIZE then Inr (-1, resp, too_small)
      else rbind (load32 (msg w) 0) (\<lambda>i. rbind (load32 (msg w) 4) (\<lambda>size.
        let resp1 = resp\<lparr>resp_id := i\<rparr>; data_size = unat size
        in if data_size = 0 then Inr (-1, resp1, set_error ''empty reply'')
           else if data_size > msg_len w - CNAM_RESPONSE_HDR_SIZE
             then Inr (-1, resp1, set_error (''unexpected response (claimed response length '' @
                dec_signed (to_int32 (int data_size)) @ '' but have only '' @
                dec (msg_len w - CNAM_RESPONSE_HDR_SIZE) @ '' bytes at the tail)''))
           else rbind (load_bytes (msg w) CNAM_RESPONSE_HDR_SIZE data_size)
             (\<lambda>d. Inr (0, resp1\<lparr>val := Some d\<rparr>, error)))))"

text \<open>The text \<open>remote: code <...>\<close>; \<open>%.*s\<close> stops at a NUL.\<close>

definition remote_error :: "nat \<Rightarrow> bytes \<Rightarrow> bytes option" where
  "remote_error resp_code t =
     (if t = [] then set_error (''remote: '' @ dec resp_code)
      else set_error (''remote: '' @ dec resp_code @ '' <'' @ takeWhile (\<lambda>c. c \<noteq> NUL) t @ ''>''))"

definition parse_tagged_msg :: "'z wire_scheme \<Rightarrow> response \<Rightarrow> bytes option \<Rightarrow> parsed" where
  "parse_tagged_msg w resp error =
     (if msg_len w < TAGGED_HDR_SIZE then Inr (-1, resp, too_small)
      else rbind (load32 (msg w) 0) (\<lambda>i. rbind (load8 (msg w) 4) (\<lambda>resp_code.
        rbind (load8 (msg w) 5) (\<lambda>data_size.
        let resp1 = resp\<lparr>resp_id := i\<rparr>
        in if resp_code \<noteq> TAGGED_RESPONSE_CODE_SUCCESS then
             (if data_size > msg_len w - TAGGED_ERR_RESPONSE_HDR_SIZE
              then Inr (-1, resp1, set_error (''local: unexpected response (claimed response length '' @
                 dec data_size @ '' but have only '' @
                 dec (msg_len w - TAGGED_ERR_RESPONSE_HDR_SIZE) @ '' bytes at the tail)''))
              else rbind (load_bytes (msg w) TAGGED_ERR_RESPONSE_HDR_SIZE data_size)
                (\<lambda>t. Inr (1, resp1, remote_error resp_code t)))
           else if data_size > msg_len w - TAGGED_HDR_SIZE
             then Inr (-1, resp1, set_error (''local: unexpected response (claimed response length '' @
                dec data_size @ '' but have only '' @
                dec (msg_len w - TAGGED_HDR_SIZE) @ '' bytes at the tail)''))
           else rbind (load8 (msg w) 6) (\<lambda>lrn_length.
             if lrn_length > data_size
             then Inr (-1, resp1, set_error (''local: malformed response (claimed lrn_length '' @
                dec lrn_length @ '' but total_length is '' @ dec data_size @ '' bytes only)''))
             else rbind (load_bytes (msg w) TAGGED_HDR_SIZE lrn_length) (\<lambda>lrn.
               let tag_length = data_size - lrn_length
               in rbind (load_bytes (msg w) (TAGGED_HDR_SIZE + lrn_length) tag_length) (\<lambda>tag.
                 Inr (0, resp1\<lparr>val_1 := Some (lrn @ [NUL]),
                               val_2 := (if tag_length > 0 then Some (tag @ [NUL]) else None)\<rparr>,
                      error))))))))"

definition parse_msg :: "request \<Rightarrow> 'z wire_scheme \<Rightarrow> response \<Rightarrow> bytes option \<Rightarrow> parsed" where
  "parse_msg req w resp error =
     rbind (parse_confrm_resp_msg w resp error)
       (\<lambda>(n, resp1, error1).
          if n = 0 then Inr (0, resp1, error1)
          else if req_type req = TAGGED_REQ_VERSION then parse_tagged_msg w resp1 error1
          else if req_type req = CNAM_REQ_VERSION then parse_json_msg w resp1 error1
          else Inr (-1, resp1, error1))"

section \<open>Specification: what the other side writes and reads\<close>

text \<open>The buffer after \<open>memset\<close> and \<open>recvfrom\<close>.\<close>

definition received :: "bytes \<Rightarrow> wire" where
  "received m = \<lparr>msg = m @ zeros (MSG_SZ - length m), msg_len = length m\<rparr>"

definition confirmation :: "32 word \<Rightarrow> bytes" where
  "confirmation i = store32 i"

definition tagged_reply :: "32 word \<Rightarrow> bytes \<Rightarrow> bytes \<Rightarrow> bytes" where
  "tagged_reply i lrn tag =
     store32 i @ [byte 0, byte (length lrn + length tag), byte (length lrn)] @ lrn @ tag"

definition error_reply :: "32 word \<Rightarrow> nat \<Rightarrow> bytes \<Rightarrow> bytes" where
  "error_reply i code t = store32 i @ [byte code, byte (length t)] @ t"

definition json_reply :: "32 word \<Rightarrow> bytes \<Rightarrow> bytes" where
  "json_reply i d = store32 i @ store32 (word_of_nat (length d)) @ d"

text \<open>A server that reads a request as the layout comments describe it.\<close>

definition read_tagged_request :: "bytes \<Rightarrow> (32 word \<times> nat \<times> nat \<times> bytes) res" where
  "read_tagged_request m =
     rbind (load32 m 0) (\<lambda>i. rbind (load8 m 4) (\<lambda>db. rbind (load8 m 5) (\<lambda>ty. rbind (load8 m 6) (\<lambda>n.
       rbind (load_bytes m 7 n) (\<lambda>d. Inr (i, db, ty, d))))))"

definition read_json_request :: "bytes \<Rightarrow> (32 word \<times> nat \<times> nat \<times> bytes) res" where
  "read_json_request m =
     rbind (load32 m 0) (\<lambda>i. rbind (load8 m 4) (\<lambda>db. rbind (load8 m 5) (\<lambda>ty. rbind (load32 m 6) (\<lambda>n.
       rbind (load_bytes m 10 (unat n)) (\<lambda>d. Inr (i, db, ty, d))))))"

section \<open>Fields written and read back\<close>

named_theorems wire_simps \<open>fields written and read back\<close>

lemma char_code_byte [wire_simps]: "char_code (byte n) = n mod 256"
  by (simp add: char_code_def byte_def)

lemma length_store32 [wire_simps]: "length (store32 w) = 4"
  by (simp add: store32_def)

lemma bytes_value:
  assumes "n < 2 ^ 32"
  shows "n mod 256 + 2 ^ 8 * (n div 2 ^ 8 mod 256) + 2 ^ 16 * (n div 2 ^ 16 mod 256) +
    2 ^ 24 * (n div 2 ^ 24 mod 256) = (n :: nat)"
proof -
  have q: "n div 2 ^ 24 mod 256 = n div 2 ^ 24" using assms by (simp add: div_less_iff_less_mult)
  have "n = 2 ^ 24 * (n div 2 ^ 24) + n mod 2 ^ 24" by simp
  moreover have "n mod 2 ^ 24 = 2 ^ 16 * (n div 2 ^ 16 mod 256) + n mod 2 ^ 16"
    using mod_mult2_eq [of n "2 ^ 16" 256] by simp
  moreover have "n mod 2 ^ 16 = 2 ^ 8 * (n div 2 ^ 8 mod 256) + n mod 2 ^ 8"
    using mod_mult2_eq [of n "2 ^ 8" 256] by simp
  moreover have "n mod 2 ^ 8 = n mod 256" by simp
  ultimately show ?thesis unfolding q by linarith
qed

lemma load32_at [wire_simps]:
  assumes "length ys = off"
  shows "load32 (ys @ store32 w @ xs) off = Inr w"
proof -
  let ?b = "ys @ store32 w @ xs"
  have b: "?b ! off = byte (unat w)" "?b ! (off + 1) = byte (unat w div 2 ^ 8)"
    "?b ! (off + 2) = byte (unat w div 2 ^ 16)" "?b ! (off + 3) = byte (unat w div 2 ^ 24)"
    using assms by (simp_all add: nth_append store32_def)
  have "unat w < 2 ^ 32" using unsigned_less [of w] by simp
  then have "word_of_nat (char_code (?b ! off) + 2 ^ 8 * char_code (?b ! (off + 1)) +
      2 ^ 16 * char_code (?b ! (off + 2)) + 2 ^ 24 * char_code (?b ! (off + 3))) = w"
    unfolding b char_code_byte bytes_value [OF \<open>unat w < 2 ^ 32\<close>] by simp
  then show ?thesis
    using assms by (simp only: load32_def length_append length_store32) simp
qed

lemma load32_first [wire_simps]: "load32 (store32 w @ xs) 0 = Inr w"
  using load32_at [of "[]" 0] by simp

lemma load8_at [wire_simps]: "length ys = off \<Longrightarrow> load8 (ys @ byte n # xs) off = Inr (n mod 256)"
  by (simp add: load8_def nth_append char_code_byte)

lemma load_bytes_at [wire_simps]:
  "length ys = off \<Longrightarrow> length d = n \<Longrightarrow> load_bytes (ys @ d @ xs) off n = Inr d"
  by (simp add: load_bytes_def)

text \<open>The bytes at an offset behind a 32-bit field.\<close>

lemma load8_skip [wire_simps]:
  "load8 (store32 w @ xs) (4 + k) = load8 xs k" "load8 (c # xs) (Suc k) = load8 xs k"
  "load8 (byte n # xs) 0 = Inr (n mod 256)"
  by (auto simp: load8_def nth_append length_store32 char_code_byte)

lemma load_bytes_skip [wire_simps]:
  "load_bytes (store32 w @ xs) (4 + k) n = load_bytes xs k n"
  "load_bytes (c # xs) (Suc k) n = load_bytes xs k n"
  "length d = n \<Longrightarrow> load_bytes (d @ xs) 0 n = Inr d"
  "length d = k \<Longrightarrow> load_bytes (d @ xs) k n = load_bytes xs 0 n"
  by (auto simp: load_bytes_def length_store32)

lemma load32_skip [wire_simps]:
  "load32 (store32 w @ xs) (4 + k) = load32 xs k"
  "load32 (c # xs) (Suc k) = load32 xs k"
  by (auto simp: load32_def length_store32 nth_append add.commute)

text \<open>What lies before a bound decides what is read before it.\<close>

lemma take_eq_nth: "take n xs = take n ys \<Longrightarrow> i < n \<Longrightarrow> i < length xs \<Longrightarrow> i < length ys \<Longrightarrow> xs ! i = ys ! i"
  by (metis nth_take)

lemma load8_prefix:
  "take n a = take n b \<Longrightarrow> length a = length b \<Longrightarrow> off < n \<Longrightarrow> load8 a off = load8 b off"
  using take_eq_nth [of n a b off] by (simp add: load8_def)

lemma load32_prefix:
  assumes "take n a = take n b" "length a = length b" "off + 4 \<le> n"
  shows "load32 a off = load32 b off"
proof (cases "off + 4 \<le> length b")
  case True
  then have "a ! off = b ! off" "a ! (off + 1) = b ! (off + 1)" "a ! (off + 2) = b ! (off + 2)"
    "a ! (off + 3) = b ! (off + 3)"
    using assms by (auto intro!: take_eq_nth [OF assms(1)])
  then show ?thesis using assms(2) by (simp only: load32_def)
qed (simp add: load32_def assms)

lemma load_bytes_prefix:
  assumes "take n a = take n b" "length a = length b" "off + k \<le> n"
  shows "load_bytes a off k = load_bytes b off k"
proof -
  have "take k (drop off c) = take k (drop off (take n c))" for c :: bytes
    using assms(3) by (simp add: drop_take min_def)
  from this [of a] this [of b] show ?thesis using assms(1,2) by (simp add: load_bytes_def)
qed

lemma load_offsets [wire_simps]:
  "load8 (store32 w @ xs) 4 = load8 xs 0" "load8 (store32 w @ xs) 5 = load8 xs (Suc 0)"
  "load8 (store32 w @ xs) 6 = load8 xs (Suc (Suc 0))"
  "load32 (store32 w @ xs) 4 = load32 xs 0" "load32 (store32 w @ xs) 6 = load32 xs (Suc (Suc 0))"
  "load_bytes (store32 w @ xs) 6 n = load_bytes xs (Suc (Suc 0)) n"
  "load_bytes (store32 w @ xs) 7 n = load_bytes xs (Suc (Suc (Suc 0))) n"
  "load_bytes (store32 w @ xs) (7 + k) n = load_bytes xs (Suc (Suc (Suc k))) n"
  "load_bytes (store32 w @ xs) 8 n = load_bytes xs 4 n"
  "load_bytes (store32 w @ xs) 4 n = load_bytes xs 0 n"
  "load_bytes (store32 w @ xs) 10 n = load_bytes xs 6 n"
  using load8_skip(1) [of w xs 0] load8_skip(1) [of w xs 1] load8_skip(1) [of w xs 2]
    load32_skip(1) [of w xs 0] load32_skip(1) [of w xs 2]
    load_bytes_skip(1) [of w xs 2] load_bytes_skip(1) [of w xs 3]
    load_bytes_skip(1) [of w xs "3 + k"] load_bytes_skip(1) [of w xs 4]
    load_bytes_skip(1) [of w xs 0] load_bytes_skip(1) [of w xs 6]
  by (simp_all add: numeral_2_eq_2 numeral_3_eq_3)

lemma load_bytes_two [wire_simps]: "load_bytes (c # d # xs) 6 n = load_bytes xs 4 n"
  by (simp add: load_bytes_def)

lemma parse_tagged_reply:
  assumes "req_type req = TAGGED_REQ_VERSION" "length lrn + length tag < 256"
  shows "parse_msg req (received (tagged_reply i lrn tag)) resp error =
    Inr (0, resp\<lparr>resp_id := i, val_1 := Some (lrn @ [NUL]),
                 val_2 := (if tag = [] then None else Some (tag @ [NUL]))\<rparr>, error)"
proof -
  have "load_bytes (lrn @ tag @ z) (length lrn) (length tag) = Inr tag" for z
    by (simp add: load_bytes_def)
  moreover have "load_bytes (lrn @ tag @ z) 0 (length lrn) = Inr lrn" for z
    by (simp add: load_bytes_def)
  ultimately show ?thesis
    using assms
    by (simp add: parse_msg_def parse_confrm_resp_msg_def parse_tagged_msg_def received_def
        tagged_reply_def wire_sizes wire_simps Let_def)
qed

lemma parse_error_reply:
  assumes "req_type req = TAGGED_REQ_VERSION" "0 < code" "code < 256" "length t < 256" "t \<noteq> []"
  shows "parse_msg req (received (error_reply i code t)) resp error =
    Inr (1, resp\<lparr>resp_id := i\<rparr>, remote_error code t)"
proof -
  have t: "\<exists>n. length t = Suc n" using assms(5) by (cases t) auto
  have "load_bytes (t @ z) 0 (length t) = Inr t" for z
    by (simp add: load_bytes_def)
  then show ?thesis
    using assms t
    by (auto simp: parse_msg_def parse_confrm_resp_msg_def parse_tagged_msg_def received_def
        error_reply_def wire_sizes wire_simps Let_def)
qed

lemma parse_confirmation:
  "parse_msg req (received (confirmation i)) resp error =
    Inr (0, resp\<lparr>resp_id := i, is_confrm := True\<rparr>, error)"
  by (simp add: parse_msg_def parse_confrm_resp_msg_def received_def confirmation_def wire_sizes
      wire_simps)

lemma parse_json_reply:
  assumes "req_type req = CNAM_REQ_VERSION" "d \<noteq> []" "length d + 8 \<le> MSG_SZ"
  shows "parse_msg req (received (json_reply i d)) resp error =
    Inr (0, resp\<lparr>resp_id := i, val := Some d\<rparr>, error)"
proof -
  have "unat (word_of_nat (length d) :: 32 word) = length d"
    using assms(3) by (simp add: unat_of_nat MSG_SZ_def)
  moreover have "load_bytes (d @ z) 0 (length d) = Inr d" for z
    by (simp add: load_bytes_def)
  ultimately show ?thesis
    using assms
    by (simp add: parse_msg_def parse_confrm_resp_msg_def parse_json_msg_def received_def
        json_reply_def wire_sizes wire_simps Let_def CNAM_REQ_VERSION_def TAGGED_REQ_VERSION_def)
qed

text \<open>A buffer as \<open>resolve\<close> hands it to the parsers.\<close>

definition wire_ok :: "'z wire_scheme \<Rightarrow> bool" where
  "wire_ok w \<longleftrightarrow> length (msg w) = MSG_SZ \<and> msg_len w \<le> MSG_SZ"

text \<open>Two buffers with the same message in front and anything behind it.\<close>

definition same_message :: "'z wire_scheme \<Rightarrow> 'z wire_scheme \<Rightarrow> bool" where
  "same_message w v \<longleftrightarrow> msg_len w = msg_len v \<and> length (msg w) = length (msg v) \<and>
     take (msg_len w) (msg w) = take (msg_len v) (msg v)"

lemma same_message_loads:
  assumes "same_message w v"
  shows "off < msg_len v \<Longrightarrow> load8 (msg w) off = load8 (msg v) off"
    and "off + 4 \<le> msg_len v \<Longrightarrow> load32 (msg w) off = load32 (msg v) off"
    and "off + k \<le> msg_len v \<Longrightarrow> load_bytes (msg w) off k = load_bytes (msg v) off k"
  using assms load8_prefix [of "msg_len v" "msg w" "msg v" off]
    load32_prefix [of "msg_len v" "msg w" "msg v" off]
    load_bytes_prefix [of "msg_len v" "msg w" "msg v" off k]
  by (auto simp: same_message_def)

lemma loads_in_bounds:
  "off < length buf \<Longrightarrow> \<exists>v. load8 buf off = Inr v"
  "off + 4 \<le> length buf \<Longrightarrow> \<exists>v. load32 buf off = Inr v"
  "off + k \<le> length buf \<Longrightarrow> \<exists>v. load_bytes buf off k = Inr v \<and> length v = k"
  by (auto simp: load8_def load32_def load_bytes_def)

lemma parse_tagged_msg_total:
  assumes "wire_ok w"
  shows "\<exists>r. parse_tagged_msg w resp error = Inr r"
proof (cases "msg_len w < TAGGED_HDR_SIZE")
  case False
  then have len: "7 \<le> msg_len w" "msg_len w \<le> length (msg w)"
    using assms by (auto simp: wire_ok_def wire_sizes)
  then obtain i c n l where
    f: "load32 (msg w) 0 = Inr i" "load8 (msg w) 4 = Inr c" "load8 (msg w) 5 = Inr n"
      "load8 (msg w) 6 = Inr l"
    using loads_in_bounds(1) [of 4 "msg w"] loads_in_bounds(1) [of 5 "msg w"]
      loads_in_bounds(1) [of 6 "msg w"] loads_in_bounds(2) [of 0 "msg w"] by force
  have "\<exists>v. load_bytes (msg w) 6 n = Inr v" if "n \<le> msg_len w - 6"
  proof -
    have "6 + n \<le> length (msg w)" using that len by linarith
    then show ?thesis using loads_in_bounds(3) by blast
  qed
  moreover have "\<exists>v. load_bytes (msg w) 7 l = Inr v" "\<exists>v. load_bytes (msg w) (7 + l) (n - l) = Inr v"
    if "n \<le> msg_len w - 7" "l \<le> n"
  proof -
    have "7 + l \<le> length (msg w)" "7 + l + (n - l) \<le> length (msg w)" using that len by linarith+
    then show "\<exists>v. load_bytes (msg w) 7 l = Inr v" "\<exists>v. load_bytes (msg w) (7 + l) (n - l) = Inr v"
      using loads_in_bounds(3) by blast+
  qed
  ultimately show ?thesis
    using False f
    by (cases "c = 0"; cases "n \<le> msg_len w - 6"; cases "n \<le> msg_len w - 7"; cases "l \<le> n")
      (auto simp: parse_tagged_msg_def wire_sizes Let_def)
qed (simp add: parse_tagged_msg_def)

lemma parse_json_msg_total:
  assumes "wire_ok w"
  shows "\<exists>r. parse_json_msg w resp error = Inr r"
proof (cases "msg_len w < CNAM_RESPONSE_HDR_SIZE")
  case False
  then have len: "8 \<le> msg_len w" "msg_len w \<le> length (msg w)"
    using assms by (auto simp: wire_ok_def wire_sizes)
  then obtain i n where f: "load32 (msg w) 0 = Inr i" "load32 (msg w) 4 = Inr n"
    using loads_in_bounds(2) [of 0 "msg w"] loads_in_bounds(2) [of 4 "msg w"] by force
  have "\<exists>v. load_bytes (msg w) 8 (unat n) = Inr v" if "unat n \<le> msg_len w - 8"
  proof -
    have "8 + unat n \<le> length (msg w)" using that len by linarith
    then show ?thesis using loads_in_bounds(3) by blast
  qed
  then show ?thesis
    using False f
    by (cases "unat n \<le> msg_len w - 8") (auto simp: parse_json_msg_def wire_sizes Let_def)
qed (simp add: parse_json_msg_def)

lemma parse_msg_total:
  assumes "wire_ok w"
  shows "\<exists>r. parse_msg req w resp error = Inr r"
proof -
  have "\<exists>n resp1 error1. parse_confrm_resp_msg w resp error = Inr (n, resp1, error1)"
    using assms loads_in_bounds(2) [of 0 "msg w"]
    by (auto simp: parse_confrm_resp_msg_def wire_ok_def wire_sizes)
  then show ?thesis
    using parse_tagged_msg_total [OF assms] parse_json_msg_total [OF assms]
    by (auto simp: parse_msg_def)
qed

lemma parse_tagged_msg_same:
  assumes "same_message w v"
  shows "parse_tagged_msg w resp error = parse_tagged_msg v resp error"
proof (cases "msg_len v < TAGGED_HDR_SIZE")
  case True
  then show ?thesis using assms by (simp add: parse_tagged_msg_def same_message_def)
next
  case False
  then have len: "7 \<le> msg_len v" by (simp add: wire_sizes)
  have ml: "msg_len w = msg_len v" using assms by (simp add: same_message_def)
  have f: "load32 (msg w) 0 = load32 (msg v) 0" "load8 (msg w) 4 = load8 (msg v) 4"
    "load8 (msg w) 5 = load8 (msg v) 5" "load8 (msg w) 6 = load8 (msg v) 6"
    using len by (auto intro!: same_message_loads [OF assms])
  have g: "load_bytes (msg w) 6 n = load_bytes (msg v) 6 n" if "\<not> msg_len v - 6 < n" for n
    using that len by (intro same_message_loads(3) [OF assms]) auto
  have h: "load_bytes (msg w) 7 l = load_bytes (msg v) 7 l"
      "load_bytes (msg w) (7 + l) (n - l) = load_bytes (msg v) (7 + l) (n - l)"
    if "\<not> msg_len v - 7 < n" "\<not> n < l" for n l
    using that len by (auto intro!: same_message_loads(3) [OF assms])
  show ?thesis
    unfolding parse_tagged_msg_def wire_sizes ml f Let_def
    by (intro if_cong refl rbind_cong) (simp_all add: g h cong: rbind_cong)
qed

lemma parse_json_msg_same:
  assumes "same_message w v"
  shows "parse_json_msg w resp error = parse_json_msg v resp error"
proof (cases "msg_len v < CNAM_RESPONSE_HDR_SIZE")
  case True
  then show ?thesis using assms by (simp add: parse_json_msg_def same_message_def)
next
  case False
  then have len: "8 \<le> msg_len v" by (simp add: wire_sizes)
  have ml: "msg_len w = msg_len v" using assms by (simp add: same_message_def)
  have f: "load32 (msg w) 0 = load32 (msg v) 0" "load32 (msg w) 4 = load32 (msg v) 4"
    using len by (auto intro!: same_message_loads [OF assms])
  have g: "load_bytes (msg w) 8 n = load_bytes (msg v) 8 n" if "\<not> msg_len v - 8 < n" for n
    using that len by (intro same_message_loads(3) [OF assms]) auto
  show ?thesis
    unfolding parse_json_msg_def wire_sizes ml f Let_def
    by (intro if_cong refl rbind_cong) (simp_all add: g cong: rbind_cong)
qed

lemma parse_msg_same:
  assumes "same_message w v"
  shows "parse_msg req w resp error = parse_msg req v resp error"
proof -
  have ml: "msg_len w = msg_len v" using assms by (simp add: same_message_def)
  have "parse_confrm_resp_msg w resp error = parse_confrm_resp_msg v resp error"
    unfolding parse_confrm_resp_msg_def wire_sizes ml
    using same_message_loads(2) [OF assms, of 0] by (intro if_cong refl) simp
  then show ?thesis
    unfolding parse_msg_def parse_tagged_msg_same [OF assms] parse_json_msg_same [OF assms]
    by (simp only:)
qed

definition fits_msg :: "request \<Rightarrow> bool" where
  "fits_msg req \<longleftrightarrow>
     req_type req = TAGGED_REQ_VERSION \<and> length (req_data req) + TAGGED_HDR_SIZE \<le> MSG_SZ \<or>
     req_type req = CNAM_REQ_VERSION \<and> length (req_data req) + CNAM_HDR_SIZE \<le> MSG_SZ"

lemma prepare_msg_result:
  "\<exists>n e w'. prepare_msg req error w = (n, e, w') \<and>
    (n = 0 \<and> e = error \<and> fits_msg req \<and> wire_ok w' \<or> n = -1 \<and> \<not> fits_msg req)"
  by (auto simp: prepare_msg_def prepare_tagged_msg_def prepare_json_msg_def fits_msg_def wire_ok_def
      wire_sizes length_store32 TAGGED_REQ_VERSION_def CNAM_REQ_VERSION_def Let_def)

lemma take_message: "length m = n \<Longrightarrow> take n (m @ z) = m"
  by simp

section \<open>Properties\<close>

text \<open>
  C27. A reply as the layout comments describe it comes back from the parser as it was written: a
  tagged reply with routing number and tag of at most 255 bytes together as its number and tag
  (with the terminating NULs), a JSON reply that fits the buffer as its data.
\<close>

theorem parse_reply_roundtrip:
  assumes "length lrn + length tag < 256" "d \<noteq> []" "length d + CNAM_RESPONSE_HDR_SIZE \<le> MSG_SZ"
  shows "parse_msg (req\<lparr>req_type := TAGGED_REQ_VERSION\<rparr>) (received (tagged_reply i lrn tag)) response_zero error =
      Inr (0, \<lparr>resp_id = i, is_confrm = False, val = None, val_1 = Some (lrn @ [NUL]),
               val_2 = (if tag = [] then None else Some (tag @ [NUL]))\<rparr>, error) \<and>
    parse_msg (req\<lparr>req_type := CNAM_REQ_VERSION\<rparr>) (received (json_reply i d)) response_zero error =
      Inr (0, \<lparr>resp_id = i, is_confrm = False, val = Some d, val_1 = None, val_2 = None\<rparr>, error)"
  using parse_tagged_reply [of "req\<lparr>req_type := TAGGED_REQ_VERSION\<rparr>"] assms
    parse_json_reply [of "req\<lparr>req_type := CNAM_REQ_VERSION\<rparr>" d]
  by (simp add: response_zero_def CNAM_RESPONSE_HDR_SIZE_def)

theorem parse_reply_roundtrip_witness:
  "parse_msg \<lparr>req_id = 5, req_type = 0, db_id = 1, req_data = []\<rparr>
      (received (tagged_reply 5 ''1234'' ''tag'')) response_zero None =
    Inr (0, \<lparr>resp_id = 5, is_confrm = False, val = None, val_1 = Some (''1234'' @ [NUL]),
             val_2 = Some (''tag'' @ [NUL])\<rparr>, None) \<and>
   parse_msg \<lparr>req_id = 5, req_type = 1, db_id = 1, req_data = []\<rparr>
      (received (json_reply 5 ''{}'')) response_zero None =
    Inr (0, \<lparr>resp_id = 5, is_confrm = False, val = Some ''{}'', val_1 = None, val_2 = None\<rparr>, None)"
  using parse_reply_roundtrip [of "''1234''" "''tag''" "''{}''" "\<lparr>req_id = 5, req_type = 0, db_id = 1, req_data = []\<rparr>"]
  by (simp add: TAGGED_REQ_VERSION_def CNAM_REQ_VERSION_def wire_sizes)

text \<open>
  C26. Whatever datagram is in the buffer, the parsers return without leaving it, and their
  result depends on the received bytes only, not on what the buffer held before.
\<close>

theorem parse_msg_safe:
  assumes "length m \<le> MSG_SZ" "length rest = MSG_SZ - length m"
  shows "\<exists>r. parse_msg req (received m) resp error = Inr r \<and>
    parse_msg req \<lparr>msg = m @ rest, msg_len = length m\<rparr> resp error = Inr r"
proof -
  have "same_message (received m) \<lparr>msg = m @ rest, msg_len = length m\<rparr>"
    using assms(2) by (simp add: same_message_def received_def)
  moreover have "wire_ok (received m)"
    using assms(1) by (simp add: wire_ok_def received_def)
  ultimately show ?thesis
    using parse_msg_total [of "received m" req resp error] parse_msg_same by metis
qed

theorem parse_msg_safe_witness:
  "\<exists>r. parse_msg \<lparr>req_id = 5, req_type = 0, db_id = 1, req_data = []\<rparr> (received ''abcdefgh'') response_zero None = Inr r \<and>
     parse_msg \<lparr>req_id = 5, req_type = 0, db_id = 1, req_data = []\<rparr>
       \<lparr>msg = ''abcdefgh'' @ replicate 2040 CHR ''x'', msg_len = length ''abcdefgh''\<rparr> response_zero None = Inr r"
  using parse_msg_safe [of "''abcdefgh''" "replicate 2040 CHR ''x''"
      "\<lparr>req_id = 5, req_type = 0, db_id = 1, req_data = []\<rparr>" response_zero None]
  by (simp only: MSG_SZ_def) simp

text \<open>
  C28. A server that follows the layout comments reads a JSON request as it was given; of a
  tagged request, whose length field is one byte, it reads the first \<open>length mod 256\<close> bytes of
  the data. The database id arrives modulo 256.
\<close>

theorem prepare_msg_read:
  assumes "fits_msg req"
  shows "\<exists>w'. prepare_msg req error w = (0, error, w') \<and>
    (if req_type req = TAGGED_REQ_VERSION
     then read_tagged_request (take (msg_len w') (msg w')) =
       Inr (req_id req, nat (db_id req mod 256), 0,
            take (length (req_data req) mod 256) (req_data req))
     else read_json_request (take (msg_len w') (msg w')) =
       Inr (req_id req, nat (db_id req mod 256), 1, req_data req))"
proof -
  let ?d = "req_data req" and ?db = "byte (nat (db_id req mod 256))"
  have "nat (db_id req mod 256) < 256" by (simp add: nat_less_iff)
  then have db: "nat (db_id req mod 256) mod 256 = nat (db_id req mod 256)" by simp
  show ?thesis
  proof (cases "req_type req = TAGGED_REQ_VERSION")
    case True
    then have fits: "length ?d + 7 \<le> MSG_SZ" using assms
      by (auto simp: fits_msg_def wire_sizes TAGGED_REQ_VERSION_def CNAM_REQ_VERSION_def)
    let ?m = "store32 (req_id req) @ [?db, byte 0, byte (length ?d)] @ ?d"
    let ?w = "w\<lparr>msg_len := length ?d + 7, msg := ?m @ zeros (MSG_SZ - (length ?d + 7))\<rparr>"
    have p: "prepare_msg req error w = (0, error, ?w)"
      using fits True
      by (simp add: prepare_msg_def prepare_tagged_msg_def TAGGED_HDR_SIZE_def TAGGED_REQ_VERSION_def Let_def)
    have len: "msg_len ?w = length ?d + 7" "msg ?w = ?m @ zeros (MSG_SZ - (length ?d + 7))"
      by simp_all
    have t: "take (msg_len ?w) (msg ?w) = ?m"
      unfolding len by (rule take_message) (simp add: length_store32)
    have "load_bytes ?d 0 (length ?d mod 256) = Inr (take (length ?d mod 256) ?d)"
      by (simp add: load_bytes_def)
    then have "read_tagged_request ?m =
        Inr (req_id req, nat (db_id req mod 256), 0, take (length ?d mod 256) ?d)"
      using db by (simp add: read_tagged_request_def wire_simps)
    then show ?thesis
      using p t True by (intro exI [of _ ?w]) (simp only: if_True simp_thms)
  next
    case False
    then have d: "req_type req = CNAM_REQ_VERSION" "length ?d + 10 \<le> MSG_SZ" using assms
      by (auto simp: fits_msg_def wire_sizes)
    then have n: "unat (word_of_nat (length ?d) :: 32 word) = length ?d"
      by (simp add: unat_of_nat MSG_SZ_def)
    let ?m = "store32 (req_id req) @ [?db, byte 1] @ store32 (word_of_nat (length ?d)) @ ?d"
    let ?w = "w\<lparr>msg_len := length ?d + 10, msg := ?m @ zeros (MSG_SZ - (length ?d + 10))\<rparr>"
    have p: "prepare_msg req error w = (0, error, ?w)"
      using d False
      by (simp add: prepare_msg_def prepare_json_msg_def CNAM_HDR_SIZE_def CNAM_REQ_VERSION_def Let_def)
    have len: "msg_len ?w = length ?d + 10" "msg ?w = ?m @ zeros (MSG_SZ - (length ?d + 10))"
      by simp_all
    have t: "take (msg_len ?w) (msg ?w) = ?m"
      unfolding len by (rule take_message) (simp add: length_store32)
    have "load_bytes ?d 0 (length ?d) = Inr ?d"
      by (simp add: load_bytes_def)
    then have "read_json_request ?m = Inr (req_id req, nat (db_id req mod 256), 1, ?d)"
      using db n by (simp add: read_json_request_def wire_simps)
    then show ?thesis
      using p t False by (intro exI [of _ ?w]) (simp only: if_False simp_thms)
  qed
qed

theorem prepare_msg_read_witness:
  "\<exists>w'. prepare_msg \<lparr>req_id = 7, req_type = 0, db_id = 2, req_data = replicate 300 CHR ''1''\<rparr> None (received []) =
      (0, None, w') \<and>
    read_tagged_request (take (msg_len w') (msg w')) = Inr (7, 2, 0, replicate 44 CHR ''1'')"
  using prepare_msg_read [of "\<lparr>req_id = 7, req_type = 0, db_id = 2, req_data = replicate 300 CHR ''1''\<rparr>"
      None "received []"]
  by (simp add: fits_msg_def wire_sizes TAGGED_REQ_VERSION_def)

text \<open>
  An error reply (six bytes of header, as the code's own \<open>TAGGED_ERR_RESPONSE_HDR_SIZE\<close> has
  it) becomes the error \<open>remote: code <text>\<close>; one without a text is rejected as too small,
  because the check for seven bytes comes first.
\<close>

lemma parse_error_reply_result:
  assumes "req_type req = TAGGED_REQ_VERSION" "0 < code" "code < 256" "length t < 256"
  shows "parse_msg req (received (error_reply i code t)) response_zero error =
    (if t = [] then Inr (-1, response_zero, too_small)
     else Inr (1, response_zero\<lparr>resp_id := i\<rparr>, remote_error code t))"
proof (cases "t = []")
  case True
  then show ?thesis
    using assms
    by (simp add: parse_msg_def parse_confrm_resp_msg_def parse_tagged_msg_def received_def
        error_reply_def wire_sizes wire_simps)
qed (simp add: parse_error_reply assms)

end
