(* ===== verification/Resolver.thy ===== *)
theory Resolver
  imports Resolver_Wire Uri_Parser
begin

text \<open>
  The table of endpoints of src/resolver.c: at most five endpoints with the index of the
  current one, its operations and its invariant. \<open>inet_aton\<close> is a parameter.
\<close>

section \<open>Endpoints\<close>

definition MAX_ENDPOINT_LEN :: nat where "MAX_ENDPOINT_LEN = 128"
definition MAX_ENDPOINTS :: nat where "MAX_ENDPOINTS = 5"
definition DEFAULT_RTT_TIMEOUT_MSEC :: int where "DEFAULT_RTT_TIMEOUT_MSEC = 5"

record endpoint =
  ep_id :: int
  ep_addr :: sockaddr_in
  ep_url :: bytes

record resolver = wire +
  endpoints :: "endpoint list"
  endpoints_count :: nat
  curr_endpoint_index :: nat
  rtt_timeout :: int

definition endpoint_zero :: endpoint where
  "endpoint_zero = \<lparr>ep_id = 0, ep_addr = \<lparr>sin_port = 0, sin_addr = 0\<rparr>, ep_url = zeros MAX_ENDPOINT_LEN\<rparr>"

definition resolver_new :: resolver where
  "resolver_new = \<lparr>msg = zeros MSG_SZ, msg_len = 0, endpoints = replicate MAX_ENDPOINTS endpoint_zero,
     endpoints_count = 0, curr_endpoint_index = 0, rtt_timeout = DEFAULT_RTT_TIMEOUT_MSEC\<rparr>"

definition resolver_init :: "resolver \<Rightarrow> int \<times> resolver" where
  "resolver_init rs = (0, rs\<lparr>endpoints := replicate MAX_ENDPOINTS endpoint_zero\<rparr>)"

text \<open>A store through \<open>endp = &endpoints[endpoints_count]\<close>.\<close>

definition store_endpoint :: "endpoint \<Rightarrow> resolver \<Rightarrow> resolver res" where
  "store_endpoint e rs =
     (if endpoints_count rs < length (endpoints rs)
      then Inr (rs\<lparr>endpoints := (endpoints rs)[endpoints_count rs := e]\<rparr>) else Inl OutOfBounds)"

definition add_endpoint :: "(bytes \<Rightarrow> 32 word option) \<Rightarrow> bytes \<Rightarrow> resolver \<Rightarrow> (int \<times> resolver) res" where
  "add_endpoint inet_aton uri rs =
     (if endpoints_count rs = MAX_ENDPOINTS then Inr (-1, rs)
      else rbind (store_endpoint endpoint_zero rs) (\<lambda>rs1.
        rbind (parseAddr (Some uri) (Some uri_zero)) (\<lambda>(r, out).
          case out of
            None \<Rightarrow> Inr (-1, rs1)
          | Some comps \<Rightarrow>
              if r = -1 then Inr (-1, rs1)
              else rbind (strncpy (zeros MAX_ENDPOINT_LEN) uri MAX_ENDPOINT_LEN) (\<lambda>url.
                rbind (cstr (host comps)) (\<lambda>h.
                  (let e = \<lparr>ep_id = int (endpoints_count rs1),
                            ep_addr = \<lparr>sin_port = word_of_int (port comps), sin_addr = 0\<rparr>,
                            ep_url = url\<rparr>
                   in case inet_aton h of
                        None \<Rightarrow> rbind (store_endpoint e rs1) (\<lambda>rs2. Inr (-1, rs2))
                      | Some a \<Rightarrow>
                          rbind (store_endpoint (e\<lparr>ep_addr := (ep_addr e)\<lparr>sin_addr := a\<rparr>\<rparr>) rs1)
                            (\<lambda>rs2. Inr (0, rs2\<lparr>endpoints_count := endpoints_count rs2 + 1\<rparr>))))))))"

definition get_endpoints_count :: "resolver \<Rightarrow> nat" where
  "get_endpoints_count rs = endpoints_count rs"

definition get_endpoint_at_index :: "int \<Rightarrow> resolver \<Rightarrow> endpoint option" where
  "get_endpoint_at_index i rs =
     (if i \<ge> 0 \<and> i < int (endpoints_count rs) then Some (endpoints rs ! nat i) else None)"

definition get_next_endpoint :: "resolver \<Rightarrow> (endpoint option \<times> resolver) res" where
  "get_next_endpoint rs =
     (if endpoints_count rs = 0 then Inl DivByZero
      else (let rs1 = rs\<lparr>curr_endpoint_index := (curr_endpoint_index rs + 1) mod endpoints_count rs\<rparr>
            in Inr (get_endpoint_at_index (int (curr_endpoint_index rs1)) rs1, rs1)))"

definition get_current_endpoint :: "resolver \<Rightarrow> (endpoint option \<times> resolver) res" where
  "get_current_endpoint rs =
     (if curr_endpoint_index rs < endpoints_count rs
      then Inr (get_endpoint_at_index (int (curr_endpoint_index rs)) rs, rs)
      else get_next_endpoint rs)"

definition remove_all_endpoints :: "resolver \<Rightarrow> int \<times> resolver" where
  "remove_all_endpoints rs =
     (0, rs\<lparr>endpoints := replicate (endpoints_count rs) endpoint_zero @
               drop (endpoints_count rs) (endpoints rs),
            endpoints_count := 0, curr_endpoint_index := 0\<rparr>)"

definition set_rtt_timeout :: "int \<Rightarrow> resolver \<Rightarrow> int \<times> resolver" where
  "set_rtt_timeout timeout rs = (0, rs\<lparr>rtt_timeout := timeout\<rparr>)"

section \<open>The table of endpoints\<close>

text \<open>What the wire functions leave alone.\<close>

definition ep_table :: "resolver \<Rightarrow> endpoint list \<times> nat \<times> nat \<times> int" where
  "ep_table r = (endpoints r, endpoints_count r, curr_endpoint_index r, rtt_timeout r)"

definition endpoint_ok :: "nat \<Rightarrow> endpoint \<Rightarrow> bool" where
  "endpoint_ok i e \<longleftrightarrow> ep_id e = int i \<and> length (ep_url e) = MAX_ENDPOINT_LEN \<and> NUL \<in> set (ep_url e)"

definition resolver_inv :: "resolver \<Rightarrow> bool" where
  "resolver_inv r \<longleftrightarrow>
     length (endpoints r) = MAX_ENDPOINTS \<and> endpoints_count r \<le> MAX_ENDPOINTS \<and>
     (if endpoints_count r = 0 then curr_endpoint_index r = 0
      else curr_endpoint_index r < endpoints_count r) \<and>
     (\<forall>i < endpoints_count r. endpoint_ok i (endpoints r ! i))"

lemma resolver_inv_table: "ep_table r = ep_table r' \<Longrightarrow> resolver_inv r = resolver_inv r'"
  by (simp add: resolver_inv_def ep_table_def)

lemma prepare_msg_table: "prepare_msg req error r = (c, e, r') \<Longrightarrow> ep_table r' = ep_table r"
  by (auto simp: prepare_msg_def prepare_tagged_msg_def prepare_json_msg_def ep_table_def Let_def
      split: if_splits)

lemma resolver_inv_new: "resolver_inv resolver_new"
  by (simp add: resolver_inv_def resolver_new_def)

lemma resolver_inv_init: "resolver_inv r \<Longrightarrow> endpoints_count r = 0 \<Longrightarrow> resolver_inv (snd (resolver_init r))"
  by (simp add: resolver_inv_def resolver_init_def)

lemma resolver_inv_remove: "resolver_inv r \<Longrightarrow> resolver_inv (snd (remove_all_endpoints r))"
  by (simp add: resolver_inv_def remove_all_endpoints_def)

lemma resolver_inv_rtt: "resolver_inv r \<Longrightarrow> resolver_inv (snd (set_rtt_timeout t r))"
  by (simp add: resolver_inv_def set_rtt_timeout_def)

lemma parseAddr_short: "parseAddr (Some a) u = Inr (0, Some c) \<Longrightarrow> length a < SOCKADDR_SIZE"
  by (auto simp: parseAddr_def res_simps split: if_splits option.splits)

lemma parseAddr_code:
  "parseAddr (Some a) (Some u) = Inr (r, out) \<Longrightarrow> r = -1 \<or> r = 0 \<and> (\<exists>c. out = Some c)"
  by (auto simp: parseAddr_def res_simps split: if_splits)

lemma store_endpoint_ok:
  "endpoints_count r < length (endpoints r) \<Longrightarrow>
    store_endpoint e r = Inr (r\<lparr>endpoints := (endpoints r)[endpoints_count r := e]\<rparr>)"
  by (simp add: store_endpoint_def)

lemma resolver_inv_store:
  "resolver_inv r \<Longrightarrow> resolver_inv (r\<lparr>endpoints := (endpoints r)[endpoints_count r := e]\<rparr>)"
  by (auto simp: resolver_inv_def)

lemma resolver_inv_add1:
  assumes "resolver_inv r" "endpoints_count r < MAX_ENDPOINTS" "endpoint_ok (endpoints_count r) e"
  shows "resolver_inv (r\<lparr>endpoints := (endpoints r)[endpoints_count r := e],
    endpoints_count := Suc (endpoints_count r)\<rparr>)"
  using assms
  by (cases "endpoints_count r = 0") (auto simp: resolver_inv_def nth_list_update less_Suc_eq)

text \<open>The result of \<open>add_endpoint\<close>: refused, or the new endpoint in the next slot.\<close>

lemma add_endpoint_result:
  assumes inv: "resolver_inv r" and nul: "NUL \<notin> set uri"
    and add: "add_endpoint inet_aton uri r = Inr (c, r')"
  shows "(c = -1 \<and> (\<exists>e. r' = r \<or> r' = r\<lparr>endpoints := (endpoints r)[endpoints_count r := e]\<rparr>)) \<or>
    (c = 0 \<and> endpoints_count r < MAX_ENDPOINTS \<and>
     (\<exists>e. endpoint_ok (endpoints_count r) e \<and> cstr (ep_url e) = Inr uri \<and>
       r' = r\<lparr>endpoints := (endpoints r)[endpoints_count r := e], endpoints_count := Suc (endpoints_count r)\<rparr>))"
proof (cases "endpoints_count r = MAX_ENDPOINTS")
  case True
  then show ?thesis using add by (auto simp: add_endpoint_def)
next
  case False
  then have n: "endpoints_count r < MAX_ENDPOINTS" "endpoints_count r < length (endpoints r)"
    using inv by (auto simp: resolver_inv_def)
  have st: "store_endpoint e (r\<lparr>endpoints := (endpoints r)[endpoints_count r := e0]\<rparr>) =
      Inr (r\<lparr>endpoints := (endpoints r)[endpoints_count r := e]\<rparr>)" for e e0
    using n by (simp add: store_endpoint_def)
  obtain code out where p: "parseAddr (Some uri) (Some uri_zero) = Inr (code, out)"
    using add False n by (auto simp: add_endpoint_def res_simps)
  show ?thesis
  proof (cases "code = -1")
    case True
    then show ?thesis
      using add False n p by (auto simp: add_endpoint_def store_endpoint_ok split: option.splits)
  next
    case False': False
    then obtain comps where out: "code = 0" "out = Some comps"
      using parseAddr_code [OF p] by auto
    then have len: "length uri < MAX_ENDPOINT_LEN"
      using parseAddr_short p by (simp add: SOCKADDR_SIZE_def MAX_ENDPOINT_LEN_def)
    from slot_size.store_fits [OF nul len] obtain url where
      url: "strncpy (zeros MAX_ENDPOINT_LEN) uri MAX_ENDPOINT_LEN = Inr url" "cstr url = Inr uri"
        "length url = MAX_ENDPOINT_LEN"
      by blast
    let ?e = "\<lambda>a. \<lparr>ep_id = int (endpoints_count r),
      ep_addr = \<lparr>sin_port = word_of_int (port comps), sin_addr = a\<rparr>, ep_url = url\<rparr>"
    have "NUL \<in> set url" using url(2) by (auto simp: cstr_def split: if_splits)
    moreover obtain h where "cstr (host comps) = Inr h"
      using add False n p out url by (auto simp: add_endpoint_def res_simps store_endpoint_ok)
    ultimately have eq: "add_endpoint inet_aton uri r =
      (case inet_aton h of
         None \<Rightarrow> Inr (-1, r\<lparr>endpoints := (endpoints r)[endpoints_count r := ?e 0]\<rparr>)
       | Some a \<Rightarrow> Inr (0, r\<lparr>endpoints := (endpoints r)[endpoints_count r := ?e a],
            endpoints_count := Suc (endpoints_count r)\<rparr>))"
      using False n p out url
      by (simp add: add_endpoint_def store_endpoint_ok st Let_def split: option.split)
    have e: "endpoint_ok (endpoints_count r) (?e a)" "cstr (ep_url (?e a)) = Inr uri" for a
      using url \<open>NUL \<in> set url\<close> by (simp_all add: endpoint_ok_def)
    show ?thesis
    proof (cases "inet_aton h")
      case None
      then have "c = -1" "r' = r\<lparr>endpoints := (endpoints r)[endpoints_count r := ?e 0]\<rparr>"
        using add eq by simp_all
      then show ?thesis by blast
    next
      case (Some a)
      then have "c = 0" "r' = r\<lparr>endpoints := (endpoints r)[endpoints_count r := ?e a],
          endpoints_count := Suc (endpoints_count r)\<rparr>"
        using add eq by simp_all
      then show ?thesis using e n(1) by blast
    qed
  qed
qed

lemma resolver_inv_add:
  "resolver_inv r \<Longrightarrow> NUL \<notin> set uri \<Longrightarrow> add_endpoint inet_aton uri r = Inr (c, r') \<Longrightarrow> resolver_inv r'"
  using add_endpoint_result [of r uri inet_aton c r'] resolver_inv_store [of r] resolver_inv_add1 [of r]
  by fastforce

lemma get_next_endpoint_result:
  assumes "resolver_inv r" "0 < endpoints_count r"
  shows "get_next_endpoint r =
    (let i = (curr_endpoint_index r + 1) mod endpoints_count r
     in Inr (Some (endpoints r ! i), r\<lparr>curr_endpoint_index := i\<rparr>))"
  using assms by (simp add: get_next_endpoint_def get_endpoint_at_index_def Let_def)

lemma resolver_inv_next:
  assumes "resolver_inv r" "get_next_endpoint r = Inr (e, r')"
  shows "resolver_inv r'"
  using assms by (auto simp: get_next_endpoint_def resolver_inv_def Let_def split: if_splits)

lemma get_current_endpoint_result:
  "resolver_inv r \<Longrightarrow> 0 < endpoints_count r \<Longrightarrow>
    get_current_endpoint r = Inr (Some (endpoints r ! curr_endpoint_index r), r)"
  by (simp add: get_current_endpoint_def get_endpoint_at_index_def resolver_inv_def)

end
