(* ===== verification/Resolve.thy ===== *)
theory Resolve
  imports Resolver Request_Id
begin

text \<open>
  \<open>resolve\<close> of src/resolver.c: it sends a request to the current endpoint, goes on to the
  next one when no reply comes in time, and reads datagrams until one answers the request. The
  state is threaded through; a call that raises (\<open>err\<close> is \<open>elog(ERROR)\<close>, see log.h) leaves the
  state it has reached. \<open>rand\<close> is a parameter, the system calls are the scripts of the network.
\<close>

section \<open>Resolving\<close>

text \<open>
  The globals of the modules \<open>resolve\<close> works with: the resolver's, the transport's, the request
  counter, the generator of the C library, and the network.
\<close>

record 'r world =
  rs :: resolver
  tr :: transport
  next_id :: "32 word"
  rng :: 'r
  net :: net

type_synonym ('a, 'r, 'z) call = "'a res \<times> ('r, 'z) world_scheme"

abbreviation apostrophe :: char where "apostrophe \<equiv> CHR 0x27"

lemma tr_recv_data_ok:
  assumes "tr_recv_data t len error n = Inr (k, d, error', n')" "0 \<le> k"
  obtains x rest where "retry_eintr (recvs n) = Inr (SysOk x, rest)" "d = take len x"
    "k = int (length d)" "error' = error" "n' = n\<lparr>recvs := rest\<rparr>"
proof (cases "retry_eintr (recvs n)")
  case (Inl f)
  then show ?thesis using assms by (simp add: tr_recv_data_def split: if_splits)
next
  case (Inr p)
  obtain r rest where p: "p = (r, rest)" by (cases p)
  show ?thesis
    using assms Inr p that by (cases r) (auto simp: tr_recv_data_def split: if_splits)
qed

lemma tr_recv_data_shorter:
  assumes "tr_recv_data t len error n = Inr (k, d, error', n')" "0 \<le> k"
  shows "length (recvs n') < length (recvs n)"
  using assms by (rule tr_recv_data_ok) (auto dest: retry_eintr_shorter)

text \<open>The \<open>while (true)\<close> that receives until a full response to this request is there.\<close>

function recv_loop ::
  "request \<Rightarrow> response \<Rightarrow> bytes option \<Rightarrow> ('r, 'z) world_scheme
     \<Rightarrow> (int \<times> response \<times> bytes option, 'r, 'z) call" where
  "recv_loop req resp error w =
     (case tr_recv_data (tr w) MSG_SZ error (net w) of
        Inl f \<Rightarrow> (Inl f, w)
      | Inr (n, d, error1, net1) \<Rightarrow>
          (let w1 = w\<lparr>net := net1, rs := (rs w)\<lparr>msg := zeros MSG_SZ\<rparr>\<rparr> in
           if n < 0 then
             (Inr (-1, resp,
                   case error1 of
                     None \<Rightarrow> set_error (''can'' @ [apostrophe] @ ''t receive response for req_id:'' @
                                dec (unat (req_id req)))
                   | Some t \<Rightarrow> Some t), w1)
           else if nat n \<ge> MSG_SZ then (Inl OutOfBounds, w1)
           else (let w2 = w1\<lparr>rs := (rs w1)\<lparr>msg := d @ zeros (MSG_SZ - length d), msg_len := length d\<rparr>\<rparr>
                 in case parse_msg req (rs w2) response_zero error1 of
                      Inl f \<Rightarrow> (Inl f, w2)
                    | Inr (c, resp1, error2) \<Rightarrow>
                        if c \<noteq> 0 then (Inr (-1, resp1, error2), w2)
                        else if is_confrm resp1 then recv_loop req resp1 error2 w2
                        else if resp_id resp1 \<noteq> req_id req then recv_loop req resp1 error2 w2
                        else (Inr (0, resp1, error2), w2))))"
  by pat_completeness auto
termination
  by (relation "measure (\<lambda>(req, resp, error, w). length (recvs (net w)))")
    (auto dest: tr_recv_data_shorter)

declare recv_loop.simps [simp del]

text \<open>The end of \<open>resolve\<close> after the loop over the endpoints.\<close>

definition resolve_failed ::
  "request \<Rightarrow> response \<Rightarrow> bytes option \<Rightarrow> (int \<times> response \<times> bytes option) res" where
  "resolve_failed req resp error =
     Inr (-1, resp, case error of
            None \<Rightarrow> set_error (''local: failed to get response for req_id:'' @ dec (unat (req_id req)))
          | Some t \<Rightarrow> Some t)"

text \<open>The error of a poll that failed, or that ended without a reply.\<close>

definition poll_error :: "32 word \<Rightarrow> nat sysres \<Rightarrow> bytes option" where
  "poll_error i r =
     (case r of
        SysErr (Errno k t) \<Rightarrow> set_error (''local: rtt poll failed with errno:'' @ dec k @
          '', req_id:'' @ dec (unat i))
      | _ \<Rightarrow> set_error (''local: rtt waiting expired. req_id:'' @ dec (unat i)))"

text \<open>
  The loop over the endpoints. When sending fails, \<open>err\<close> does not return, so the
  \<open>get_next_endpoint\<close> behind it is not reached.
\<close>

primrec resolve_loop ::
  "('r \<Rightarrow> nat \<times> 'r) \<Rightarrow> nat \<Rightarrow> endpoint option \<Rightarrow> request \<Rightarrow> response \<Rightarrow> bytes option
     \<Rightarrow> ('r, 'z) world_scheme \<Rightarrow> (int \<times> response \<times> bytes option, 'r, 'z) call" where
  "resolve_loop rand 0 endp req resp error w = (resolve_failed req resp error, w)"
| "resolve_loop rand (Suc endpoints_left) endp req resp error w =
     (case endp of None \<Rightarrow> (resolve_failed req resp error, w) | Some e \<Rightarrow>
      let (i, rng1, id1) = gen_request_id rand (rng w) (next_id w);
          req1 = req\<lparr>req_id := i\<rparr>;
          (c, error1, rs1) = prepare_msg req1 error (rs w);
          w1 = w\<lparr>rng := rng1, next_id := id1, rs := rs1\<rparr>
      in if c \<noteq> 0 then (Inr (-1, resp, error1), w1)
         else (case tr_send_data (tr w1) (take (msg_len rs1) (msg rs1)) (ep_addr e) error1 (net w1) of
             Inl f \<Rightarrow> (Inl f, w1)
           | Inr (n, error2, net2) \<Rightarrow>
               (let w2 = w1\<lparr>net := net2\<rparr> in
                if n < 0 \<or> n \<noteq> int (msg_len rs1)
                then (Inl (PgError (''can'' @ [apostrophe] @ ''t send request'')), w2)
                else (case retry_eintr (polls (net w2)) of
                    Inl f \<Rightarrow> (Inl f, w2)
                  | Inr (r, rest) \<Rightarrow>
                      (let w3 = w2\<lparr>net := (net w2)\<lparr>polls := rest\<rparr>\<rparr>
                       in case r of
                            SysOk (Suc k) \<Rightarrow> recv_loop req1 resp None w3
                          | _ \<Rightarrow> (case get_next_endpoint (rs w3) of
                                Inl f \<Rightarrow> (Inl f, w3)
                              | Inr (endp', rs4) \<Rightarrow>
                                  resolve_loop rand endpoints_left endp' req1 resp (poll_error i r)
                                    (w3\<lparr>rs := rs4\<rparr>)))))))"

definition resolve ::
  "('r \<Rightarrow> nat \<times> 'r) \<Rightarrow> request \<Rightarrow> response \<Rightarrow> bytes option \<Rightarrow> ('r, 'z) world_scheme
     \<Rightarrow> (int \<times> response \<times> bytes option, 'r, 'z) call" where
  "resolve rand req resp error w =
     (if endpoints_count (rs w) \<le> 0
      then (Inr (-1, resp, set_error ''local: no configured endpoints''), w)
      else (case get_current_endpoint (rs w) of
              Inl f \<Rightarrow> (Inl f, w)
            | Inr (endp, rs1) \<Rightarrow>
                resolve_loop rand (endpoints_count rs1) endp req resp error (w\<lparr>rs := rs1\<rparr>)))"


section \<open>The receiving loop\<close>

lemma parse_msg_view: "parse_msg req w resp error = parse_msg req \<lparr>msg = msg w, msg_len = msg_len w\<rparr> resp error"
proof -
  have "parse_tagged_msg w r e = parse_tagged_msg \<lparr>msg = msg w, msg_len = msg_len w\<rparr> r e"
    "parse_json_msg w r e = parse_json_msg \<lparr>msg = msg w, msg_len = msg_len w\<rparr> r e"
    "parse_confrm_resp_msg w r e = parse_confrm_resp_msg \<lparr>msg = msg w, msg_len = msg_len w\<rparr> r e" for r e
    by (simp_all only: parse_confrm_resp_msg_def parse_tagged_msg_def parse_json_msg_def wire.select_convs)
  then show ?thesis unfolding parse_msg_def by presburger
qed

text \<open>What the loop does with one datagram.\<close>

datatype verdict = Accept response | Skip response | Reject int response "bytes option"

definition judge :: "request \<Rightarrow> bytes option \<Rightarrow> bytes \<Rightarrow> verdict" where
  "judge req error d =
     (case parse_msg req (received d) response_zero error of
        Inl f \<Rightarrow> Reject (-1) response_zero error
      | Inr (c, resp, error') \<Rightarrow>
          if c \<noteq> 0 then Reject c resp error'
          else if is_confrm resp \<or> resp_id resp \<noteq> req_id req then Skip resp
          else Accept resp)"

text \<open>A message that parses leaves the error pointer alone.\<close>

lemma parse_msg_error:
  assumes "parse_msg req w resp error = Inr (0, resp', error')"
  shows "error' = error"
proof -
  have small: "parse_msg req w resp error \<noteq> Inr (0, r, e)" if "msg_len w < 4" for r e
    using that by (auto simp: parse_msg_def parse_confrm_resp_msg_def parse_tagged_msg_def
        parse_json_msg_def wire_sizes split: if_splits)
  have tagged: "parse_tagged_msg w resp e = Inr (0, r, e') \<Longrightarrow> e' = e" for e r e'
    by (auto simp: parse_tagged_msg_def res_simps Let_def split: if_splits)
  have json: "parse_json_msg w resp e = Inr (0, r, e') \<Longrightarrow> e' = e" for e r e'
    by (auto simp: parse_json_msg_def res_simps Let_def split: if_splits)
  show ?thesis
  proof (cases "msg_len w < 4")
    case True
    then show ?thesis using small assms by blast
  next
    case False
    then show ?thesis
      using assms tagged json
      by (auto simp: parse_msg_def parse_confrm_resp_msg_def res_simps wire_sizes split: if_splits)
  qed
qed

text \<open>The world after a datagram has been received.\<close>

definition take_datagram :: "bytes \<Rightarrow> bytes sysres list \<Rightarrow> ('r, 'z) world_scheme \<Rightarrow> ('r, 'z) world_scheme" where
  "take_datagram d rest w =
     w\<lparr>net := (net w)\<lparr>recvs := rest\<rparr>,
       rs := (rs w)\<lparr>msg := d @ zeros (MSG_SZ - length d), msg_len := length d\<rparr>\<rparr>"

lemma recv_loop_datagram:
  assumes "0 \<le> socket_fd (tr w)" "retry_eintr (recvs (net w)) = Inr (SysOk d, rest)" "length d < MSG_SZ"
  shows "recv_loop req resp error w =
    (case judge req error d of
       Accept r \<Rightarrow> (Inr (0, r, error), take_datagram d rest w)
     | Skip r \<Rightarrow> recv_loop req r error (take_datagram d rest w)
     | Reject c r e \<Rightarrow> (Inr (-1, r, e), take_datagram d rest w))"
proof -
  let ?w = "take_datagram d rest w"
  have view: "parse_msg req (rs ?w) response_zero error = parse_msg req (received d) response_zero error"
    by (subst parse_msg_view) (simp add: take_datagram_def received_def)
  have ok: "wire_ok (received d)" using assms(3) by (simp add: wire_ok_def received_def)
  obtain c r e where p: "parse_msg req (received d) response_zero error = Inr (c, r, e)"
    using parse_msg_total [OF ok] by (metis prod.collapse)
  have e: "e = error" if "c = 0" using parse_msg_error p that by blast
  have "recv_loop req resp error w =
      (if c \<noteq> 0 then (Inr (-1, r, e), ?w)
       else if is_confrm r then recv_loop req r e ?w
       else if resp_id r \<noteq> req_id req then recv_loop req r e ?w
       else (Inr (0, r, e), ?w))"
    using assms p view
    by (subst recv_loop.simps) (simp add: tr_recv_data_def take_datagram_def Let_def)
  then show ?thesis using p e by (auto simp: judge_def)
qed

lemma recv_loop_oversize:
  assumes "0 \<le> socket_fd (tr w)" "retry_eintr (recvs (net w)) = Inr (SysOk d, rest)" "MSG_SZ \<le> length d"
  shows "fst (recv_loop req resp error w) = Inl OutOfBounds"
  using assms by (subst recv_loop.simps) (simp add: tr_recv_data_def Let_def)

text \<open>What the loop does not touch.\<close>

definition same_frame :: "('r, 'z) world_scheme \<Rightarrow> ('r, 'z) world_scheme \<Rightarrow> bool" where
  "same_frame w w' \<longleftrightarrow> ep_table (rs w') = ep_table (rs w) \<and> tr w' = tr w \<and> next_id w' = next_id w \<and>
     rng w' = rng w \<and> sends (net w') = sends (net w) \<and> polls (net w') = polls (net w) \<and>
     sent (net w') = sent (net w)"

lemma same_frame_refl [simp]: "same_frame w w"
  by (simp add: same_frame_def)

lemma same_frame_trans: "same_frame w w' \<Longrightarrow> same_frame w' w'' \<Longrightarrow> same_frame w w''"
  by (simp add: same_frame_def)

lemma take_datagram_frame [simp]: "same_frame w (take_datagram d rest w)"
  by (simp add: same_frame_def take_datagram_def ep_table_def)

lemma take_datagram_net [simp]:
  "recvs (net (take_datagram d rest w)) = rest" "tr (take_datagram d rest w) = tr w"
  by (simp_all add: take_datagram_def)

text \<open>
  Induction over the loop, by the datagrams it receives: it blocks, it fails on an error or an
  oversized datagram, or it judges the datagram.
\<close>

lemma recv_loop_cases:
  obtains (failed) r w' where "recv_loop req resp error w = (r, w')" "same_frame w w'"
      "\<forall>q e. r \<noteq> Inr (0, q, e)"
  | (datagram) d rest where "0 \<le> socket_fd (tr w)" "retry_eintr (recvs (net w)) = Inr (SysOk d, rest)"
      "length d < MSG_SZ"
proof (cases "socket_fd (tr w) < 0")
  case True
  show ?thesis
    by (rule failed [OF surjective_pairing]; subst recv_loop.simps)
      (auto simp: True tr_recv_data_def same_frame_def ep_table_def Let_def)
next
  case fd: False
  show ?thesis
  proof (cases "retry_eintr (recvs (net w))")
    case (Inl f)
    show ?thesis
      by (rule failed [OF surjective_pairing]; subst recv_loop.simps) (auto simp: Inl fd tr_recv_data_def)
  next
    case (Inr p)
    obtain x rest where p: "p = (x, rest)" by (cases p)
    show ?thesis
    proof (cases x)
      case (SysErr e)
      show ?thesis
        by (rule failed [OF surjective_pairing]; subst recv_loop.simps)
          (auto simp: Inr p SysErr fd tr_recv_data_def same_frame_def ep_table_def Let_def)
    next
      case (SysOk d)
      show ?thesis
      proof (cases "length d < MSG_SZ")
        case True
        then show ?thesis using datagram fd Inr p SysOk by simp
      next
        case False
        show ?thesis
          by (rule failed [OF surjective_pairing]; subst recv_loop.simps)
            (use False in \<open>auto simp: Inr p SysOk fd tr_recv_data_def same_frame_def ep_table_def Let_def\<close>)
      qed
    qed
  qed
qed

lemma retry_eintr_mem: "retry_eintr xs = Inr (r, rest) \<Longrightarrow> r \<in> set xs \<and> set rest \<subseteq> set xs"
  by (induction xs) (auto split: if_splits)

lemma recv_loop_frame: "same_frame w (snd (recv_loop req resp error w))"
proof (induction "length (recvs (net w))" arbitrary: resp w rule: less_induct)
  case less
  show ?case
  proof (cases rule: recv_loop_cases [of req resp error w])
    case (failed r w')
    then show ?thesis by simp
  next
    case (datagram d rest)
    have IH: "same_frame (take_datagram d rest w) (snd (recv_loop req q error (take_datagram d rest w)))" for q
      using retry_eintr_shorter [OF datagram(2)] by (intro less) simp
    then show ?thesis
      using same_frame_trans [OF take_datagram_frame IH]
      by (auto simp: recv_loop_datagram [OF datagram] split: verdict.split)
  qed
qed

text \<open>Only a full response to this request ends the loop with success.\<close>

lemma recv_loop_sound:
  "recv_loop req resp error w = (Inr (0, r, e), w') \<Longrightarrow>
    e = error \<and> (\<exists>d. SysOk d \<in> set (recvs (net w)) \<and> length d < MSG_SZ \<and> judge req error d = Accept r)"
proof (induction "length (recvs (net w))" arbitrary: resp w rule: less_induct)
  case less
  show ?case
  proof (cases rule: recv_loop_cases [of req resp error w])
    case (failed r1 w1)
    then have "r1 = Inr (0, r, e)" using less.prems by simp
    then show ?thesis using failed(3) by simp
  next
    case (datagram d rest)
    have mem: "SysOk d \<in> set (recvs (net w))" "set rest \<subseteq> set (recvs (net w))"
      using retry_eintr_mem [OF datagram(2)] by auto
    show ?thesis
    proof (cases "judge req error d")
      case (Accept q)
      then show ?thesis using less.prems mem datagram(3) by (auto simp: recv_loop_datagram [OF datagram])
    next
      case (Skip q)
      then have "recv_loop req q error (take_datagram d rest w) = (Inr (0, r, e), w')"
        using less.prems by (simp add: recv_loop_datagram [OF datagram])
      from less.hyps [OF _ this] retry_eintr_shorter [OF datagram(2)] mem show ?thesis by auto
    next
      case (Reject c q f)
      then show ?thesis using less.prems by (simp add: recv_loop_datagram [OF datagram])
    qed
  qed
qed

text \<open>Confirmations and answers to other requests are passed over.\<close>

text \<open>What the caller gets when a datagram ends the loop.\<close>

fun final :: "bytes option \<Rightarrow> verdict \<Rightarrow> int \<times> response \<times> bytes option" where
  "final error (Accept r) = (0, r, error)"
| "final error (Skip r) = (-1, r, error)"
| "final error (Reject c r e) = (-1, r, e)"

lemma recv_loop_skips:
  assumes "0 \<le> socket_fd (tr w)" "recvs (net w) = map SysOk ds @ SysOk d # rest"
    "\<forall>x \<in> set ds. length x < MSG_SZ \<and> (\<exists>q. judge req error x = Skip q)"
    "length d < MSG_SZ" "judge req error d = v" "\<forall>q. v \<noteq> Skip q"
  shows "\<exists>w'. recv_loop req resp error w = (Inr (final error v), w') \<and> recvs (net w') = rest"
  using assms(1-3)
proof (induction ds arbitrary: resp w)
  case Nil
  then have "retry_eintr (recvs (net w)) = Inr (SysOk d, rest)" by simp
  from recv_loop_datagram [OF Nil(1) this assms(4)] assms(5,6) show ?case by (cases v) auto
next
  case (Cons x xs)
  let ?rest = "map SysOk xs @ SysOk d # rest"
  have x: "retry_eintr (recvs (net w)) = Inr (SysOk x, ?rest)" "length x < MSG_SZ"
    using Cons.prems by simp_all
  obtain q where "judge req error x = Skip q" using Cons.prems(3) by auto
  then have "recv_loop req resp error w = recv_loop req q error (take_datagram x ?rest w)"
    using recv_loop_datagram [OF Cons.prems(1) x] by simp
  moreover have "\<exists>w'. recv_loop req q error (take_datagram x ?rest w) = (Inr (final error v), w') \<and>
      recvs (net w') = rest"
    using Cons.prems by (intro Cons.IH) auto
  ultimately show ?case by simp
qed

lemma judge_accept:
  assumes "judge req error d = Accept r"
  shows "\<not> is_confrm r \<and> resp_id r = req_id req \<and>
    parse_msg req (received d) response_zero error = Inr (0, r, error)"
proof -
  obtain c q e where p: "parse_msg req (received d) response_zero error = Inr (c, q, e)"
    using assms by (auto simp: judge_def split: sum.splits)
  then have c: "c = 0" "q = r" "\<not> is_confrm r" "resp_id r = req_id req"
    using assms by (auto simp: judge_def split: if_splits)
  then have "e = error"
    using p assms parse_msg_error [of req "received d" response_zero error r e]
    by simp
  then show ?thesis using p c by simp
qed

section \<open>The loop over the endpoints\<close>

text \<open>The world after a request has been sent and the poll has returned.\<close>

definition sent_world ::
  "'r \<Rightarrow> 32 word \<Rightarrow> resolver \<Rightarrow> sockaddr_in \<Rightarrow> nat sysres list \<Rightarrow> nat sysres list \<Rightarrow> ('r, 'z) world_scheme
     \<Rightarrow> ('r, 'z) world_scheme" where
  "sent_world rng1 id1 rs1 a ss ps w =
     w\<lparr>rng := rng1, next_id := id1, rs := rs1,
       net := (net w)\<lparr>sends := ss, sent := sent (net w) @ [(a, take (msg_len rs1) (msg rs1))],
                polls := ps\<rparr>\<rparr>"

lemma resolve_loop_attempt:
  assumes g: "gen_request_id rand (rng w) (next_id w) = (i, rng1, id1)"
    and p: "prepare_msg (req\<lparr>req_id := i\<rparr>) error (rs w) = (0, error, rs1)" "wire_ok rs1"
    and fd: "0 \<le> socket_fd (tr w)"
    and s: "retry_eintr (sends (net w)) = Inr (SysOk (msg_len rs1), ss)"
    and poll: "retry_eintr (polls (net w)) = Inr (r, ps)"
  shows "resolve_loop rand (Suc k) (Some e) req resp error w =
    (let w3 = sent_world rng1 id1 rs1 (ep_addr e) ss ps w
     in case r of
          SysOk (Suc m) \<Rightarrow> recv_loop (req\<lparr>req_id := i\<rparr>) resp None w3
        | _ \<Rightarrow> (case get_next_endpoint (rs w3) of
              Inl f \<Rightarrow> (Inl f, w3)
            | Inr (endp', rs4) \<Rightarrow>
                resolve_loop rand k endp' (req\<lparr>req_id := i\<rparr>) resp (poll_error i r) (w3\<lparr>rs := rs4\<rparr>)))"
  using g p fd s poll
  by (simp add: tr_send_data_def Let_def sent_world_def wire_ok_def)

lemma resolve_loop_send_failure:
  assumes g: "gen_request_id rand (rng w) (next_id w) = (i, rng1, id1)"
    and p: "prepare_msg (req\<lparr>req_id := i\<rparr>) error (rs w) = (0, error, rs1)"
    and s: "socket_fd (tr w) < 0 \<or> (\<exists>x ss. retry_eintr (sends (net w)) = Inr (x, ss) \<and> x \<noteq> SysOk (msg_len rs1))"
  shows "\<exists>t w'. resolve_loop rand (Suc k) (Some e) req resp error w = (Inl (PgError t), w') \<and>
    ep_table (rs w') = ep_table (rs w)"
  using g p s prepare_msg_table [OF p]
  by (auto simp: tr_send_data_def Let_def split: sysres.splits)

lemma tr_send_data_recvs:
  assumes "tr_send_data t buf a error n = Inr (k, e, n')"
  shows "recvs n' = recvs n"
proof (cases "retry_eintr (sends n)")
  case (Inr p)
  obtain r rest where "p = (r, rest)" by (cases p)
  then show ?thesis
    using assms Inr by (cases r) (auto simp: tr_send_data_def split: if_splits)
qed (use assms in \<open>auto simp: tr_send_data_def split: if_splits\<close>)

lemma recv_loop_inv: "resolver_inv (rs w) \<Longrightarrow> resolver_inv (rs (snd (recv_loop req resp error w)))"
  using recv_loop_frame [of w req resp error]
    resolver_inv_table [of "rs (snd (recv_loop req resp error w))" "rs w"]
  by (simp add: same_frame_def)

text \<open>
  One round of the loop over the endpoints: it ends the call without success, it goes into the
  receiving loop, or it goes on with the next endpoint.
\<close>

lemma resolve_loop_round:
  fixes w :: "('r, 'z) world_scheme"
  obtains (stop) r w' where "resolve_loop rand k endp req resp error w = (r, w')"
      "ep_table (rs w') = ep_table (rs w)" "\<forall>q e. r \<noteq> Inr (0, q, e)"
  | (receive) req1 w3 where "resolve_loop rand k endp req resp error w = recv_loop req1 resp None w3"
      "ep_table (rs w3) = ep_table (rs w)" "req_id req1 = next_id w3" "recvs (net w3) = recvs (net w)"
      "req_type req1 = req_type req"
  | (again) m req1 e endp' rs4 w3 where "k = Suc m"
      "resolve_loop rand k endp req resp error w = resolve_loop rand m endp' req1 resp e (w3\<lparr>rs := rs4\<rparr>)"
      "get_next_endpoint (rs w3) = Inr (endp', rs4)" "ep_table (rs w3) = ep_table (rs w)"
      "recvs (net w3) = recvs (net w)" "req_type req1 = req_type req"
proof (cases k)
  case 0
  then show ?thesis using stop by (simp add: resolve_failed_def)
next
  case (Suc m)
  show ?thesis
  proof (cases endp)
    case None
    then show ?thesis using stop Suc by (simp add: resolve_failed_def)
  next
    case (Some ep)
    obtain i rng1 id1 where g: "gen_request_id rand (rng w) (next_id w) = (i, rng1, id1)"
      by (cases "gen_request_id rand (rng w) (next_id w)") auto
    then have i: "i = id1" by (rule gen_request_id_global)
    obtain c e1 rs1 where p: "prepare_msg (req\<lparr>req_id := i\<rparr>) error (rs w) = (c, e1, rs1)"
      by (cases "prepare_msg (req\<lparr>req_id := i\<rparr>) error (rs w)") auto
    note t = prepare_msg_table [OF p]
    let ?w1 = "w\<lparr>rng := rng1, next_id := id1, rs := rs1\<rparr>"
    let ?send = "tr_send_data (tr w) (take (msg_len rs1) (msg rs1)) (ep_addr ep) e1 (net w)"
    show ?thesis
    proof (cases "c \<noteq> 0")
      case True
      show ?thesis
        by (rule stop [of "Inr (-1, resp, e1)" ?w1]) (use True Suc Some g p t in auto)
    next
      case c: False
      show ?thesis
      proof (cases ?send)
        case (Inl f)
        show ?thesis
          by (rule stop [of "Inl f" ?w1]) (use c Inl Suc Some g p t in auto)
      next
        case (Inr x)
        obtain n e2 net2 where send: "?send = Inr (n, e2, net2)" using Inr by (cases x) auto
        note nr = tr_send_data_recvs [OF send]
        let ?w2 = "?w1\<lparr>net := net2\<rparr>"
        show ?thesis
        proof (cases "n < 0 \<or> n \<noteq> int (msg_len rs1)")
          case True
          show ?thesis
            by (rule stop [of "Inl (PgError (''can'' @ [apostrophe] @ ''t send request''))" ?w2])
              (use c True send Suc Some g p t in auto)
        next
          case n: False
          show ?thesis
          proof (cases "retry_eintr (polls net2)")
            case (Inl f)
            show ?thesis
              by (rule stop [of "Inl f" ?w2]) (use c n Inl send Suc Some g p t in auto)
          next
            case (Inr y)
            obtain r rest where poll: "retry_eintr (polls net2) = Inr (r, rest)"
              using Inr by (cases y) auto
            let ?w3 = "?w1\<lparr>net := net2\<lparr>polls := rest\<rparr>\<rparr>" and ?req = "req\<lparr>req_id := i\<rparr>"
            show ?thesis
            proof (cases "\<exists>j. r = SysOk (Suc j)")
              case True
              show ?thesis
                by (rule receive [of ?req ?w3]) (use True c n poll send Suc Some g p t nr i in auto)
            next
              case False
              then have eq: "resolve_loop rand k endp req resp error w =
                  (case get_next_endpoint rs1 of
                     Inl f \<Rightarrow> (Inl f, ?w3)
                   | Inr (endp', rs4) \<Rightarrow>
                       resolve_loop rand m endp' ?req resp (poll_error i r) (?w3\<lparr>rs := rs4\<rparr>))"
                using c n poll send Suc Some g p
                by (auto simp: Let_def split: sysres.split nat.split)
              show ?thesis
              proof (cases "get_next_endpoint rs1")
                case (Inl f)
                show ?thesis
                  by (rule stop [of "Inl f" ?w3]) (use eq Inl t in auto)
              next
                case (Inr z)
                obtain e' rs4 where "get_next_endpoint rs1 = Inr (e', rs4)"
                  using Inr by (cases z) auto
                then show ?thesis
                  using eq t nr Suc by (intro again [of m e' ?req "poll_error i r" rs4 ?w3]) simp_all
              qed
            qed
          qed
        qed
      qed
    qed
  qed
qed

lemma resolve_loop_inv:
  "resolver_inv (rs w) \<Longrightarrow> resolver_inv (rs (snd (resolve_loop rand k endp req resp error w)))"
proof (induction k arbitrary: endp req error w)
  case (Suc k)
  show ?case
  proof (cases rule: resolve_loop_round [of rand "Suc k" endp req resp error w])
    case (stop r w')
    then show ?thesis using Suc.prems resolver_inv_table [of "rs w'" "rs w"] by simp
  next
    case (receive req1 w3)
    then show ?thesis
      using Suc.prems resolver_inv_table [of "rs w3" "rs w"] recv_loop_inv [of w3] by simp
  next
    case (again m req1 e endp' rs4 w3)
    then have "resolver_inv rs4"
      using Suc.prems resolver_inv_table [of "rs w3" "rs w"] resolver_inv_next by blast
    then show ?thesis using Suc.IH [of "w3\<lparr>rs := rs4\<rparr>"] again by simp
  qed
qed simp

lemma resolve_loop_sound:
  "resolve_loop rand k endp req resp error w = (Inr (0, r, e), w') \<Longrightarrow>
    e = None \<and> (\<exists>d req1. SysOk d \<in> set (recvs (net w)) \<and> length d < MSG_SZ \<and>
      judge req1 None d = Accept r \<and> req_id req1 = next_id w' \<and> req_type req1 = req_type req)"
proof (induction k arbitrary: endp req error w)
  case 0
  then show ?case by (simp add: resolve_failed_def)
next
  case (Suc k)
  show ?case
  proof (cases rule: resolve_loop_round [of rand "Suc k" endp req resp error w])
    case (stop r1 w1)
    then have "r1 = Inr (0, r, e)" using Suc.prems by simp
    then show ?thesis using stop(3) by simp
  next
    case (receive req1 w3)
    then have run: "recv_loop req1 resp None w3 = (Inr (0, r, e), w')" using Suc.prems by simp
    then have "next_id w' = next_id w3"
      using recv_loop_frame [of w3 req1 resp None] by (simp add: same_frame_def)
    then show ?thesis using recv_loop_sound [OF run] receive by metis
  next
    case (again m req1 e1 endp' rs4 w3)
    then have "resolve_loop rand k endp' req1 resp e1 (w3\<lparr>rs := rs4\<rparr>) = (Inr (0, r, e), w')"
      using Suc.prems by simp
    from Suc.IH [OF this] again show ?thesis by simp
  qed
qed

section \<open>Timeouts\<close>

definition message_len :: "request \<Rightarrow> nat" where
  "message_len req = length (req_data req) +
     (if req_type req = TAGGED_REQ_VERSION then TAGGED_HDR_SIZE else CNAM_HDR_SIZE)"

lemma fits_msg_id [simp]: "fits_msg (req\<lparr>req_id := i\<rparr>) = fits_msg req"
  by (simp add: fits_msg_def)

lemma message_len_id [simp]: "message_len (req\<lparr>req_id := i\<rparr>) = message_len req"
  by (simp add: message_len_def)

lemma prepare_msg_fits:
  assumes "fits_msg req"
  obtains r1 where "prepare_msg req error r = (0, error, r1)" "wire_ok r1" "msg_len r1 = message_len req"
    "ep_table r1 = ep_table r"
proof -
  obtain n e r1 where p: "prepare_msg req error r = (n, e, r1)"
    by (cases "prepare_msg req error r") auto
  moreover have "n = 0 \<and> e = error \<and> wire_ok r1" using prepare_msg_result [of req error r] p assms by auto
  moreover have "msg_len r1 = message_len req"
    using p assms
    by (auto simp: prepare_msg_def prepare_tagged_msg_def prepare_json_msg_def message_len_def
        fits_msg_def CNAM_REQ_VERSION_def TAGGED_REQ_VERSION_def Let_def split: if_splits)
  ultimately show ?thesis using that prepare_msg_table [OF p] by blast
qed

text \<open>A network on which the next \<open>k\<close> requests are sent and nothing comes back in time.\<close>

definition silent :: "nat \<Rightarrow> nat \<Rightarrow> net \<Rightarrow> bool" where
  "silent k n x \<longleftrightarrow> (\<exists>ss ps. sends x = replicate k (SysOk n) @ ss \<and> polls x = replicate k (SysOk 0) @ ps)"

lemma silent_Suc:
  assumes "silent (Suc k) n x"
  obtains ss ps where "retry_eintr (sends x) = Inr (SysOk n, ss)" "retry_eintr (polls x) = Inr (SysOk 0, ps)"
    "\<And>y. sends y = ss \<Longrightarrow> polls y = ps \<Longrightarrow> silent k n y"
  using assms by (auto simp: silent_def)

lemma resolve_loop_silent:
  assumes "resolver_inv (rs w)" "endpoints_count (rs w) = c" "0 < c" "0 \<le> socket_fd (tr w)"
    "fits_msg req" "silent k (message_len req) (net w)"
  shows "\<exists>e w'. resolve_loop rand k (Some (endpoints (rs w) ! curr_endpoint_index (rs w))) req resp error w =
      (Inr (-1, resp, Some e), w') \<and>
    ep_table (rs w') = (endpoints (rs w), c, (curr_endpoint_index (rs w) + k) mod c, rtt_timeout (rs w)) \<and>
    map fst (sent (net w')) = map fst (sent (net w)) @
      map (\<lambda>i. ep_addr (endpoints (rs w) ! ((curr_endpoint_index (rs w) + i) mod c))) [0..<k]"
  using assms
proof (induction k arbitrary: req error w)
  case 0
  then show ?case
    by (auto simp: resolve_failed_def set_error_def ep_table_def resolver_inv_def split: option.split)
next
  case (Suc k)
  let ?E = "endpoints (rs w)" and ?j = "curr_endpoint_index (rs w)"
  obtain i rng1 id1 where g: "gen_request_id rand (rng w) (next_id w) = (i, rng1, id1)"
    by (cases "gen_request_id rand (rng w) (next_id w)") auto
  let ?req = "req\<lparr>req_id := i\<rparr>"
  have fm: "fits_msg ?req" using Suc.prems by simp
  obtain r1 where p: "prepare_msg ?req error (rs w) = (0, error, r1)" "wire_ok r1"
    "msg_len r1 = message_len req" "ep_table r1 = ep_table (rs w)"
    by (rule prepare_msg_fits [OF fm, of error "rs w"]) simp
  obtain ss ps where net: "retry_eintr (sends (net w)) = Inr (SysOk (message_len req), ss)"
    "retry_eintr (polls (net w)) = Inr (SysOk 0, ps)"
    "\<And>y. sends y = ss \<Longrightarrow> polls y = ps \<Longrightarrow> silent k (message_len req) y"
    using silent_Suc [OF Suc.prems(6)] by metis
  have r1: "resolver_inv r1" "endpoints r1 = ?E" "endpoints_count r1 = c" "curr_endpoint_index r1 = ?j"
    "rtt_timeout r1 = rtt_timeout (rs w)"
    using p(4) Suc.prems resolver_inv_table [OF p(4)] by (auto simp: ep_table_def)
  let ?j' = "(?j + 1) mod c"
  let ?r4 = "r1\<lparr>curr_endpoint_index := ?j'\<rparr>"
  let ?w3 = "sent_world rng1 id1 r1 (ep_addr (?E ! ?j)) ss ps w"
  have nxt: "get_next_endpoint r1 = Inr (Some (?E ! ?j'), ?r4)"
    using get_next_endpoint_result [OF r1(1)] r1 Suc.prems(3) by (simp add: Let_def)
  have w3: "rs ?w3 = r1" by (simp add: sent_world_def)
  have step: "resolve_loop rand (Suc k) (Some (?E ! ?j)) req resp error w =
      resolve_loop rand k (Some (?E ! ?j')) ?req resp (poll_error i (SysOk 0)) (?w3\<lparr>rs := ?r4\<rparr>)"
    using resolve_loop_attempt [OF g p(1,2) Suc.prems(4) _ net(2), of ss k "?E ! ?j" resp] net(1) p(3)
    by (simp add: Let_def w3 nxt)
  have "resolver_inv ?r4" using resolver_inv_next [OF r1(1) nxt] .
  moreover have "silent k (message_len req) (net ?w3)" by (rule net(3)) (simp_all add: sent_world_def)
  moreover have "tr ?w3 = tr w" by (simp add: sent_world_def)
  ultimately obtain e w' where IH:
    "resolve_loop rand k (Some (?E ! ?j')) ?req resp (poll_error i (SysOk 0)) (?w3\<lparr>rs := ?r4\<rparr>) =
      (Inr (-1, resp, Some e), w')"
    "ep_table (rs w') = (?E, c, (?j' + k) mod c, rtt_timeout (rs w))"
    "map fst (sent (net w')) = map fst (sent (net ?w3)) @
      map (\<lambda>i. ep_addr (?E ! ((?j' + i) mod c))) [0..<k]"
    using Suc.IH [of "?w3\<lparr>rs := ?r4\<rparr>" ?req "poll_error i (SysOk 0)"] Suc.prems r1 by auto
  have shift: "(?j' + m) mod c = (?j + Suc m) mod c" for m by (simp add: mod_simps)
  have sent: "map fst (sent (net ?w3)) = map fst (sent (net w)) @ [ep_addr (?E ! ?j)]"
    by (simp add: sent_world_def)
  have j: "?j mod c = ?j" using Suc.prems by (simp add: resolver_inv_def)
  have "map (\<lambda>i. ep_addr (?E ! ((?j + i) mod c))) [0..<Suc k] =
      ep_addr (?E ! ?j) # map (\<lambda>i. ep_addr (?E ! ((?j' + i) mod c))) [0..<k]"
    unfolding shift by (simp only: upt_conv_Cons [of 0 "Suc k"] map_Suc_upt [symmetric]) (simp add: j comp_def)
  then show ?case using IH step sent shift by simp
qed

section \<open>The resolver as a state machine\<close>

text \<open>
  What the SQL functions can do with the resolver, in any order, between any changes of the
  socket and the network. C strings have no NUL inside.
\<close>

inductive res_step ::
  "(bytes \<Rightarrow> 32 word option) \<Rightarrow> ('r \<Rightarrow> nat \<times> 'r) \<Rightarrow> 'r world \<Rightarrow> 'r world \<Rightarrow> bool"
  for inet_aton rand where
  step_add: "NUL \<notin> set uri \<Longrightarrow> add_endpoint inet_aton uri (rs w) = Inr (c, r') \<Longrightarrow>
    res_step inet_aton rand w (w\<lparr>rs := r'\<rparr>)"
| step_remove_all: "res_step inet_aton rand w (w\<lparr>rs := snd (remove_all_endpoints (rs w))\<rparr>)"
| step_set_rtt: "res_step inet_aton rand w (w\<lparr>rs := snd (set_rtt_timeout t (rs w))\<rparr>)"
| step_resolve: "res_step inet_aton rand w (snd (resolve rand req resp error w))"
| step_outside: "res_step inet_aton rand w (w\<lparr>tr := t, net := n, rng := g\<rparr>)"

inductive_cases res_stepE: "res_step inet_aton rand w w'"

inductive reachable ::
  "(bytes \<Rightarrow> 32 word option) \<Rightarrow> ('r \<Rightarrow> nat \<times> 'r) \<Rightarrow> 'r world \<Rightarrow> bool"
  for inet_aton rand where
  start: "rs w = resolver_new \<Longrightarrow> reachable inet_aton rand w"
| move: "reachable inet_aton rand w \<Longrightarrow> res_step inet_aton rand w w' \<Longrightarrow> reachable inet_aton rand w'"

lemma resolve_inv:
  assumes "resolver_inv (rs w)"
  shows "resolver_inv (rs (snd (resolve rand req resp error w)))"
proof (cases "endpoints_count (rs w) \<le> 0")
  case True
  then show ?thesis using assms by (simp add: resolve_def)
next
  case False
  then show ?thesis
    using assms get_current_endpoint_result [OF assms]
      resolve_loop_inv [of "w\<lparr>rs := rs w\<rparr>"] by (simp add: resolve_def)
qed

lemma resolve_active:
  "resolver_inv (rs w) \<Longrightarrow> 0 < endpoints_count (rs w) \<Longrightarrow>
    resolve rand req resp error w =
      resolve_loop rand (endpoints_count (rs w)) (Some (endpoints (rs w) ! curr_endpoint_index (rs w)))
        req resp error w"
  by (simp add: resolve_def get_current_endpoint_result)

lemma res_step_inv: "res_step inet_aton rand w w' \<Longrightarrow> resolver_inv (rs w) \<Longrightarrow> resolver_inv (rs w')"
  by (erule res_stepE)
    (auto intro: resolver_inv_add resolver_inv_remove resolver_inv_rtt resolve_inv)

section \<open>Properties\<close>

text \<open>
  C9. In every reachable state the table has at most five endpoints, numbered by their slots,
  with NUL-terminated URLs, and the current index is one of them (0 without endpoints).
\<close>

theorem resolver_reachable_inv:
  assumes "reachable inet_aton rand w"
  shows "resolver_inv (rs w)"
  using assms
proof (induction rule: reachable.induct)
  case (start w)
  then show ?case by (simp add: resolver_inv_new)
next
  case (move w w')
  then show ?case by (blast intro: res_step_inv)
qed

theorem resolver_reachable_inv_witness:
  "resolver_inv (snd (remove_all_endpoints resolver_new))"
proof -
  let ?w = "\<lparr>rs = resolver_new, tr = transport_new, next_id = 0, rng = 0,
    net = \<lparr>sends = [], polls = [], recvs = [], sent = []\<rparr>\<rparr> :: nat world"
  have "reachable (\<lambda>_. None) (\<lambda>r. (r, r)) (?w\<lparr>rs := snd (remove_all_endpoints (rs ?w))\<rparr>)"
    by (rule move [OF start step_remove_all]) simp
  from resolver_reachable_inv [OF this] show ?thesis by simp
qed

text \<open>
  C6. When every request is sent and no reply comes in time, \<open>resolve\<close> asks each endpoint exactly
  once, round-robin from the current one, and fails with the current index where it was.
\<close>

theorem resolve_silent_round_robin:
  assumes "resolver_inv (rs w)" "0 < endpoints_count (rs w)" "0 \<le> socket_fd (tr w)" "fits_msg req"
    "silent (endpoints_count (rs w)) (message_len req) (net w)"
  shows "\<exists>e w'. resolve rand req resp error w = (Inr (-1, resp, Some e), w') \<and>
    ep_table (rs w') = ep_table (rs w) \<and>
    map fst (sent (net w')) = map fst (sent (net w)) @
      map (\<lambda>i. ep_addr (endpoints (rs w) ! ((curr_endpoint_index (rs w) + i) mod endpoints_count (rs w))))
        [0..<endpoints_count (rs w)]"
proof -
  have "curr_endpoint_index (rs w) mod endpoints_count (rs w) = curr_endpoint_index (rs w)"
    using assms(1,2) by (simp add: resolver_inv_def)
  then show ?thesis
    using resolve_loop_silent [OF assms(1) refl assms(2,3,4,5), of rand resp error]
      resolve_active [OF assms(1,2), of rand req resp error]
    by (auto simp: ep_table_def)
qed

text \<open>
  C25. A success is the full response to the last request sent: \<open>resolve\<close> returns 0 only with a
  datagram it has received that parses, without an error, to a non-confirmation with that id.
\<close>

theorem resolve_sound:
  assumes "resolve rand req resp error w = (Inr (0, r, e), w')"
  shows "e = None \<and> \<not> is_confrm r \<and> resp_id r = next_id w' \<and>
    (\<exists>d req1. SysOk d \<in> set (recvs (net w)) \<and> req_type req1 = req_type req \<and>
      parse_msg req1 (received d) response_zero None = Inr (0, r, None))"
proof (cases "endpoints_count (rs w) \<le> 0")
  case True
  then show ?thesis using assms by (simp add: resolve_def)
next
  case False
  then obtain endp rs1 where "resolve_loop rand (endpoints_count rs1) endp req resp error (w\<lparr>rs := rs1\<rparr>) =
      (Inr (0, r, e), w')"
    using assms by (auto simp: resolve_def split: sum.splits)
  from resolve_loop_sound [OF this] obtain d req1 where
    "e = None" "SysOk d \<in> set (recvs (net w))" "judge req1 None d = Accept r"
    "req_id req1 = next_id w'" "req_type req1 = req_type req"
    by auto
  then show ?thesis using judge_accept by metis
qed

text \<open>Datagrams that are passed over: confirmations and successful replies to other requests.\<close>

definition other_reply :: "32 word \<Rightarrow> bytes \<Rightarrow> bool" where
  "other_reply i d \<longleftrightarrow> (\<exists>j. d = confirmation j) \<or>
     (\<exists>j lrn tag. j \<noteq> i \<and> length lrn + length tag < 256 \<and> d = tagged_reply j lrn tag)"

lemma judge_other_reply:
  assumes "req_type req = TAGGED_REQ_VERSION" "other_reply (req_id req) d"
  shows "length d < MSG_SZ \<and> (\<exists>q. judge req error d = Skip q)"
proof
  show "length d < MSG_SZ"
    using assms(2)
    by (auto simp: other_reply_def confirmation_def tagged_reply_def length_store32 MSG_SZ_def)
  show "\<exists>q. judge req error d = Skip q"
    using assms(2)
    by (auto simp: other_reply_def judge_def parse_confirmation parse_tagged_reply [OF assms(1)])
qed

lemma resolve_decided:
  assumes "resolver_inv (rs w)" "0 < endpoints_count (rs w)" "0 \<le> socket_fd (tr w)" "fits_msg req"
    and "gen_request_id rand (rng w) (next_id w) = (i, rng1, id1)"
    and "retry_eintr (sends (net w)) = Inr (SysOk (message_len req), ss)"
    and "retry_eintr (polls (net w)) = Inr (SysOk (Suc m), ps)"
    and "recvs (net w) = map SysOk ds @ SysOk d # rest" "length d < MSG_SZ"
    and "\<forall>x \<in> set ds. length x < MSG_SZ \<and> (\<exists>q. judge (req\<lparr>req_id := i\<rparr>) None x = Skip q)"
    and "judge (req\<lparr>req_id := i\<rparr>) None d = v" "\<forall>q. v \<noteq> Skip q"
  shows "\<exists>w'. resolve rand req resp error w = (Inr (final None v), w') \<and>
    recvs (net w') = rest \<and> ep_table (rs w') = ep_table (rs w)"
proof -
  let ?req = "req\<lparr>req_id := i\<rparr>" and ?c = "endpoints_count (rs w)"
  let ?e = "endpoints (rs w) ! curr_endpoint_index (rs w)"
  have fm: "fits_msg ?req" using assms(4) by simp
  obtain r1 where p: "prepare_msg ?req error (rs w) = (0, error, r1)" "wire_ok r1"
    "msg_len r1 = message_len req" "ep_table r1 = ep_table (rs w)"
    by (rule prepare_msg_fits [OF fm, of error "rs w"]) simp
  obtain k where k: "?c = Suc k" using assms(2) by (cases ?c) auto
  let ?w3 = "sent_world rng1 id1 r1 (ep_addr ?e) ss ps w"
  have w3: "tr ?w3 = tr w" "recvs (net ?w3) = recvs (net w)" "ep_table (rs ?w3) = ep_table (rs w)"
    using p(4) by (simp_all add: sent_world_def)
  have run: "resolve rand req resp error w = recv_loop ?req resp None ?w3"
    using resolve_active [OF assms(1,2), of rand req resp error] k p(3) assms(6)
      resolve_loop_attempt [OF assms(5) p(1,2) assms(3) _ assms(7), of ss k ?e resp]
    by (simp add: Let_def)
  obtain w' where w': "resolve rand req resp error w = (Inr (final None v), w')" "recvs (net w') = rest"
    using recv_loop_skips [of ?w3 ds d rest ?req None v resp] assms(3,8-12) w3(1,2) run by auto
  have "same_frame ?w3 w'"
    using recv_loop_frame [of ?w3 ?req resp None] w'(1) run by simp
  then show ?thesis using w' w3(3) by (simp add: same_frame_def)
qed

text \<open>
  An error reply ends the receiving loop whichever request it answers: the code looks at the
  response code before it compares the ids. One without a text is too small for the parser.
\<close>

lemma stale_error_reply:
  assumes "req_type req = TAGGED_REQ_VERSION" "0 < code" "code < 256" "length t < 256"
  shows "judge req error (error_reply j code t) =
    (if t = [] then Reject (-1) response_zero too_small
     else Reject 1 (response_zero\<lparr>resp_id := j\<rparr>) (remote_error code t))"
  using parse_error_reply_result [OF assms] by (simp add: judge_def)

text \<open>
  The result of a tagged request, by the first datagram that decides it. The faults of the
  transport and of \<open>resolve\<close> itself are excluded by the hypotheses on the system calls.
\<close>

definition tagged_result :: "bytes \<Rightarrow> bytes \<Rightarrow> 32 word \<Rightarrow> response" where
  "tagged_result lrn tag i = \<lparr>resp_id = i, is_confrm = False, val = None, val_1 = Some (lrn @ [NUL]),
     val_2 = (if tag = [] then None else Some (tag @ [NUL]))\<rparr>"

lemma resolve_tagged_decided:
  assumes "resolver_inv (rs w)" "0 < endpoints_count (rs w)" "0 \<le> socket_fd (tr w)"
    and "req_type req = TAGGED_REQ_VERSION" "fits_msg req"
    and "gen_request_id rand (rng w) (next_id w) = (i, rng1, id1)"
    and "retry_eintr (sends (net w)) = Inr (SysOk (message_len req), ss)"
    and "retry_eintr (polls (net w)) = Inr (SysOk (Suc m), ps)"
    and "recvs (net w) = map SysOk ds @ SysOk x # rest" "\<forall>d \<in> set ds. other_reply i d"
    and "length x < MSG_SZ" "judge (req\<lparr>req_id := i\<rparr>) None x = v" "\<forall>q. v \<noteq> Skip q"
  shows "\<exists>w'. resolve rand req resp error w = (Inr (final None v), w') \<and>
    recvs (net w') = rest \<and> ep_table (rs w') = ep_table (rs w)"
  using judge_other_reply [of "req\<lparr>req_id := i\<rparr>"] assms(4,10)
  by (intro resolve_decided [OF assms(1-3,5-9,11) _ assms(12,13)]) simp

lemma tagged_short: "length lrn + length tag < 256 \<Longrightarrow> length (tagged_reply i lrn tag) < MSG_SZ"
  by (simp add: tagged_reply_def length_store32 MSG_SZ_def)

lemma error_short: "length t < 256 \<Longrightarrow> length (error_reply i code t) < MSG_SZ"
  by (simp add: error_reply_def length_store32 MSG_SZ_def)

lemma judge_tagged:
  "req_type req = TAGGED_REQ_VERSION \<Longrightarrow> length lrn + length tag < 256 \<Longrightarrow>
    judge req None (tagged_reply (req_id req) lrn tag) = Accept (tagged_result lrn tag (req_id req))"
  by (simp add: judge_def parse_tagged_reply response_zero_def tagged_result_def)

lemma resolve_tagged_result:
  assumes "resolver_inv (rs w)" "0 < endpoints_count (rs w)" "0 \<le> socket_fd (tr w)"
    and "req_type req = TAGGED_REQ_VERSION" "fits_msg req"
    and "gen_request_id rand (rng w) (next_id w) = (i, rng1, id1)"
    and "retry_eintr (sends (net w)) = Inr (SysOk (message_len req), ss)"
    and "retry_eintr (polls (net w)) = Inr (SysOk (Suc m), ps)"
    and "recvs (net w) = map SysOk ds @ SysOk (tagged_reply i lrn tag) # rest"
    and "\<forall>d \<in> set ds. other_reply i d" "length lrn + length tag < 256"
  shows "\<exists>w'. resolve rand req resp error w = (Inr (0, tagged_result lrn tag i, None), w') \<and>
    recvs (net w') = rest \<and> ep_table (rs w') = ep_table (rs w)"
  using resolve_tagged_decided [OF assms(1-10) tagged_short [OF assms(11)] refl, of resp error]
    judge_tagged [of "req\<lparr>req_id := i\<rparr>" lrn tag] assms(4,11)
  by simp

text \<open>The same for JSON: the size of a reply is limited by the buffer, less one byte.\<close>

definition json_fits :: "bytes \<Rightarrow> bool" where
  "json_fits d \<longleftrightarrow> d \<noteq> [] \<and> length d + CNAM_RESPONSE_HDR_SIZE < MSG_SZ"

definition other_json :: "32 word \<Rightarrow> bytes \<Rightarrow> bool" where
  "other_json i x \<longleftrightarrow> (\<exists>j. x = confirmation j) \<or> (\<exists>j d. j \<noteq> i \<and> json_fits d \<and> x = json_reply j d)"

lemma json_short: "json_fits d \<Longrightarrow> length (json_reply j d) < MSG_SZ"
  by (simp add: json_fits_def json_reply_def length_store32 CNAM_RESPONSE_HDR_SIZE_def)

lemma judge_json:
  assumes "req_type req = CNAM_REQ_VERSION"
  shows "json_fits d \<Longrightarrow> judge req None (json_reply (req_id req) d) =
      Accept \<lparr>resp_id = req_id req, is_confrm = False, val = Some d, val_1 = None, val_2 = None\<rparr>"
    and "other_json (req_id req) x \<Longrightarrow> length x < MSG_SZ \<and> (\<exists>q. judge req None x = Skip q)"
proof -
  have parse: "parse_msg req (received (json_reply j d)) resp error = Inr (0, resp\<lparr>resp_id := j, val := Some d\<rparr>, error)"
    if "json_fits d" for j d resp error
    using parse_json_reply [OF assms] that by (simp add: json_fits_def CNAM_RESPONSE_HDR_SIZE_def)
  show "json_fits d \<Longrightarrow> judge req None (json_reply (req_id req) d) =
      Accept \<lparr>resp_id = req_id req, is_confrm = False, val = Some d, val_1 = None, val_2 = None\<rparr>"
    by (simp add: judge_def parse response_zero_def)
  have "length (confirmation j) < MSG_SZ \<and> (\<exists>q. judge req None (confirmation j) = Skip q)" for j
    by (simp add: judge_def parse_confirmation) (simp add: confirmation_def length_store32 MSG_SZ_def)
  then show "other_json (req_id req) x \<Longrightarrow> length x < MSG_SZ \<and> (\<exists>q. judge req None x = Skip q)"
    by (auto simp: other_json_def judge_def parse response_zero_def json_short)
qed

lemma resolve_json_result:
  assumes "resolver_inv (rs w)" "0 < endpoints_count (rs w)" "0 \<le> socket_fd (tr w)"
    and "req_type req = CNAM_REQ_VERSION" "fits_msg req"
    and "gen_request_id rand (rng w) (next_id w) = (i, rng1, id1)"
    and "retry_eintr (sends (net w)) = Inr (SysOk (message_len req), ss)"
    and "retry_eintr (polls (net w)) = Inr (SysOk (Suc m), ps)"
    and "recvs (net w) = map SysOk ds @ SysOk (json_reply i d) # rest"
    and "\<forall>x \<in> set ds. other_json i x" "json_fits d"
  shows "\<exists>w'. resolve rand req resp error w =
      (Inr (0, \<lparr>resp_id = i, is_confrm = False, val = Some d, val_1 = None, val_2 = None\<rparr>, None), w') \<and>
    recvs (net w') = rest \<and> ep_table (rs w') = ep_table (rs w)"
  using judge_json [of "req\<lparr>req_id := i\<rparr>"] assms(4,10,11)
    resolve_decided [OF assms(1-3,5-9) json_short [OF assms(11)] _ refl, of resp error]
  by simp

text \<open>
  C2. A tagged request that was sent to a configured endpoint and got datagrams in time passes
  over any number of confirmations and successful replies to other requests. When the datagram
  behind them is the successful reply to this request, its routing number and its tag are the
  answer; when it is an error reply, to this or to any other request, the call ends with the
  error it carries (one without a text, with \<open>response too small\<close>). Either way the datagrams behind
  it stay unread, and the endpoint stays the current one.
\<close>

theorem resolve_tagged_answer:
  assumes "resolver_inv (rs w)" "0 < endpoints_count (rs w)" "0 \<le> socket_fd (tr w)"
    and "req_type req = TAGGED_REQ_VERSION" "fits_msg req"
    and "gen_request_id rand (rng w) (next_id w) = (i, rng1, id1)"
    and "retry_eintr (sends (net w)) = Inr (SysOk (message_len req), ss)"
    and "retry_eintr (polls (net w)) = Inr (SysOk (Suc m), ps)"
    and "recvs (net w) = map SysOk ds @ SysOk x # rest" "\<forall>d \<in> set ds. other_reply i d"
  shows "(\<forall>lrn tag. x = tagged_reply i lrn tag \<and> length lrn + length tag < 256 \<longrightarrow>
      (\<exists>w'. resolve rand req resp error w =
          (Inr (0, \<lparr>resp_id = i, is_confrm = False, val = None, val_1 = Some (lrn @ [NUL]),
                   val_2 = (if tag = [] then None else Some (tag @ [NUL]))\<rparr>, None), w') \<and>
        recvs (net w') = rest \<and> ep_table (rs w') = ep_table (rs w))) \<and>
    (\<forall>j code t. x = error_reply j code t \<and> 0 < code \<and> code < 256 \<and> length t < 256 \<longrightarrow>
      (\<exists>w' r. resolve rand req resp error w =
          (Inr (-1, r, if t = [] then too_small else remote_error code t), w') \<and>
        recvs (net w') = rest \<and> ep_table (rs w') = ep_table (rs w)))"
proof (intro conjI allI impI; elim conjE)
  fix lrn tag assume x: "x = tagged_reply i lrn tag" and len: "length lrn + length tag < 256"
  from resolve_tagged_result [OF assms(1-8) assms(9) [unfolded x] assms(10) len, of resp error]
  show "\<exists>w'. resolve rand req resp error w =
          (Inr (0, \<lparr>resp_id = i, is_confrm = False, val = None, val_1 = Some (lrn @ [NUL]),
                   val_2 = (if tag = [] then None else Some (tag @ [NUL]))\<rparr>, None), w') \<and>
        recvs (net w') = rest \<and> ep_table (rs w') = ep_table (rs w)"
    by (simp add: tagged_result_def)
next
  fix j code t assume x: "x = error_reply j code t" and t: "0 < code" "code < 256" "length t < 256"
  from resolve_tagged_decided [OF assms(1-8) assms(9) [unfolded x] assms(10) error_short [OF t(3)] refl,
      of resp error]
    stale_error_reply [of "req\<lparr>req_id := i\<rparr>" code t None j] assms(4) t
  show "\<exists>w' r. resolve rand req resp error w =
          (Inr (-1, r, if t = [] then too_small else remote_error code t), w') \<and>
        recvs (net w') = rest \<and> ep_table (rs w') = ep_table (rs w)"
    by (cases "t = []") auto
qed

text \<open>
  C34. When the current endpoint cannot be reached (\<open>sendto\<close> fails or sends less than the whole
  message), the call raises instead of going on to the next endpoint, and the endpoint stays
  the current one for the next call.
\<close>

theorem resolve_send_failure:
  assumes "resolver_inv (rs w)" "0 < endpoints_count (rs w)" "0 \<le> socket_fd (tr w)" "fits_msg req"
    and "retry_eintr (sends (net w)) = Inr (x, ss)" "x \<noteq> SysOk (message_len req)"
  shows "\<exists>t w'. resolve rand req resp error w = (Inl (PgError t), w') \<and> ep_table (rs w') = ep_table (rs w)"
proof -
  obtain i rng1 id1 where g: "gen_request_id rand (rng w) (next_id w) = (i, rng1, id1)"
    by (cases "gen_request_id rand (rng w) (next_id w)") auto
  have fm: "fits_msg (req\<lparr>req_id := i\<rparr>)" using assms(4) by simp
  obtain r1 where p: "prepare_msg (req\<lparr>req_id := i\<rparr>) error (rs w) = (0, error, r1)"
    "msg_len r1 = message_len req"
    by (rule prepare_msg_fits [OF fm, of error "rs w"]) simp
  have "socket_fd (tr w) < 0 \<or> (\<exists>x ss. retry_eintr (sends (net w)) = Inr (x, ss) \<and> x \<noteq> SysOk (msg_len r1))"
    using assms(5,6) p(2) by auto
  from resolve_loop_send_failure [OF g p(1) this] obtain k where
    "\<exists>t w'. resolve_loop rand (Suc k) (Some (endpoints (rs w) ! curr_endpoint_index (rs w))) req resp error w =
      (Inl (PgError t), w') \<and> ep_table (rs w') = ep_table (rs w)"
    "endpoints_count (rs w) = Suc k"
    using assms(2) by (metis gr0_conv_Suc)
  then show ?thesis by (simp add: resolve_active [OF assms(1,2)])
qed

text \<open>
  A datagram of 2048 bytes or more in answer to a request makes the terminating NUL land one
  byte behind the buffer.
\<close>

lemma resolve_oversize:
  assumes "resolver_inv (rs w)" "0 < endpoints_count (rs w)" "0 \<le> socket_fd (tr w)" "fits_msg req"
    and "retry_eintr (sends (net w)) = Inr (SysOk (message_len req), ss)"
    and "retry_eintr (polls (net w)) = Inr (SysOk (Suc m), ps)"
    and "retry_eintr (recvs (net w)) = Inr (SysOk d, rest)" "MSG_SZ \<le> length d"
  shows "fst (resolve rand req resp error w) = Inl OutOfBounds"
proof -
  let ?e = "endpoints (rs w) ! curr_endpoint_index (rs w)"
  obtain i rng1 id1 where g: "gen_request_id rand (rng w) (next_id w) = (i, rng1, id1)"
    by (cases "gen_request_id rand (rng w) (next_id w)") auto
  have fm: "fits_msg (req\<lparr>req_id := i\<rparr>)" using assms(4) by simp
  obtain r1 where p: "prepare_msg (req\<lparr>req_id := i\<rparr>) error (rs w) = (0, error, r1)" "wire_ok r1"
    "msg_len r1 = message_len req"
    by (rule prepare_msg_fits [OF fm, of error "rs w"]) simp
  obtain k where k: "endpoints_count (rs w) = Suc k" using assms(2) by (cases "endpoints_count (rs w)") auto
  let ?w3 = "sent_world rng1 id1 r1 (ep_addr ?e) ss ps w"
  have "resolve rand req resp error w = recv_loop (req\<lparr>req_id := i\<rparr>) resp None ?w3"
    using resolve_active [OF assms(1,2), of rand req resp error] k p(3) assms(5)
      resolve_loop_attempt [OF g p(1,2) assms(3) _ assms(6), of ss k ?e resp]
    by (simp add: Let_def)
  moreover have "fst (recv_loop (req\<lparr>req_id := i\<rparr>) resp None ?w3) = Inl OutOfBounds"
    using assms(3,7,8) by (intro recv_loop_oversize) (simp_all add: sent_world_def)
  ultimately show ?thesis by simp
qed

section \<open>Witnesses\<close>

text \<open>A resolver with two endpoints, an open socket, and a network.\<close>

definition demo_world :: "nat sysres list \<Rightarrow> bytes sysres list \<Rightarrow> nat world" where
  "demo_world ps ms =
     \<lparr>rs = resolver_new\<lparr>endpoints :=
        [\<lparr>ep_id = 0, ep_addr = \<lparr>sin_port = 1, sin_addr = 10\<rparr>, ep_url = zeros MAX_ENDPOINT_LEN\<rparr>,
         \<lparr>ep_id = 1, ep_addr = \<lparr>sin_port = 1, sin_addr = 20\<rparr>, ep_url = zeros MAX_ENDPOINT_LEN\<rparr>,
         endpoint_zero, endpoint_zero, endpoint_zero],
        endpoints_count := 2, curr_endpoint_index := 1\<rparr>,
      tr = \<lparr>socket_fd = 3, rcvtimeo = Some (5, 0), open_fds = [3]\<rparr>, next_id = 7, rng = 0,
      net = \<lparr>sends = [SysOk 9, SysOk 9], polls = ps, recvs = ms, sent = []\<rparr>\<rparr>"

definition demo_request :: request where
  "demo_request = \<lparr>req_id = 0, req_type = 0, db_id = 1, req_data = ''12''\<rparr>"

lemma demo_ok:
  "resolver_inv (rs (demo_world ps ms))" "endpoints_count (rs (demo_world ps ms)) = 2"
  "0 \<le> socket_fd (tr (demo_world ps ms))" "fits_msg demo_request" "message_len demo_request = 9"
  "sends (net (demo_world ps ms)) = [SysOk 9, SysOk 9]" "polls (net (demo_world ps ms)) = ps"
  "recvs (net (demo_world ps ms)) = ms" "req_type demo_request = TAGGED_REQ_VERSION"
  "gen_request_id (\<lambda>r. (r, r)) (rng (demo_world ps ms)) (next_id (demo_world ps ms)) = (8, 0, 8)"
  by (simp_all add: demo_world_def demo_request_def resolver_inv_def resolver_new_def MAX_ENDPOINTS_def
      less_2_cases_iff all_conj_distrib endpoint_ok_def MAX_ENDPOINT_LEN_def fits_msg_def message_len_def wire_sizes
      TAGGED_REQ_VERSION_def gen_request_id_def)

theorem resolve_silent_round_robin_witness:
  "\<exists>e w'. resolve (\<lambda>r. (r, r)) demo_request response_zero None (demo_world [SysOk 0, SysOk 0] []) =
      (Inr (-1, response_zero, Some e), w') \<and>
    map (sin_addr \<circ> fst) (sent (net w')) = [20, 10]"
proof -
  let ?w = "demo_world [SysOk 0, SysOk 0] []"
  have s: "silent 2 9 (net ?w)"
    by (simp add: silent_def demo_ok numeral_2_eq_2)
  obtain e w' where r: "resolve (\<lambda>r. (r, r)) demo_request response_zero None ?w =
      (Inr (-1, response_zero, Some e), w')"
    "map fst (sent (net w')) = map fst (sent (net ?w)) @
      map (\<lambda>i. ep_addr (endpoints (rs ?w) ! ((curr_endpoint_index (rs ?w) + i) mod 2))) [0..<2]"
    using resolve_silent_round_robin [of ?w demo_request "\<lambda>r. (r, r)" response_zero None] s
    by (auto simp: demo_ok)
  have "map sin_addr (map fst (sent (net w'))) = [20, 10]"
    unfolding r(2) by (simp add: demo_world_def numeral_2_eq_2)
  then show ?thesis using r(1) by (auto simp: comp_def)
qed

lemma demo_datagrams: "\<forall>d \<in> set [confirmation 8, tagged_reply 5 ''1'' ''x'']. other_reply 8 d"
proof -
  have "other_reply 8 (tagged_reply 5 ''1'' ''x'')"
    unfolding other_reply_def
    by (intro disjI2 exI [of _ "5 :: 32 word"] exI [of _ "''1''"] exI [of _ "''x''"]) simp
  then show ?thesis by (auto simp: other_reply_def)
qed

theorem resolve_sound_witness:
  "\<exists>r w'. resolve (\<lambda>r. (r, r)) demo_request response_zero None
     (demo_world [SysOk 1] [SysOk (confirmation 8), SysOk (tagged_reply 5 ''1'' ''x''), SysOk (tagged_reply 8 ''49'' [])]) =
      (Inr (0, r, None), w') \<and> resp_id r = next_id w'"
proof -
  have "recvs (net (demo_world [SysOk 1] [SysOk (confirmation 8), SysOk (tagged_reply 5 ''1'' ''x''), SysOk (tagged_reply 8 ''49'' [])])) =
      map SysOk [confirmation 8, tagged_reply 5 ''1'' ''x''] @ SysOk (tagged_reply 8 ''49'' []) # []"
    by (simp add: demo_ok)
  from resolve_tagged_result [OF demo_ok(1) _ demo_ok(3,9,4,10) _ _ this demo_datagrams,
      of "[SysOk 9]" 0 "[]" response_zero None]
  obtain r w' where run: "resolve (\<lambda>r. (r, r)) demo_request response_zero None
      (demo_world [SysOk 1] [SysOk (confirmation 8), SysOk (tagged_reply 5 ''1'' ''x''), SysOk (tagged_reply 8 ''49'' [])]) =
      (Inr (0, r, None), w')"
    by (auto simp: demo_ok)
  from resolve_sound [OF run] run show ?thesis by blast
qed

theorem resolve_tagged_answer_witness:
  "(\<exists>w'. resolve (\<lambda>r. (r, r)) demo_request response_zero None
     (demo_world [SysOk 1] [SysOk (confirmation 8), SysOk (tagged_reply 5 ''1'' ''x''), SysOk (tagged_reply 8 ''49'' [])]) =
      (Inr (0, \<lparr>resp_id = 8, is_confrm = False, val = None, val_1 = Some (''49'' @ [NUL]), val_2 = None\<rparr>, None), w')) \<and>
   (\<exists>w' r. resolve (\<lambda>r. (r, r)) demo_request response_zero None
     (demo_world [SysOk 1] [SysOk (confirmation 8), SysOk (tagged_reply 5 ''1'' ''x''), SysOk (error_reply 5 3 ''no'')]) =
      (Inr (-1, r, remote_error 3 ''no''), w'))"
proof -
  have run: "recvs (net (demo_world [SysOk 1] [SysOk (confirmation 8), SysOk (tagged_reply 5 ''1'' ''x''), SysOk x])) =
      map SysOk [confirmation 8, tagged_reply 5 ''1'' ''x''] @ SysOk x # []" for x
    by (simp add: demo_ok)
  note answer = resolve_tagged_answer [where ss = "[SysOk 9]" and m = 0 and ps = "[]" and resp = response_zero and
      error = None, OF demo_ok(1) _ demo_ok(3,9,4,10) _ _ run demo_datagrams]
  have "\<exists>w'. resolve (\<lambda>r. (r, r)) demo_request response_zero None
     (demo_world [SysOk 1] [SysOk (confirmation 8), SysOk (tagged_reply 5 ''1'' ''x''), SysOk (tagged_reply 8 ''49'' [])]) =
      (Inr (0, \<lparr>resp_id = 8, is_confrm = False, val = None, val_1 = Some (''49'' @ [NUL]), val_2 = None\<rparr>, None), w')"
    using answer [of "tagged_reply 8 ''49'' []", THEN conjunct1, THEN spec [of _ "''49''"], THEN spec [of _ "[]"]]
    by (auto simp: demo_ok)
  moreover have "\<exists>w' r. resolve (\<lambda>r. (r, r)) demo_request response_zero None
     (demo_world [SysOk 1] [SysOk (confirmation 8), SysOk (tagged_reply 5 ''1'' ''x''), SysOk (error_reply 5 3 ''no'')]) =
      (Inr (-1, r, remote_error 3 ''no''), w')"
    using answer [of "error_reply 5 3 ''no''", THEN conjunct2, THEN spec [of _ 5], THEN spec [of _ 3], THEN spec [of _ "''no''"]]
    by (auto simp: demo_ok)
  ultimately show ?thesis by blast
qed

theorem resolve_send_failure_witness:
  "\<exists>t w'. resolve (\<lambda>r. (r, r)) (demo_request\<lparr>req_data := ''123''\<rparr>) response_zero None (demo_world [] []) =
     (Inl (PgError t), w') \<and> curr_endpoint_index (rs w') = 1"
proof -
  let ?q = "demo_request\<lparr>req_data := ''123''\<rparr>"
  have "fits_msg ?q" "SysOk 9 \<noteq> SysOk (message_len ?q)"
    by (simp_all add: fits_msg_def message_len_def demo_request_def wire_sizes TAGGED_REQ_VERSION_def)
  from resolve_send_failure [OF demo_ok(1) _ demo_ok(3) this(1) _ this(2), of "[]" "[]" "[SysOk 9]"
      "\<lambda>r. (r, r)" response_zero None]
  obtain t w' where "resolve (\<lambda>r. (r, r)) ?q response_zero None (demo_world [] []) = (Inl (PgError t), w')"
    "ep_table (rs w') = ep_table (rs (demo_world [] []))"
    by (auto simp: demo_ok)
  then show ?thesis by (auto simp: ep_table_def demo_world_def)
qed

end
