(* ===== verification/Dynahash.thy ===== *)
theory Dynahash
  imports Prelude "HOL-Library.AList" "HOL-Library.RBT"
begin

text \<open>
  The hash tables of the PostgreSQL backend (utils/hsearch.h), which are not part of this
  repository: their operations are parameters of the model, their documented laws a locale.
  \<open>HASH_FIND\<close> is \<open>hs_find\<close>, \<open>HASH_ENTER\<close> followed by filling in the entry is \<open>hs_put\<close>,
  \<open>HASH_REMOVE\<close> is \<open>hs_del\<close>, a sequential scan visits \<open>hs_keys\<close>, and
  \<open>hash_get_num_entries\<close> is their number. Keys are compared as blobs.
\<close>

record ('h, 'k, 'v) hash_ops =
  hs_new :: 'h
  hs_find :: "'h \<Rightarrow> 'k \<Rightarrow> 'v option"
  hs_put :: "'h \<Rightarrow> 'k \<Rightarrow> 'v \<Rightarrow> 'h"
  hs_del :: "'h \<Rightarrow> 'k \<Rightarrow> 'h"
  hs_keys :: "'h \<Rightarrow> 'k list"

section \<open>The contract of a keyed store\<close>

locale keyed_store =
  fixes lookup :: "'s \<Rightarrow> 'k \<Rightarrow> 'v option"
    and insert :: "'s \<Rightarrow> 'k \<Rightarrow> 'v \<Rightarrow> 's"
    and delete :: "'s \<Rightarrow> 'k \<Rightarrow> 's"
  assumes lookup_insert: "lookup (insert s k v) k' = (if k' = k then Some v else lookup s k')"
    and lookup_delete: "lookup (delete s k) k' = (if k' = k then None else lookup s k')"
begin

lemma lookup_insert_twice: "lookup (insert (insert s k v) k v') k' = lookup (insert s k v') k'"
  by (simp add: lookup_insert)

lemma lookup_delete_insert: "lookup s k = None \<Longrightarrow> lookup (delete (insert s k v) k) k' = lookup s k'"
  by (simp add: lookup_insert lookup_delete)

lemma lookup_delete_all: "lookup (foldl delete s ks) k = (if k \<in> set ks then None else lookup s k)"
  by (induction ks arbitrary: s) (auto simp: lookup_delete)

end

section \<open>The contract of a hash table\<close>

locale hash_table = keyed_store "hs_find H" "hs_put H" "hs_del H"
  for H :: "('h, 'k, 'v) hash_ops" +
  assumes find_new: "hs_find H (hs_new H) k = None"
    and keys_find: "set (hs_keys H t) = {k. hs_find H t k \<noteq> None}"
    and keys_distinct: "distinct (hs_keys H t)"
begin

lemma keys_new: "hs_keys H (hs_new H) = []"
  using keys_find [of "hs_new H"] by (simp add: find_new)

lemma count_card: "length (hs_keys H t) = card {k. hs_find H t k \<noteq> None}"
  using distinct_card [OF keys_distinct] keys_find by metis

lemma count_insert:
  "length (hs_keys H (hs_put H t k v)) =
    (if hs_find H t k = None then Suc (length (hs_keys H t)) else length (hs_keys H t))"
proof -
  have fin: "finite {k. hs_find H t k \<noteq> None}" using keys_find [of t] by (metis finite_set)
  have "{j. hs_find H (hs_put H t k v) j \<noteq> None} = Set.insert k {j. hs_find H t j \<noteq> None}"
    by (auto simp: lookup_insert)
  then show ?thesis using fin by (simp add: count_card card_insert_if)
qed

lemma keys_empty: "(\<And>k. hs_find H t k = None) \<Longrightarrow> hs_keys H t = []"
  using keys_find [of t] by simp

lemma find_all_deleted: "hs_find H (foldl (hs_del H) t (hs_keys H t)) k = None"
  by (simp add: lookup_delete_all keys_find)

end

section \<open>Instances: association lists and red-black trees\<close>

definition alist_table :: "(('k \<times> 'v) list, 'k, 'v) hash_ops" where
  "alist_table =
     \<lparr>hs_new = [], hs_find = map_of, hs_put = (\<lambda>t k v. AList.update k v t),
      hs_del = (\<lambda>t k. AList.delete k t), hs_keys = (\<lambda>t. remdups (map fst t))\<rparr>"

interpretation alist: hash_table alist_table
proof
  fix t :: "('k \<times> 'v) list"
  show "set (hs_keys alist_table t) = {k. hs_find alist_table t k \<noteq> None}"
    by (auto simp: alist_table_def map_of_eq_None_iff image_iff)
qed (auto simp: alist_table_def update_conv' delete_conv' restrict_map_def)

definition rbt_table :: "(('k::linorder, 'v) RBT.rbt, 'k, 'v) hash_ops" where
  "rbt_table =
     \<lparr>hs_new = RBT.empty, hs_find = RBT.lookup, hs_put = (\<lambda>t k v. RBT.insert k v t),
      hs_del = (\<lambda>t k. RBT.delete k t), hs_keys = RBT.keys\<rparr>"

interpretation ordered: hash_table rbt_table
proof
  fix t :: "('k::linorder, 'v) RBT.rbt"
  show "set (hs_keys rbt_table t) = {k. hs_find rbt_table t k \<noteq> None}"
    by (auto simp: rbt_table_def RBT.lookup_keys [symmetric])
qed (simp_all add: rbt_table_def)

end
