(* ===== verification/Endpoints_Cache.thy ===== *)
theory Endpoints_Cache
  imports Dynahash C_Strings
begin

text \<open>
  The cache of mocked responses of src/endpoints_cache.c: a hash table from 256-byte keys
  to responses of 2048 bytes with an error flag. Both are fixed char arrays that are read as C
  strings; reading one without a NUL is the fault \<open>OutOfBounds\<close>. The hash table is the
  parameter \<open>H\<close>; a failed allocation inside it raises in the backend and is not modelled.
\<close>

section \<open>The program\<close>

definition EC_KEY_MAX_LENGTH :: nat where "EC_KEY_MAX_LENGTH = 256"
definition EC_RESPONSE_MAX_LENGTH :: nat where "EC_RESPONSE_MAX_LENGTH = 2 * 1024"

record ec_entry =
  ec_response :: bytes
  ec_error :: bool

type_synonym 'h ec_ops = "('h, bytes, ec_entry) hash_ops"

record 'h cache_state =
  key_buf :: bytes
  hash_tab :: "'h option"

definition cache_new :: "'h cache_state" where
  "cache_new = \<lparr>key_buf = zeros EC_KEY_MAX_LENGTH, hash_tab = None\<rparr>"

definition set_key_buf :: "bytes \<Rightarrow> ('h, 'z) cache_state_scheme \<Rightarrow> ('h, 'z) cache_state_scheme res" where
  "set_key_buf key c =
     rbind (strncpy (zeros EC_KEY_MAX_LENGTH) key (min (length key) EC_KEY_MAX_LENGTH))
       (\<lambda>buf. Inr (c\<lparr>key_buf := buf\<rparr>))"

definition ec_init :: "'h ec_ops \<Rightarrow> ('h, 'z) cache_state_scheme \<Rightarrow> int \<times> ('h, 'z) cache_state_scheme" where
  "ec_init H c =
     (if hash_tab c \<noteq> None then (1, c) else (0, c\<lparr>hash_tab := Some (hs_new H)\<rparr>))"

definition ec_items_count :: "'h ec_ops \<Rightarrow> ('h, 'z) cache_state_scheme \<Rightarrow> nat" where
  "ec_items_count H c = (case hash_tab c of None \<Rightarrow> 0 | Some t \<Rightarrow> length (hs_keys H t))"

text \<open>The scan that logs every key and response as strings.\<close>

fun print_scan :: "'h ec_ops \<Rightarrow> 'h \<Rightarrow> bytes list \<Rightarrow> unit res" where
  "print_scan H t [] = Inr ()"
| "print_scan H t (k # ks) =
     rbind (cstr k) (\<lambda>_.
       rbind (case hs_find H t k of None \<Rightarrow> Inr [] | Some e \<Rightarrow> cstr (ec_response e))
         (\<lambda>_. print_scan H t ks))"

definition ec_print_elements :: "'h ec_ops \<Rightarrow> ('h, 'z) cache_state_scheme \<Rightarrow> int res" where
  "ec_print_elements H c =
     (case hash_tab c of
        None \<Rightarrow> Inr 1
      | Some t \<Rightarrow> rbind (print_scan H t (hs_keys H t)) (\<lambda>_. Inr 0))"

definition ec_store ::
  "'h ec_ops \<Rightarrow> bytes \<Rightarrow> bytes \<Rightarrow> bool \<Rightarrow> ('h, 'z) cache_state_scheme \<Rightarrow> (int \<times> ('h, 'z) cache_state_scheme) res" where
  "ec_store H key response error c =
     (let c1 = (if hash_tab c = None then snd (ec_init H c) else c)
      in rbind (set_key_buf key c1) (\<lambda>c2.
           rbind (strncpy (zeros EC_RESPONSE_MAX_LENGTH) response
                    (min (length response) EC_RESPONSE_MAX_LENGTH)) (\<lambda>r.
             (let c3 = c2\<lparr>hash_tab := map_option
                 (\<lambda>t. hs_put H t (key_buf c2) \<lparr>ec_response = r, ec_error = error\<rparr>) (hash_tab c2)\<rparr>
              in rbind (ec_print_elements H c3) (\<lambda>_. Inr (0, c3))))))"

text \<open>\<open>response_out\<close> points to the array in the table.\<close>

definition ec_find ::
  "'h ec_ops \<Rightarrow> bytes \<Rightarrow> ('h, 'z) cache_state_scheme \<Rightarrow> (ec_entry option \<times> ('h, 'z) cache_state_scheme) res" where
  "ec_find H key c =
     (case hash_tab c of
        None \<Rightarrow> Inr (None, c)
      | Some t \<Rightarrow> rbind (set_key_buf key c) (\<lambda>c1. Inr (hs_find H t (key_buf c1), c1)))"

definition ec_remove ::
  "'h ec_ops \<Rightarrow> bytes \<Rightarrow> ('h, 'z) cache_state_scheme \<Rightarrow> (int \<times> ('h, 'z) cache_state_scheme) res" where
  "ec_remove H key c =
     (case hash_tab c of
        None \<Rightarrow> Inr (-1, c)
      | Some t \<Rightarrow> rbind (set_key_buf key c) (\<lambda>c1.
          (case hs_find H t (key_buf c1) of
             None \<Rightarrow> Inr (-1, c1)
           | Some e \<Rightarrow>
               (let c2 = c1\<lparr>hash_tab := Some (hs_del H t (key_buf c1))\<rparr>
                in rbind (ec_print_elements H c2) (\<lambda>_. Inr (0, c2))))))"

text \<open>The scan removes the entry it stands on.\<close>

fun remove_scan :: "'h ec_ops \<Rightarrow> bytes list \<Rightarrow> 'h \<Rightarrow> int \<times> 'h" where
  "remove_scan H [] t = (0, t)"
| "remove_scan H (k # ks) t =
     (if hs_find H t k = None then (1, t) else remove_scan H ks (hs_del H t k))"

definition ec_remove_all ::
  "'h ec_ops \<Rightarrow> ('h, 'z) cache_state_scheme \<Rightarrow> (int \<times> ('h, 'z) cache_state_scheme) res" where
  "ec_remove_all H c =
     (case hash_tab c of
        None \<Rightarrow> Inr (1, c)
      | Some t \<Rightarrow>
          (let (r, t') = remove_scan H (hs_keys H t) t; c1 = c\<lparr>hash_tab := Some t'\<rparr>
           in if r \<noteq> 0 then Inr (1, c1)
              else rbind (ec_print_elements H c1) (\<lambda>_. Inr (0, c1))))"

definition ec_destroy ::
  "'h ec_ops \<Rightarrow> ('h, 'z) cache_state_scheme \<Rightarrow> (int \<times> ('h, 'z) cache_state_scheme) res" where
  "ec_destroy H c =
     (case hash_tab c of
        None \<Rightarrow> Inr (1, c)
      | Some t \<Rightarrow> rbind (ec_remove_all H c) (\<lambda>(_, c1). Inr (0, c1\<lparr>hash_tab := None\<rparr>)))"

section \<open>Specification\<close>

text \<open>The cache as a map from keys to responses.\<close>

definition short :: "nat \<Rightarrow> bytes \<Rightarrow> bool" where
  "short n s \<longleftrightarrow> NUL \<notin> set s \<and> length s < n"

definition padded :: "nat \<Rightarrow> bytes \<Rightarrow> bytes" where
  "padded n s = s @ zeros (n - length s)"

definition cached :: "'h ec_ops \<Rightarrow> ('h, 'z) cache_state_scheme \<Rightarrow> bytes \<Rightarrow> ec_entry option" where
  "cached H c key =
     (case hash_tab c of None \<Rightarrow> None | Some t \<Rightarrow> hs_find H t (padded EC_KEY_MAX_LENGTH key))"

text \<open>The table \<open>ec_store\<close> works on.\<close>

definition opened :: "'h ec_ops \<Rightarrow> ('h, 'z) cache_state_scheme \<Rightarrow> 'h" where
  "opened H c = (case hash_tab c of None \<Rightarrow> hs_new H | Some t \<Rightarrow> t)"

text \<open>Every key and response in the table is a C string in its array.\<close>

definition cache_inv :: "'h ec_ops \<Rightarrow> ('h, 'z) cache_state_scheme \<Rightarrow> bool" where
  "cache_inv H c \<longleftrightarrow>
     (case hash_tab c of
        None \<Rightarrow> True
      | Some t \<Rightarrow> \<forall>k \<in> set (hs_keys H t). NUL \<in> set k \<and>
          (\<forall>e. hs_find H t k = Some e \<longrightarrow> NUL \<in> set (ec_response e)))"

section \<open>Lemmas\<close>

lemma padded_inj: "short n s \<Longrightarrow> short n s' \<Longrightarrow> padded n s = padded n s' \<Longrightarrow> s = s'"
  using slot_len.store_inj [where sz = n and s = s and t = s']
  by (simp add: short_def padded_def strncpy_zeros)

lemma NUL_padded: "NUL \<in> set (padded n s) \<longleftrightarrow> NUL \<in> set s \<or> length s < n"
  by (auto simp: padded_def)

lemma padded_strncpy:
  "NUL \<notin> set s \<Longrightarrow> strncpy (zeros n) s (min (length s) n) = Inr (padded n (take n s))"
  by (cases "length s \<le> n") (simp_all add: strncpy_def padded_def)

lemma cstr_NUL_ok: "NUL \<in> set s \<Longrightarrow> \<exists>t. cstr s = Inr t"
  by (simp add: cstr_def)

lemma print_scan_ok:
  "\<forall>k \<in> set ks. NUL \<in> set k \<and> (\<forall>e. hs_find H t k = Some e \<longrightarrow> NUL \<in> set (ec_response e)) \<Longrightarrow>
    print_scan H t ks = Inr ()"
  by (induction ks) (auto simp: cstr_def split: option.split)

lemma print_scan_bad:
  "k \<in> set ks \<Longrightarrow> NUL \<notin> set k \<or> (\<exists>e. hs_find H t k = Some e \<and> NUL \<notin> set (ec_response e)) \<Longrightarrow>
    print_scan H t ks = Inl OutOfBounds"
  by (induction ks) (auto simp: cstr_def split: option.split)

lemma print_ok: "cache_inv H c \<Longrightarrow> \<exists>r. ec_print_elements H c = Inr r"
  by (auto simp: ec_print_elements_def cache_inv_def print_scan_ok split: option.split)

lemma set_key_buf_result:
  "NUL \<notin> set key \<Longrightarrow>
    set_key_buf key c = Inr (c\<lparr>key_buf := padded EC_KEY_MAX_LENGTH (take EC_KEY_MAX_LENGTH key)\<rparr>)"
  by (simp add: set_key_buf_def padded_strncpy)

text \<open>The operations over a hash table that keeps its contract.\<close>

locale response_table = hash_table H for H :: "'h ec_ops"
begin

lemma find_result:
  assumes "short EC_KEY_MAX_LENGTH key"
  shows "\<exists>c'. ec_find H key c = Inr (cached H c key, c') \<and> hash_tab c' = hash_tab c"
  using assms
  by (auto simp: ec_find_def cached_def short_def set_key_buf_result split: option.split)

lemma store_steps:
  assumes "NUL \<notin> set key" "NUL \<notin> set response"
  shows "\<exists>c3. hash_tab c3 = Some (hs_put H (opened H c) (padded EC_KEY_MAX_LENGTH (take EC_KEY_MAX_LENGTH key))
        \<lparr>ec_response = padded EC_RESPONSE_MAX_LENGTH (take EC_RESPONSE_MAX_LENGTH response), ec_error = error\<rparr>) \<and>
    ec_store H key response error c = rbind (ec_print_elements H c3) (\<lambda>_. Inr (0, c3))"
proof (intro exI conjI)
  let ?t = "hs_put H (opened H c) (padded EC_KEY_MAX_LENGTH (take EC_KEY_MAX_LENGTH key))
    \<lparr>ec_response = padded EC_RESPONSE_MAX_LENGTH (take EC_RESPONSE_MAX_LENGTH response), ec_error = error\<rparr>"
  let ?c = "c\<lparr>key_buf := padded EC_KEY_MAX_LENGTH (take EC_KEY_MAX_LENGTH key), hash_tab := Some ?t\<rparr>"
  show "hash_tab ?c = Some ?t" by simp
  show "ec_store H key response error c = rbind (ec_print_elements H ?c) (\<lambda>_. Inr (0, ?c))"
    using assms
    by (cases "hash_tab c")
      (simp_all add: ec_store_def set_key_buf_result padded_strncpy ec_init_def opened_def Let_def)
qed

lemma opened_inv:
  "cache_inv H c \<Longrightarrow> hs_find H (opened H c) k = Some e \<Longrightarrow> NUL \<in> set k \<and> NUL \<in> set (ec_response e)"
  using keys_find by (auto simp: cache_inv_def opened_def find_new split: option.splits)

lemma opened_cached: "hs_find H (opened H c) (padded EC_KEY_MAX_LENGTH key) = cached H c key"
  by (simp add: opened_def cached_def find_new split: option.split)

lemma opened_count: "length (hs_keys H (opened H c)) = ec_items_count H c"
  by (simp add: opened_def ec_items_count_def keys_new split: option.split)

lemma store_result:
  assumes "cache_inv H c" "short EC_KEY_MAX_LENGTH key" "short EC_RESPONSE_MAX_LENGTH response"
  shows "\<exists>c'. ec_store H key response error c = Inr (0, c') \<and> cache_inv H c' \<and>
    (\<forall>k. short EC_KEY_MAX_LENGTH k \<longrightarrow> cached H c' k =
      (if k = key then Some \<lparr>ec_response = padded EC_RESPONSE_MAX_LENGTH response, ec_error = error\<rparr>
       else cached H c k)) \<and>
    ec_items_count H c' = (if cached H c key = None then Suc (ec_items_count H c) else ec_items_count H c)"
proof -
  let ?k = "padded EC_KEY_MAX_LENGTH key"
  let ?e = "\<lparr>ec_response = padded EC_RESPONSE_MAX_LENGTH response, ec_error = error\<rparr>"
  have tk: "take EC_KEY_MAX_LENGTH key = key" "take EC_RESPONSE_MAX_LENGTH response = response"
    using assms(2,3) by (simp_all add: short_def)
  obtain c3 where c3: "hash_tab c3 = Some (hs_put H (opened H c) ?k ?e)"
    "ec_store H key response error c = rbind (ec_print_elements H c3) (\<lambda>_. Inr (0, c3))"
    using store_steps [of key response c error] assms(2,3) unfolding tk short_def by blast
  have inv: "cache_inv H c3"
  proof -
    have "NUL \<in> set ?k" "NUL \<in> set (ec_response ?e)"
      using assms(2,3) by (auto simp: NUL_padded short_def)
    moreover have "NUL \<in> set k \<and> NUL \<in> set (ec_response e)"
      if "hs_find H (hs_put H (opened H c) ?k ?e) k = Some e" for k e
      using that opened_inv [OF assms(1)] calculation by (auto simp: lookup_insert split: if_splits)
    ultimately show ?thesis
      using keys_find by (auto simp: cache_inv_def c3(1))
  qed
  have "ec_store H key response error c = Inr (0, c3)"
    using print_ok [OF inv] c3(2) by auto
  moreover have "cached H c3 k = (if k = key then Some ?e else cached H c k)"
    if "short EC_KEY_MAX_LENGTH k" for k
    using padded_inj [OF that assms(2)] opened_cached [of c k]
    by (auto simp: cached_def c3(1) lookup_insert)
  moreover have "ec_items_count H c3 =
      (if cached H c key = None then Suc (ec_items_count H c) else ec_items_count H c)"
    using c3(1) opened_cached [of c key] opened_count [of c]
    by (simp add: ec_items_count_def count_insert)
  ultimately show ?thesis using inv by blast
qed

lemma store_fault:
  assumes "cache_inv H c" "NUL \<notin> set key" "NUL \<notin> set response"
    and "EC_KEY_MAX_LENGTH \<le> length key \<or> EC_RESPONSE_MAX_LENGTH \<le> length response"
  shows "ec_store H key response error c = Inl OutOfBounds"
proof -
  let ?k = "padded EC_KEY_MAX_LENGTH (take EC_KEY_MAX_LENGTH key)"
  let ?e = "\<lparr>ec_response = padded EC_RESPONSE_MAX_LENGTH (take EC_RESPONSE_MAX_LENGTH response), ec_error = error\<rparr>"
  obtain c3 where c3: "hash_tab c3 = Some (hs_put H (opened H c) ?k ?e)"
    "ec_store H key response error c = rbind (ec_print_elements H c3) (\<lambda>_. Inr (0, c3))"
    using store_steps [OF assms(2,3)] by blast
  let ?t = "hs_put H (opened H c) ?k ?e"
  have "?k \<in> set (hs_keys H ?t)" using keys_find [of ?t] by (simp add: lookup_insert)
  moreover have "NUL \<notin> set ?k \<or> NUL \<notin> set (ec_response ?e)"
    using assms(2-4) by (auto simp: NUL_padded dest: in_set_takeD)
  moreover have "hs_find H ?t ?k = Some ?e" by (simp add: lookup_insert)
  ultimately have "print_scan H ?t (hs_keys H ?t) = Inl OutOfBounds"
    by (intro print_scan_bad [of ?k]) auto
  then show ?thesis using c3 by (simp add: ec_print_elements_def)
qed

lemma remove_result:
  assumes "cache_inv H c" "short EC_KEY_MAX_LENGTH key"
  shows "\<exists>c'. ec_remove H key c = Inr (if cached H c key = None then -1 else 0, c') \<and> cache_inv H c' \<and>
    (\<forall>k. short EC_KEY_MAX_LENGTH k \<longrightarrow> cached H c' k = (if k = key then None else cached H c k))"
proof (cases "cached H c key")
  case None
  then show ?thesis
  proof (cases "hash_tab c")
    case None
    then show ?thesis using assms \<open>cached H c key = None\<close>
      by (auto simp: ec_remove_def cached_def)
  next
    case (Some t)
    then show ?thesis using assms \<open>cached H c key = None\<close>
      by (auto simp: ec_remove_def cached_def set_key_buf_result short_def cache_inv_def)
  qed
next
  case (Some e)
  then obtain t where t: "hash_tab c = Some t" "hs_find H t (padded EC_KEY_MAX_LENGTH key) = Some e"
    by (auto simp: cached_def split: option.splits)
  let ?c = "c\<lparr>key_buf := padded EC_KEY_MAX_LENGTH key,
    hash_tab := Some (hs_del H t (padded EC_KEY_MAX_LENGTH key))\<rparr>"
  have inv: "cache_inv H ?c"
    using assms(1) t keys_find by (auto simp: cache_inv_def lookup_delete split: if_splits)
  have "ec_remove H key c = Inr (0, ?c)"
    using print_ok [OF inv] assms(2) t
    by (auto simp: ec_remove_def set_key_buf_result short_def Let_def)
  moreover have "cached H ?c k = (if k = key then None else cached H c k)" if "short EC_KEY_MAX_LENGTH k" for k
    using padded_inj [OF that assms(2)] t by (auto simp: cached_def lookup_delete)
  ultimately show ?thesis using inv Some by auto
qed

lemma remove_scan_all:
  "distinct ks \<Longrightarrow> \<forall>k \<in> set ks. hs_find H t k \<noteq> None \<Longrightarrow> remove_scan H ks t = (0, foldl (hs_del H) t ks)"
proof (induction ks arbitrary: t)
  case (Cons k ks)
  then have "\<forall>j \<in> set ks. hs_find H (hs_del H t k) j \<noteq> None" by (auto simp: lookup_delete)
  with Cons show ?case by auto
qed simp

lemma remove_all_result:
  assumes "hash_tab c \<noteq> None"
  shows "\<exists>c'. ec_remove_all H c = Inr (0, c') \<and> ec_items_count H c' = 0 \<and> (\<forall>k. cached H c' k = None)"
proof -
  obtain t where t: "hash_tab c = Some t" using assms by blast
  let ?t = "foldl (hs_del H) t (hs_keys H t)"
  have scan: "remove_scan H (hs_keys H t) t = (0, ?t)"
    using keys_find [of t] by (intro remove_scan_all keys_distinct) auto
  have "hs_keys H ?t = []" by (rule keys_empty) (rule find_all_deleted)
  then show ?thesis
    using t scan find_all_deleted [of t]
    by (auto simp: ec_remove_all_def ec_print_elements_def ec_items_count_def cached_def)
qed

end

interpretation alist_responses: response_table alist_table
  by unfold_locales

lemma cache_inv_new: "cache_inv H cache_new"
  by (simp add: cache_inv_def cache_new_def)

section \<open>Properties\<close>

text \<open>
  C20. After a store of a key below 256 bytes and a response below 2048 bytes, finding the key
  gives the response as a C string and the error flag; every other key finds what it found
  before; the count grows by one exactly for a new key; the next operation finds the cache in
  order again.
\<close>

theorem ec_store_find:
  assumes "response_table H" "cache_inv H c"
    and "short EC_KEY_MAX_LENGTH key" "short EC_RESPONSE_MAX_LENGTH response"
  shows "\<exists>c1. ec_store H key response error c = Inr (0, c1) \<and> cache_inv H c1 \<and>
    ec_items_count H c1 = ec_items_count H c + (if cached H c key = None then 1 else 0) \<and>
    (\<exists>e c2. ec_find H key c1 = Inr (Some e, c2) \<and> cstr (ec_response e) = Inr response \<and> ec_error e = error) \<and>
    (\<forall>k. short EC_KEY_MAX_LENGTH k \<and> k \<noteq> key \<longrightarrow>
      (\<exists>c2 c3. ec_find H k c1 = Inr (cached H c k, c2) \<and> ec_find H k c = Inr (cached H c k, c3)))"
proof -
  obtain c1 where c1: "ec_store H key response error c = Inr (0, c1)" "cache_inv H c1"
    "\<forall>k. short EC_KEY_MAX_LENGTH k \<longrightarrow> cached H c1 k =
      (if k = key then Some \<lparr>ec_response = padded EC_RESPONSE_MAX_LENGTH response, ec_error = error\<rparr>
       else cached H c k)"
    "ec_items_count H c1 = (if cached H c key = None then Suc (ec_items_count H c) else ec_items_count H c)"
    using response_table.store_result [OF assms] by blast
  note find = response_table.find_result [OF assms(1)]
  have "cstr (padded EC_RESPONSE_MAX_LENGTH response) = Inr response"
    using assms(4) by (simp add: padded_def short_def cstr_padded)
  moreover obtain c2 where "ec_find H key c1 = Inr (cached H c1 key, c2)" using find [OF assms(3)] by blast
  ultimately have "\<exists>e c2. ec_find H key c1 = Inr (Some e, c2) \<and> cstr (ec_response e) = Inr response \<and> ec_error e = error"
    using c1(3) assms(3) by simp
  moreover have "\<exists>c2 c3. ec_find H k c1 = Inr (cached H c k, c2) \<and> ec_find H k c = Inr (cached H c k, c3)"
    if "short EC_KEY_MAX_LENGTH k" "k \<noteq> key" for k
    using find [OF that(1), of c1] find [OF that(1), of c] c1(3) that by auto
  ultimately show ?thesis using c1 by auto
qed

theorem ec_store_find_witness:
  "\<exists>c1 e c2. ec_store alist_table ''49123'' ''7'' False cache_new = Inr (0, c1) \<and>
    ec_find alist_table ''49123'' c1 = Inr (Some e, c2) \<and> cstr (ec_response e) = Inr ''7''"
  using ec_store_find [OF alist_responses.response_table_axioms cache_inv_new, of "''49123''" "''7''" False]
  by (auto simp: short_def EC_KEY_MAX_LENGTH_def EC_RESPONSE_MAX_LENGTH_def)

text \<open>
  C36. A key of 256 bytes or more, or a response of 2048 or more, is stored without a NUL, and
  the log line of the store already reads it past its array; shorter ones never fault.
\<close>

theorem ec_store_fault:
  assumes "response_table H" "cache_inv H c" "NUL \<notin> set key" "NUL \<notin> set response"
  shows "ec_store H key response error c = Inl f \<longleftrightarrow> f = OutOfBounds \<and>
    (EC_KEY_MAX_LENGTH \<le> length key \<or> EC_RESPONSE_MAX_LENGTH \<le> length response)"
proof (cases "EC_KEY_MAX_LENGTH \<le> length key \<or> EC_RESPONSE_MAX_LENGTH \<le> length response")
  case True
  then show ?thesis using response_table.store_fault [OF assms] by auto
next
  case False
  then have "short EC_KEY_MAX_LENGTH key" "short EC_RESPONSE_MAX_LENGTH response"
    using assms(3,4) by (auto simp: short_def)
  from response_table.store_result [OF assms(1,2) this, of error] False show ?thesis by auto
qed

theorem ec_store_fault_witness:
  "ec_store alist_table ''1'' (replicate 2048 CHR ''x'') False cache_new = Inl OutOfBounds"
  using ec_store_fault [OF alist_responses.response_table_axioms cache_inv_new, of "''1''"
      "replicate 2048 CHR ''x''" False OutOfBounds]
  by (simp add: EC_RESPONSE_MAX_LENGTH_def)

text \<open>
  Removing a key reports whether it was there and takes away that key only; removing all
  keys, and destroying the table, leaves a cache that finds nothing.
\<close>

lemma ec_remove_keys:
  assumes "response_table H" "cache_inv H c" "short EC_KEY_MAX_LENGTH key" "hash_tab c \<noteq> None"
  shows "(\<exists>c1. ec_remove H key c = Inr (if cached H c key = None then -1 else 0, c1) \<and> cache_inv H c1 \<and>
      (\<forall>k. short EC_KEY_MAX_LENGTH k \<longrightarrow> cached H c1 k = (if k = key then None else cached H c k))) \<and>
    (\<exists>c1. ec_remove_all H c = Inr (0, c1) \<and> ec_items_count H c1 = 0 \<and> (\<forall>k. cached H c1 k = None)) \<and>
    (\<exists>c1. ec_destroy H c = Inr (0, c1) \<and> ec_items_count H c1 = 0 \<and> ec_find H key c1 = Inr (None, c1))"
proof -
  note all = response_table.remove_all_result [OF assms(1,4)]
  from all assms(4) have "\<exists>c1. ec_destroy H c = Inr (0, c1) \<and> ec_items_count H c1 = 0 \<and> ec_find H key c1 = Inr (None, c1)"
    by (auto simp: ec_destroy_def ec_items_count_def ec_find_def)
  with all response_table.remove_result [OF assms(1-3)] show ?thesis by blast
qed

end
