(* ===== verification/Lnp.thy ===== *)
theory Lnp
  imports Resolve Endpoints_Cache
begin

text \<open>
  The SQL functions of number portability: src/f_lnp_endpoints_set.c,
  f_lnp_endpoints_show.c, f_lnp_endpoints_cache_set.c, f_lnp_set_timeout.c,
  f_lnp_set_rtt_timeout.c and f_lnp_resolve.c. They run on the state of the resolver, the
  transport and the cache of mocked responses.
\<close>

section \<open>The program\<close>

record ('r, 'h) session = "'r world" +
  cache :: "'h cache_state"

type_synonym ('a, 'r, 'h) sql = "'a res \<times> ('r, 'h) session"

text \<open>The loop over the array of \<open>lnp_endpoints_set\<close>, with its buffer \<open>c_uri\<close>.\<close>

fun set_endpoints_loop ::
  "(bytes \<Rightarrow> 32 word option) \<Rightarrow> bytes option list \<Rightarrow> resolver \<Rightarrow> resolver res" where
  "set_endpoints_loop inet_aton [] r = Inr r"
| "set_endpoints_loop inet_aton (None # us) r = set_endpoints_loop inet_aton us r"
| "set_endpoints_loop inet_aton (Some uri # us) r =
     rbind (memcpy (zeros MAX_ENDPOINT_LEN) uri) (\<lambda>c_uri.
       rbind (cstr c_uri) (\<lambda>s.
         rbind (add_endpoint inet_aton s r) (\<lambda>(_, r'). set_endpoints_loop inet_aton us r')))"

text \<open>\<open>fd\<close> is what \<open>socket()\<close> would return.\<close>

definition lnp_endpoints_set ::
  "(bytes \<Rightarrow> 32 word option) \<Rightarrow> int \<Rightarrow> bytes option list \<Rightarrow> ('r, 'h) session \<Rightarrow> (unit option, 'r, 'h) sql" where
  "lnp_endpoints_set inet_aton fd input s =
     (let (opened, t1) = (if tr_get_socket_fd (tr s) < 0 then tr_init_socket fd (tr s) else (Inr 0, tr s));
          s1 = s\<lparr>tr := t1\<rparr>
      in case opened of
           Inl f \<Rightarrow> (Inl f, s1)
         | Inr _ \<Rightarrow>
             (let s2 = s1\<lparr>rs := snd (remove_all_endpoints (rs s1))\<rparr>
              in case set_endpoints_loop inet_aton input (rs s2) of
                   Inl f \<Rightarrow> (Inl f, s2)
                 | Inr r \<Rightarrow> (Inr None, s2\<lparr>rs := r\<rparr>)))"

text \<open>One call of the set-returning function, and the calls for all rows.\<close>

definition show_row :: "nat \<Rightarrow> resolver \<Rightarrow> (bytes \<times> bytes) option res" where
  "show_row i r =
     (case get_endpoint_at_index (int i) r of
        None \<Rightarrow> Inr None
      | Some ep \<Rightarrow>
          rbind (cstr (ep_url ep)) (\<lambda>_.
            rbind (strncpy (zeros MAX_ENDPOINT_LEN) (ep_url ep) MAX_ENDPOINT_LEN) (\<lambda>v1.
              rbind (cstr v1) (\<lambda>url. Inr (Some (take 15 (dec_signed (ep_id ep)), url))))))"

fun show_rows :: "nat list \<Rightarrow> resolver \<Rightarrow> (bytes \<times> bytes) option list res" where
  "show_rows [] r = Inr []"
| "show_rows (i # is) r =
     rbind (show_row i r) (\<lambda>row. rbind (show_rows is r) (\<lambda>rows. Inr (row # rows)))"

definition lnp_endpoints_show :: "bool \<Rightarrow> resolver \<Rightarrow> (bytes \<times> bytes) option list res" where
  "lnp_endpoints_show composite r =
     (if \<not> composite then Inl (PgError ''function returning record called in context that cannot accept type record'')
      else show_rows [0..<get_endpoints_count r] r)"

definition lnp_endpoints_cache_set ::
  "'h ec_ops \<Rightarrow> bytes \<Rightarrow> bytes \<Rightarrow> bool \<Rightarrow> ('r, 'h) session \<Rightarrow> (unit option, 'r, 'h) sql" where
  "lnp_endpoints_cache_set H key response error s =
     (case ec_store H key response error (cache s) of
        Inl f \<Rightarrow> (Inl f, s)
      | Inr (_, c) \<Rightarrow> (Inr None, s\<lparr>cache := c\<rparr>))"

definition lnp_set_timeout :: "int \<Rightarrow> int \<Rightarrow> ('r, 'h) session \<Rightarrow> (unit option, 'r, 'h) sql" where
  "lnp_set_timeout fd t s =
     (let (opened, t1) = (if tr_get_socket_fd (tr s) < 0 then tr_init_socket fd (tr s) else (Inr 0, tr s))
      in case opened of
           Inl f \<Rightarrow> (Inl f, s\<lparr>tr := t1\<rparr>)
         | Inr _ \<Rightarrow> (Inr None, s\<lparr>tr := snd (tr_set_timeout t t1)\<rparr>))"

definition lnp_set_rtt_timeout :: "int \<Rightarrow> ('r, 'h) session \<Rightarrow> (unit option, 'r, 'h) sql" where
  "lnp_set_rtt_timeout t s = (Inr None, s\<lparr>rs := snd (set_rtt_timeout t (rs s))\<rparr>)"

section \<open>Resolving\<close>

text \<open>The attribute \<open>BuildTupleFromCStrings\<close> makes of a pointer.\<close>

definition attribute :: "bytes option \<Rightarrow> bytes option res" where
  "attribute v = (case v of None \<Rightarrow> Inr None | Some buf \<Rightarrow> rbind (cstr buf) (\<lambda>t. Inr (Some t)))"

definition lnp_request :: "8 word \<Rightarrow> int \<Rightarrow> bytes \<Rightarrow> request" where
  "lnp_request ty db data = \<lparr>req_id = 0, req_type = ty, db_id = db, req_data = data\<rparr>"

definition lnp_resolve_cnam ::
  "'h ec_ops \<Rightarrow> ('r \<Rightarrow> nat \<times> 'r) \<Rightarrow> int \<Rightarrow> bytes \<Rightarrow> ('r, 'h) session \<Rightarrow> (bytes option, 'r, 'h) sql" where
  "lnp_resolve_cnam H rand db data s =
     (let req = lnp_request CNAM_REQ_VERSION db data
      in case ec_find H data (cache s) of
           Inl f \<Rightarrow> (Inl f, s)
         | Inr (found, c) \<Rightarrow>
             (let s1 = s\<lparr>cache := c\<rparr>
              in case found of
                   Some e \<Rightarrow>
                     (rbind (cstr (ec_response e)) (\<lambda>t. Inr (if ec_error e then None else Some t)), s1)
                 | None \<Rightarrow>
                     (let (out, s2) = resolve rand req response_zero None s1
                      in (rbind out (\<lambda>(n, resp, error). Inr (if n \<noteq> 0 then None else val resp)), s2))))"

definition lnp_resolve_tagged ::
  "'h ec_ops \<Rightarrow> ('r \<Rightarrow> nat \<times> 'r) \<Rightarrow> bool \<Rightarrow> int \<Rightarrow> bytes \<Rightarrow> ('r, 'h) session
     \<Rightarrow> ((bytes option \<times> bytes option) option, 'r, 'h) sql" where
  "lnp_resolve_tagged H rand composite db data s =
     (let req = lnp_request TAGGED_REQ_VERSION db data
      in if \<not> composite
         then (Inl (PgError ''function returning record called in context that cannot accept type record''), s)
         else case ec_find H data (cache s) of
           Inl f \<Rightarrow> (Inl f, s)
         | Inr (found, c) \<Rightarrow>
             (let s1 = s\<lparr>cache := c\<rparr>
              in case found of
                   Some e \<Rightarrow>
                     (rbind (cstr (ec_response e))
                        (\<lambda>t. Inr (if ec_error e then None else Some (Some t, None))), s1)
                 | None \<Rightarrow>
                     (let (out, s2) = resolve rand req response_zero None s1
                      in (rbind out (\<lambda>(n, resp, error).
                            if n \<noteq> 0 then Inr None
                            else rbind (attribute (val_1 resp)) (\<lambda>lrn.
                              rbind (attribute (val_2 resp)) (\<lambda>tag. Inr (Some (lrn, tag))))), s2))))"

definition lnp_resolve_tagged_with_error ::
  "'h ec_ops \<Rightarrow> ('r \<Rightarrow> nat \<times> 'r) \<Rightarrow> bool \<Rightarrow> int \<Rightarrow> bytes \<Rightarrow> ('r, 'h) session
     \<Rightarrow> (bytes option \<times> bytes option \<times> bytes option, 'r, 'h) sql" where
  "lnp_resolve_tagged_with_error H rand composite db data s =
     (let req = lnp_request TAGGED_REQ_VERSION db data
      in if \<not> composite
         then (Inl (PgError ''function returning record called in context that cannot accept type record''), s)
         else case ec_find H data (cache s) of
           Inl f \<Rightarrow> (Inl f, s)
         | Inr (found, c) \<Rightarrow>
             (let s1 = s\<lparr>cache := c\<rparr>
              in case found of
                   Some e \<Rightarrow>
                     (rbind (cstr (ec_response e))
                        (\<lambda>t. Inr (if ec_error e then (None, None, Some t) else (Some t, None, None))), s1)
                 | None \<Rightarrow>
                     (let (out, s2) = resolve rand req response_zero None s1
                      in (rbind out (\<lambda>(n, resp, error).
                            if n \<noteq> 0 then Inr (None, None, error)
                            else rbind (attribute (val_1 resp)) (\<lambda>lrn.
                              rbind (attribute (val_2 resp)) (\<lambda>tag. Inr (lrn, tag, None)))), s2))))"

section \<open>Specification of the endpoint list\<close>

text \<open>A uri that fits the buffers of the code, and one that becomes an endpoint.\<close>

definition usable :: "bytes \<Rightarrow> bool" where
  "usable uri \<longleftrightarrow> short MAX_ENDPOINT_LEN uri \<and>
     (case parseAddr (Some uri) (Some uri_zero) of
        Inr (_, Some c) \<Rightarrow> NUL \<in> set (host c) | _ \<Rightarrow> False)"

definition accepted :: "(bytes \<Rightarrow> 32 word option) \<Rightarrow> bytes \<Rightarrow> bool" where
  "accepted inet_aton uri \<longleftrightarrow>
     (case parseAddr (Some uri) (Some uri_zero) of
        Inr (r, Some c) \<Rightarrow> r \<noteq> -1 \<and>
          (case cstr (host c) of Inr h \<Rightarrow> inet_aton h \<noteq> None | Inl _ \<Rightarrow> False)
      | _ \<Rightarrow> False)"

text \<open>The URLs in the table, in the order of the slots.\<close>

definition urls :: "resolver \<Rightarrow> bytes list" where
  "urls r = map (\<lambda>i. takeWhile (\<lambda>c. c \<noteq> NUL) (ep_url (endpoints r ! i))) [0..<endpoints_count r]"

lemma urls_length [simp]: "length (urls r) = endpoints_count r"
  by (simp add: urls_def)

lemma urls_same:
  "urls (r\<lparr>endpoints := (endpoints r)[endpoints_count r := e]\<rparr>) = urls r"
  by (simp add: urls_def)

lemma urls_add:
  assumes "endpoints_count r < length (endpoints r)" "cstr (ep_url e) = Inr uri"
  shows "urls (r\<lparr>endpoints := (endpoints r)[endpoints_count r := e],
    endpoints_count := Suc (endpoints_count r)\<rparr>) = urls r @ [uri]"
  using assms by (auto simp: urls_def cstr_def split: if_splits)

text \<open>What \<open>add_endpoint\<close> does to the list of URLs.\<close>

lemma add_endpoint_total:
  assumes "resolver_inv r" "usable uri"
  shows "\<exists>c r'. add_endpoint inet_aton uri r = Inr (c, r') \<and>
    (c = 0 \<longleftrightarrow> endpoints_count r < MAX_ENDPOINTS \<and> accepted inet_aton uri)"
proof (cases "endpoints_count r = MAX_ENDPOINTS")
  case True
  then show ?thesis by (simp add: add_endpoint_def)
next
  case False
  then have n: "endpoints_count r < MAX_ENDPOINTS" "endpoints_count r < length (endpoints r)"
    using assms(1) by (auto simp: resolver_inv_def)
  obtain code comps where p: "parseAddr (Some uri) (Some uri_zero) = Inr (code, Some comps)"
    "NUL \<in> set (host comps)"
    using assms(2) by (auto simp: usable_def split: sum.splits option.splits)
  obtain h where h: "cstr (host comps) = Inr h" using cstr_NUL_ok [OF p(2)] by blast
  obtain url where "strncpy (zeros MAX_ENDPOINT_LEN) uri MAX_ENDPOINT_LEN = Inr url"
    by (simp add: strncpy_def)
  then show ?thesis
    using n p(1) h
    by (auto simp: add_endpoint_def store_endpoint_def accepted_def Let_def split: option.split)
qed

lemma add_endpoint_urls:
  assumes "resolver_inv r" "usable uri"
  shows "\<exists>c r'. add_endpoint inet_aton uri r = Inr (c, r') \<and> resolver_inv r' \<and>
    urls r' = (if endpoints_count r < MAX_ENDPOINTS \<and> accepted inet_aton uri then urls r @ [uri] else urls r)"
proof -
  obtain c r' where add: "add_endpoint inet_aton uri r = Inr (c, r')"
    and c: "c = 0 \<longleftrightarrow> endpoints_count r < MAX_ENDPOINTS \<and> accepted inet_aton uri"
    using add_endpoint_total [OF assms] by blast
  have nul: "NUL \<notin> set uri" using assms(2) by (simp add: usable_def short_def)
  have inv: "resolver_inv r'" using resolver_inv_add [OF assms(1) nul add] .
  from add_endpoint_result [OF assms(1) nul add]
  have "urls r' = (if c = 0 then urls r @ [uri] else urls r)"
  proof (elim disjE conjE exE)
    fix e assume "c = -1" "r' = r"
    then show ?thesis by simp
  next
    fix e assume "c = -1" "r' = r\<lparr>endpoints := (endpoints r)[endpoints_count r := e]\<rparr>"
    then show ?thesis by (simp add: urls_same)
  next
    fix e assume e: "c = 0" "endpoints_count r < MAX_ENDPOINTS" "cstr (ep_url e) = Inr uri"
      "r' = r\<lparr>endpoints := (endpoints r)[endpoints_count r := e], endpoints_count := Suc (endpoints_count r)\<rparr>"
    moreover have "endpoints_count r < length (endpoints r)"
      using e(2) assms(1) by (simp add: resolver_inv_def)
    ultimately show ?thesis by (simp add: urls_add)
  qed
  then show ?thesis using add inv c by auto
qed

lemma set_endpoints_loop_urls:
  "resolver_inv r \<Longrightarrow> \<forall>u \<in> set (nonnull us). usable u \<Longrightarrow>
    \<exists>r'. set_endpoints_loop inet_aton us r = Inr r' \<and> resolver_inv r' \<and>
      urls r' = take MAX_ENDPOINTS (urls r @ filter (accepted inet_aton) (nonnull us))"
proof (induction us arbitrary: r rule: nonnull.induct)
  case 1
  then show ?case by (simp add: resolver_inv_def)
next
  case (2 us)
  then show ?case by simp
next
  case (3 uri us)
  have u: "usable uri" using "3.prems" by simp
  then have buf: "memcpy (zeros MAX_ENDPOINT_LEN) uri = Inr (uri @ zeros (MAX_ENDPOINT_LEN - length uri))"
    "cstr (uri @ zeros (MAX_ENDPOINT_LEN - length uri)) = Inr uri"
    by (auto simp: usable_def short_def memcpy_def cstr_padded)
  obtain c r1 where r1: "add_endpoint inet_aton uri r = Inr (c, r1)" "resolver_inv r1"
    "urls r1 = (if endpoints_count r < MAX_ENDPOINTS \<and> accepted inet_aton uri then urls r @ [uri] else urls r)"
    using add_endpoint_urls [OF "3.prems"(1) u] by blast
  obtain r' where r': "set_endpoints_loop inet_aton us r1 = Inr r'" "resolver_inv r'"
    "urls r' = take MAX_ENDPOINTS (urls r1 @ filter (accepted inet_aton) (nonnull us))"
    using "3.IH" [OF r1(2)] "3.prems"(2) by auto
  have "length (urls r) \<le> MAX_ENDPOINTS" using "3.prems"(1) by (simp add: resolver_inv_def)
  then have "urls r' = take MAX_ENDPOINTS (urls r @ filter (accepted inet_aton) (nonnull (Some uri # us)))"
    using r'(3) r1(3) by (auto simp: take_Cons')
  then show ?case using buf r1(1) r' by auto
qed

lemma set_endpoints_loop_long:
  assumes "resolver_inv r" "\<forall>u \<in> set (nonnull us). usable u" "MAX_ENDPOINT_LEN \<le> length uri" "NUL \<notin> set uri"
  shows "set_endpoints_loop inet_aton (us @ Some uri # vs) r = Inl OutOfBounds"
  using assms(1,2)
proof (induction us arbitrary: r rule: nonnull.induct)
  case 1
  then show ?case using assms(3,4) by (simp add: memcpy_def cstr_def)
next
  case (2 us)
  then show ?case by simp
next
  case (3 u us)
  have u: "usable u" using "3.prems" by simp
  then have buf: "memcpy (zeros MAX_ENDPOINT_LEN) u = Inr (u @ zeros (MAX_ENDPOINT_LEN - length u))"
    "cstr (u @ zeros (MAX_ENDPOINT_LEN - length u)) = Inr u"
    by (auto simp: usable_def short_def memcpy_def cstr_padded)
  obtain c r1 where "add_endpoint inet_aton u r = Inr (c, r1)" "resolver_inv r1"
    using add_endpoint_urls [OF "3.prems"(1) u] by blast
  then show ?case using buf "3.IH" [of r1] "3.prems"(2) by simp
qed

text \<open>The rows shown are the slots with their URLs.\<close>

lemma takeWhile_NUL_shorter: "NUL \<in> set xs \<Longrightarrow> length (takeWhile (\<lambda>c. c \<noteq> NUL) xs) < length xs"
  by (induction xs) auto

lemma show_row_ok:
  assumes "resolver_inv r" "i < endpoints_count r"
  shows "show_row i r = Inr (Some (dec i, urls r ! i))"
proof -
  let ?e = "endpoints r ! i"
  have e: "endpoint_ok i ?e" using assms by (simp add: resolver_inv_def)
  let ?u = "takeWhile (\<lambda>c. c \<noteq> NUL) (ep_url ?e)"
  have u: "cstr (ep_url ?e) = Inr ?u" using e by (simp add: endpoint_ok_def cstr_def)
  have "length ?u < MAX_ENDPOINT_LEN"
    using e takeWhile_NUL_shorter [of "ep_url ?e"] by (auto simp: endpoint_ok_def)
  then have "strncpy (zeros MAX_ENDPOINT_LEN) (ep_url ?e) MAX_ENDPOINT_LEN =
      Inr (?u @ zeros (MAX_ENDPOINT_LEN - length ?u))"
    by (simp add: strncpy_def)
  moreover have "cstr (?u @ zeros (MAX_ENDPOINT_LEN - length ?u)) = Inr ?u"
    using \<open>length ?u < MAX_ENDPOINT_LEN\<close> by (intro cstr_padded) (auto dest: set_takeWhileD)
  moreover have "i < 10" using assms by (simp add: resolver_inv_def MAX_ENDPOINTS_def)
  then have "dec i = [digit_char i]" by (subst dec.simps) simp
  then have "take 15 (dec_signed (ep_id ?e)) = dec i"
    using e by (simp add: endpoint_ok_def dec_signed_def)
  ultimately show ?thesis
    using assms(2) u by (simp add: show_row_def get_endpoint_at_index_def urls_def)
qed

lemma show_rows_ok:
  "resolver_inv r \<Longrightarrow> \<forall>i \<in> set is. i < endpoints_count r \<Longrightarrow>
    show_rows is r = Inr (map (\<lambda>i. Some (dec i, urls r ! i)) is)"
  by (induction "is") (auto simp: show_row_ok)

section \<open>Properties\<close>

text \<open>
  C24. \<open>lnp_endpoints_set\<close> followed by \<open>lnp_endpoints_show\<close>: for uris that fit the buffers the
  rows are the first five acceptable uris of the array, in order, numbered from 0; what was
  configured before is gone.
\<close>

theorem lnp_endpoints_set_show:
  assumes "resolver_inv (rs s)" "0 \<le> fd" "\<forall>u \<in> set (nonnull input). usable u"
  shows "\<exists>s'. lnp_endpoints_set inet_aton fd input s = (Inr None, s') \<and> resolver_inv (rs s') \<and>
    0 \<le> socket_fd (tr s') \<and>
    lnp_endpoints_show True (rs s') =
      Inr (map (\<lambda>(i, u). Some (dec i, u))
        (enumerate 0 (take MAX_ENDPOINTS (filter (accepted inet_aton) (nonnull input)))))"
proof -
  let ?r0 = "snd (remove_all_endpoints (rs s))"
  let ?us = "take MAX_ENDPOINTS (filter (accepted inet_aton) (nonnull input))"
  have "urls ?r0 = []" by (simp add: urls_def remove_all_endpoints_def)
  then obtain r' where r': "set_endpoints_loop inet_aton input ?r0 = Inr r'" "resolver_inv r'" "urls r' = ?us"
    using set_endpoints_loop_urls [OF resolver_inv_remove [OF assms(1)] assms(3), of inet_aton] by auto
  have "endpoints_count r' = length ?us" using r'(3) urls_length by metis
  then have "lnp_endpoints_show True r' = Inr (map (\<lambda>i. Some (dec i, ?us ! i)) [0..<length ?us])"
    using show_rows_ok [OF r'(2), of "[0..<endpoints_count r']"] r'(3)
    by (simp add: lnp_endpoints_show_def get_endpoints_count_def)
  moreover have "map (\<lambda>i. Some (dec i, ?us ! i)) [0..<length ?us] =
      map (\<lambda>(i, u). Some (dec i, u)) (enumerate 0 ?us)"
    by (rule nth_equalityI) (simp_all add: nth_enumerate_eq)
  ultimately show ?thesis
    using r'(1,2) assms(2)
    by (auto simp: lnp_endpoints_set_def tr_get_socket_fd_def tr_init_socket_def tr_set_timeout_def Let_def)
qed

text \<open>
  A uri of 128 bytes or more overruns the stack buffer \<open>c_uri\<close>, or leaves it without its NUL.
\<close>

lemma lnp_endpoints_set_overflow:
  assumes "resolver_inv (rs s)" "0 \<le> socket_fd (tr s)" "\<forall>u \<in> set (nonnull us). usable u"
    and "MAX_ENDPOINT_LEN \<le> length uri" "NUL \<notin> set uri"
  shows "fst (lnp_endpoints_set inet_aton fd (us @ Some uri # vs) s) = Inl OutOfBounds"
  using set_endpoints_loop_long [OF resolver_inv_remove [OF assms(1)] assms(3-5)] assms(2)
  by (simp add: lnp_endpoints_set_def tr_get_socket_fd_def Let_def)

text \<open>
  C23. A response put into the cache answers all three functions, without a request: its text, or
  NULL (the error column of the third function) when it was stored as an error.
\<close>

theorem lnp_cached_answer:
  assumes "response_table H" "cache_inv H (cache s)"
    and "short EC_KEY_MAX_LENGTH key" "short EC_RESPONSE_MAX_LENGTH response"
  shows "\<exists>s'. lnp_endpoints_cache_set H key response error s = (Inr None, s') \<and>
    fst (lnp_resolve_cnam H rand db key s') = Inr (if error then None else Some response) \<and>
    fst (lnp_resolve_tagged H rand True db key s') =
      Inr (if error then None else Some (Some response, None)) \<and>
    fst (lnp_resolve_tagged_with_error H rand True db key s') =
      Inr (if error then (None, None, Some response) else (Some response, None, None)) \<and>
    net (snd (lnp_resolve_cnam H rand db key s')) = net s \<and>
    net (snd (lnp_resolve_tagged H rand True db key s')) = net s \<and>
    net (snd (lnp_resolve_tagged_with_error H rand True db key s')) = net s"
proof -
  let ?e = "\<lparr>ec_response = padded EC_RESPONSE_MAX_LENGTH response, ec_error = error\<rparr>"
  obtain c1 where c1: "ec_store H key response error (cache s) = Inr (0, c1)" "cached H c1 key = Some ?e"
    using response_table.store_result [OF assms] assms(3) by metis
  obtain c2 where c2: "ec_find H key c1 = Inr (Some ?e, c2)"
    using response_table.find_result [OF assms(1,3), of c1] c1(2) by auto
  have "cstr (padded EC_RESPONSE_MAX_LENGTH response) = Inr response"
    using assms(4) by (simp add: padded_def short_def cstr_padded)
  then show ?thesis
    using c1(1) c2
    by (simp add: lnp_endpoints_cache_set_def lnp_resolve_cnam_def lnp_resolve_tagged_def
        lnp_resolve_tagged_with_error_def Let_def)
qed

text \<open>
  C21. A number that is not cached is asked for over the network: behind any confirmations
  and successful replies to other requests, the routing number and tag of the reply are the row.
\<close>

theorem lnp_resolve_tagged_answer:
  assumes "resolver_inv (rs s)" "0 < endpoints_count (rs s)" "0 \<le> socket_fd (tr s)"
    and "short EC_KEY_MAX_LENGTH data" "cached H (cache s) data = None"
    and "gen_request_id rand (rng s) (next_id s) = (i, rng1, id1)"
    and "retry_eintr (sends (net s)) = Inr (SysOk (length data + TAGGED_HDR_SIZE), ss)"
    and "retry_eintr (polls (net s)) = Inr (SysOk (Suc m), ps)"
    and "recvs (net s) = map SysOk ds @ SysOk (tagged_reply i lrn tag) # rest"
    and "\<forall>d \<in> set ds. other_reply i d" "length lrn + length tag < 256"
    and "NUL \<notin> set lrn" "NUL \<notin> set tag"
  shows "fst (lnp_resolve_tagged H rand True db data s) =
      Inr (Some (Some lrn, if tag = [] then None else Some tag)) \<and>
    fst (lnp_resolve_tagged_with_error H rand True db data s) =
      Inr (Some lrn, if tag = [] then None else Some tag, None)"
proof -
  let ?req = "lnp_request TAGGED_REQ_VERSION db data"
  have find: "\<exists>c. ec_find H data (cache s) = Inr (None, c)"
    using assms(4,5)
    by (auto simp: ec_find_def cached_def short_def set_key_buf_result split: option.splits)
  then obtain c where c: "ec_find H data (cache s) = Inr (None, c)" by blast
  let ?s = "s\<lparr>cache := c\<rparr>"
  have fits: "fits_msg ?req" "message_len ?req = length data + TAGGED_HDR_SIZE"
    "req_type ?req = TAGGED_REQ_VERSION"
    using assms(4)
    by (simp_all add: fits_msg_def message_len_def lnp_request_def short_def EC_KEY_MAX_LENGTH_def wire_sizes)
  have "\<exists>w'. resolve rand ?req response_zero None ?s = (Inr (0, tagged_result lrn tag i, None), w') \<and>
    recvs (net w') = rest \<and> ep_table (rs w') = ep_table (rs ?s)"
    by (rule resolve_tagged_result [where w = ?s]) (use assms fits in simp_all)
  then show ?thesis
    using c assms(12,13)
    by (auto simp: lnp_resolve_tagged_def lnp_resolve_tagged_with_error_def attribute_def tagged_result_def Let_def)
qed

text \<open>
  C22. The same for the name of a caller: behind any confirmations and JSON replies to other
  requests, the JSON text of the reply to the request is the result, for a request and a reply that fit the buffer, and the endpoint stays the current one.
\<close>

theorem lnp_resolve_cnam_answer:
  assumes "resolver_inv (rs s)" "0 < endpoints_count (rs s)" "0 \<le> socket_fd (tr s)"
    and "short EC_KEY_MAX_LENGTH data" "cached H (cache s) data = None"
    and "gen_request_id rand (rng s) (next_id s) = (i, rng1, id1)"
    and "retry_eintr (sends (net s)) = Inr (SysOk (length data + CNAM_HDR_SIZE), ss)"
    and "retry_eintr (polls (net s)) = Inr (SysOk (Suc m), ps)"
    and "recvs (net s) = map SysOk ds @ SysOk (json_reply i d) # rest"
    and "\<forall>x \<in> set ds. other_json i x" "json_fits d"
  shows "\<exists>s'. lnp_resolve_cnam H rand db data s = (Inr (Some d), s') \<and>
    recvs (net s') = rest \<and> ep_table (rs s') = ep_table (rs s)"
proof -
  let ?req = "lnp_request CNAM_REQ_VERSION db data"
  have "\<exists>c. ec_find H data (cache s) = Inr (None, c)"
    using assms(4,5)
    by (auto simp: ec_find_def cached_def short_def set_key_buf_result split: option.splits)
  then obtain c where c: "ec_find H data (cache s) = Inr (None, c)" by blast
  let ?s = "s\<lparr>cache := c\<rparr>"
  have fits: "fits_msg ?req" "message_len ?req = length data + CNAM_HDR_SIZE"
    "req_type ?req = CNAM_REQ_VERSION"
    using assms(4)
    by (simp_all add: fits_msg_def message_len_def lnp_request_def short_def EC_KEY_MAX_LENGTH_def wire_sizes
        TAGGED_REQ_VERSION_def CNAM_REQ_VERSION_def)
  have "\<exists>w'. resolve rand ?req response_zero None ?s =
      (Inr (0, \<lparr>resp_id = i, is_confrm = False, val = Some d, val_1 = None, val_2 = None\<rparr>, None), w') \<and>
    recvs (net w') = rest \<and> ep_table (rs w') = ep_table (rs ?s)"
    by (rule resolve_json_result [where w = ?s]) (use assms fits in simp_all)
  then show ?thesis
    using c by (auto simp: lnp_resolve_cnam_def Let_def)
qed

section \<open>Witnesses\<close>

definition demo_session :: "nat sysres list \<Rightarrow> bytes sysres list \<Rightarrow> (nat, (bytes \<times> ec_entry) list) session" where
  "demo_session ps ms = world.extend (demo_world ps ms) \<lparr>cache = cache_new\<rparr>"

lemma demo_session_parts:
  "rs (demo_session ps ms) = rs (demo_world ps ms)" "tr (demo_session ps ms) = tr (demo_world ps ms)"
  "net (demo_session ps ms) = net (demo_world ps ms)" "rng (demo_session ps ms) = rng (demo_world ps ms)"
  "next_id (demo_session ps ms) = next_id (demo_world ps ms)" "cache (demo_session ps ms) = cache_new"
  by (simp_all add: demo_session_def world.extend_def demo_world_def)

lemma demo_uri:
  "usable ''udp://10.0.0.1:3020''" "accepted (\<lambda>_. Some 1) ''udp://10.0.0.1:3020''"
proof -
  have t: "uri_text (Some ''udp'') ''10.0.0.1'' (Some 3020) = ''udp://10.0.0.1:3020''"
    by (simp add: uri_text_def dec.simps digit_char_def char_of_def bit_0)
  then have "uri_ok (Some ''udp'') ''10.0.0.1'' (Some 3020)"
    by (simp add: uri_ok_def component_ok_def PROTOCOL_SIZE_def HOST_SIZE_def SOCKADDR_SIZE_def)
  from parseAddr_parts [OF this, of uri_zero] obtain u where
    u: "parseAddr (Some ''udp://10.0.0.1:3020'') (Some uri_zero) = Inr (0, Some u)" "cstr (host u) = Inr ''10.0.0.1''"
    unfolding t by (auto simp: uri_denotes_def)
  then have "NUL \<in> set (host u)" by (auto simp: cstr_def split: if_splits)
  with u show "usable ''udp://10.0.0.1:3020''" "accepted (\<lambda>_. Some 1) ''udp://10.0.0.1:3020''"
    by (simp_all add: usable_def accepted_def short_def MAX_ENDPOINT_LEN_def)
qed

theorem lnp_endpoints_set_show_witness:
  "\<exists>s'. lnp_endpoints_set (\<lambda>_. Some 1) 3 [Some ''udp://10.0.0.1:3020'', None] (demo_session [] []) = (Inr None, s') \<and>
    lnp_endpoints_show True (rs s') = Inr [Some (''0'', ''udp://10.0.0.1:3020'')]"
proof -
  have "dec 0 = ''0''" by (simp add: dec.simps digit_char_def char_of_def bit_0)
  then show ?thesis
    using lnp_endpoints_set_show [of "demo_session [] []" 3 "[Some ''udp://10.0.0.1:3020'', None]" "\<lambda>_. Some 1"]
    by (simp add: demo_session_parts demo_ok demo_uri MAX_ENDPOINTS_def) blast
qed

theorem lnp_cached_answer_witness:
  "\<exists>s'. lnp_endpoints_cache_set alist_table ''49123'' ''7'' False (demo_session [] []) = (Inr None, s') \<and>
    fst (lnp_resolve_cnam alist_table (\<lambda>r. (r, r)) 1 ''49123'' s') = Inr (Some ''7'')"
  using lnp_cached_answer [OF alist_responses.response_table_axioms, of "demo_session [] []" "''49123''" "''7''"
      False "\<lambda>r. (r, r)" 1]
  by (auto simp: demo_session_parts cache_inv_new short_def EC_KEY_MAX_LENGTH_def EC_RESPONSE_MAX_LENGTH_def)

theorem lnp_resolve_tagged_answer_witness:
  "fst (lnp_resolve_tagged alist_table (\<lambda>r. (r, r)) True 1 ''12''
      (demo_session [SysOk 1] [SysOk (confirmation 8), SysOk (tagged_reply 5 ''1'' ''x''), SysOk (tagged_reply 8 ''49'' ''t'')])) =
    Inr (Some (Some ''49'', Some ''t''))"
proof -
  let ?s = "demo_session [SysOk 1] [SysOk (confirmation 8), SysOk (tagged_reply 5 ''1'' ''x''), SysOk (tagged_reply 8 ''49'' ''t'')]"
  have "recvs (net ?s) = map SysOk [confirmation 8, tagged_reply 5 ''1'' ''x''] @ SysOk (tagged_reply 8 ''49'' ''t'') # []"
    by (simp add: demo_session_parts demo_ok)
  from lnp_resolve_tagged_answer [OF _ _ _ _ _ _ _ _ this demo_datagrams, of "''12''" alist_table
      "\<lambda>r. (r, r)" 0 8 "[SysOk 9]" 0 "[]" 1]
  show ?thesis
    by (simp add: demo_session_parts demo_ok short_def EC_KEY_MAX_LENGTH_def cached_def cache_new_def
        TAGGED_HDR_SIZE_def)
qed

theorem lnp_resolve_cnam_answer_witness:
  "\<exists>s'. lnp_resolve_cnam alist_table (\<lambda>r. (r, r)) 1 ''12''
      ((demo_session [SysOk 1] [SysOk (confirmation 8), SysOk (json_reply 5 ''{}''), SysOk (json_reply 8 ''[7]'')])
        \<lparr>net := \<lparr>sends = [SysOk 12], polls = [SysOk 1],
           recvs = [SysOk (confirmation 8), SysOk (json_reply 5 ''{}''), SysOk (json_reply 8 ''[7]'')], sent = []\<rparr>\<rparr>) =
    (Inr (Some ''[7]''), s')"
proof -
  let ?ds = "[confirmation 8, json_reply 5 ''{}'']"
  let ?s = "(demo_session [SysOk 1] [SysOk (confirmation 8), SysOk (json_reply 5 ''{}''), SysOk (json_reply 8 ''[7]'')])
        \<lparr>net := \<lparr>sends = [SysOk 12], polls = [SysOk 1],
           recvs = [SysOk (confirmation 8), SysOk (json_reply 5 ''{}''), SysOk (json_reply 8 ''[7]'')], sent = []\<rparr>\<rparr>"
  have r: "recvs (net ?s) = map SysOk ?ds @ SysOk (json_reply 8 ''[7]'') # []" by simp
  have fits: "json_fits ''[7]''" "json_fits ''{}''" by (simp_all add: json_fits_def wire_sizes)
  have "other_json 8 (json_reply 5 ''{}'')"
    unfolding other_json_def by (rule disjI2, rule exI [of _ 5], rule exI [of _ "''{}''"]) (simp add: fits)
  then have "\<forall>x \<in> set ?ds. other_json 8 x" by (auto simp: other_json_def)
  from lnp_resolve_cnam_answer [OF _ _ _ _ _ _ _ _ r this fits(1), of "''12''" alist_table
      "\<lambda>r. (r, r)" 0 8 "[]" 0 "[]" 1]
  show ?thesis
    by (auto simp: demo_session_parts demo_ok short_def EC_KEY_MAX_LENGTH_def cached_def cache_new_def
        CNAM_HDR_SIZE_def)
qed

end
