(* ===== verification/Tbf.thy ===== *)
theory Tbf
  imports Complex_Main Dynahash
begin

text \<open>
  The token bucket filter of src/f_tbf_rate_check.c: \<open>tbf_rate_check(namespace, bucket,
  rate)\<close> over a hash table in shared memory, and the hooks that set the memory up (for
  PostgreSQL 15 and later). Floating-point arithmetic is a parameter: \<open>fl4\<close> and \<open>fl8\<close> round a
  rational result to \<open>float4\<close> and to double, and \<open>seconds\<close> is \<open>INSTR_TIME_GET_DOUBLE\<close> of a time
  in nanoseconds. A conversion to \<open>Size\<close> that C leaves undefined is the fault
  \<open>BadConversion\<close>. The lock makes each call one step.
\<close>

section \<open>The program\<close>

datatype float4 = Finite rat | Infinity | NaN

record fp =
  fl4 :: "rat \<Rightarrow> rat"
  fl8 :: "rat \<Rightarrow> rat"
  seconds :: "int \<Rightarrow> rat"

text \<open>
  The key is a struct of an \<open>int32\<close> and an \<open>int64\<close>, hashed as a blob with the four bytes of
  padding between them, which the code does not set.
\<close>

record tbf_key =
  namespace_id :: int
  padding :: "32 word"
  bucket_id :: int

text \<open>Keys are ordered field by field, so that ordered tables can hold the buckets.\<close>

instantiation tbf_key_ext :: (linorder) linorder
begin

definition less_eq_tbf_key_ext :: "'a tbf_key_ext \<Rightarrow> 'a tbf_key_ext \<Rightarrow> bool" where
  "less_eq_tbf_key_ext k l \<longleftrightarrow>
     namespace_id k < namespace_id l \<or> namespace_id k = namespace_id l \<and>
       (padding k < padding l \<or> padding k = padding l \<and>
         (bucket_id k < bucket_id l \<or> bucket_id k = bucket_id l \<and> tbf_key.more k \<le> tbf_key.more l))"

definition less_tbf_key_ext :: "'a tbf_key_ext \<Rightarrow> 'a tbf_key_ext \<Rightarrow> bool" where
  "less_tbf_key_ext k l \<longleftrightarrow> k \<le> l \<and> \<not> l \<le> k"

instance
  by standard (auto simp: less_eq_tbf_key_ext_def less_tbf_key_ext_def intro: tbf_key.equality)

end

record tbf_entry =
  updated_at :: int
  tokens :: nat

type_synonym 'h tbf_ops = "('h, tbf_key, tbf_entry) hash_ops"

definition to_size :: "rat \<Rightarrow> nat res" where
  "to_size x = (if -1 < x \<and> x < 2 ^ 64 then Inr (nat \<lfloor>x\<rfloor>) else Inl BadConversion)"

text \<open>\<open>bucket_max_size = rate*2\<close>, at least 1.\<close>

definition bucket_max_size :: "fp \<Rightarrow> float4 \<Rightarrow> nat res" where
  "bucket_max_size F rate =
     (case rate of
        Finite q \<Rightarrow> rbind (to_size (fl4 F (q * 2))) (\<lambda>n. Inr (if n < 1 then 1 else n))
      | _ \<Rightarrow> Inl BadConversion)"

text \<open>\<open>entry->tokens += rate*INSTR_TIME_GET_DOUBLE(diff)\<close>, in double arithmetic.\<close>

definition add_tokens :: "fp \<Rightarrow> rat \<Rightarrow> tbf_entry \<Rightarrow> int \<Rightarrow> nat res" where
  "add_tokens F q e now =
     to_size (fl8 F (fl8 F (of_nat (tokens e)) + fl8 F (q * seconds F (now - updated_at e))))"

text \<open>
  \<open>tbf\<close> tells whether the shared memory was set up, \<open>room\<close> whether \<open>HASH_ENTER\<close> can still
  allocate an entry (otherwise it raises), \<open>pad\<close> is what the padding of the key holds.
\<close>

definition tbf_rate_check ::
  "fp \<Rightarrow> 'h tbf_ops \<Rightarrow> ('h \<Rightarrow> bool) \<Rightarrow> bool \<Rightarrow> 32 word \<Rightarrow> int \<Rightarrow> int option \<Rightarrow> int option \<Rightarrow> float4 option
     \<Rightarrow> 'h \<Rightarrow> (bool \<times> 'h) res" where
  "tbf_rate_check F H room tbf pad now ns_arg bucket_arg rate_arg t =
     (if \<not> tbf then Inr (True, t)
      else case (ns_arg, bucket_arg, rate_arg) of
        (Some ns, Some bucket, Some rate) \<Rightarrow>
          (if rate = Finite 0 then Inr (False, t)
           else
             (let key = \<lparr>namespace_id = ns, padding = pad, bucket_id = bucket\<rparr>
              in rbind (bucket_max_size F rate) (\<lambda>bmax.
                (case hs_find H t key of
                   None \<Rightarrow>
                     if room t then Inr (True, hs_put H t key \<lparr>updated_at = now, tokens = bmax - 1\<rparr>)
                     else Inl (PgError ''out of shared memory'')
                 | Some e \<Rightarrow>
                     (case rate of
                        Finite q \<Rightarrow>
                          rbind (add_tokens F q e now) (\<lambda>tk.
                            if tk > 0
                            then (let tk1 = (if tk > bmax then bmax else tk)
                                  in Inr (True, hs_put H t key \<lparr>updated_at = now, tokens = tk1 - 1\<rparr>))
                            else Inr (False, hs_put H t key (e\<lparr>tokens := tk\<rparr>)))
                      | _ \<Rightarrow> Inl BadConversion)))))
      | _ \<Rightarrow> Inr (True, t))"

text \<open>Calls for one bucket and rate at the given times.\<close>

fun tbf_calls ::
  "fp \<Rightarrow> 'h tbf_ops \<Rightarrow> ('h \<Rightarrow> bool) \<Rightarrow> 32 word \<Rightarrow> int \<Rightarrow> int \<Rightarrow> float4 \<Rightarrow> int list \<Rightarrow> 'h \<Rightarrow> bool list res" where
  "tbf_calls F H room pad ns bucket rate [] t = Inr []"
| "tbf_calls F H room pad ns bucket rate (now # ts) t =
     rbind (tbf_rate_check F H room True pad now (Some ns) (Some bucket) (Some rate) t)
       (\<lambda>(ok, t'). rbind (tbf_calls F H room pad ns bucket rate ts t') (\<lambda>oks. Inr (ok # oks)))"

text \<open>
  Calls of any backends for any buckets, in the order in which they get the lock, with the
  answer of each: a call that raises ends in its own backend and leaves the table as it was.
\<close>

record tbf_call =
  call_time :: int
  call_key :: tbf_key
  call_rate :: float4

definition serve ::
  "fp \<Rightarrow> 'h tbf_ops \<Rightarrow> ('h \<Rightarrow> bool) \<Rightarrow> tbf_call \<Rightarrow> 'h \<Rightarrow> (bool \<times> 'h) res" where
  "serve F H room x t =
     tbf_rate_check F H room True (padding (call_key x)) (call_time x)
       (Some (namespace_id (call_key x))) (Some (bucket_id (call_key x))) (Some (call_rate x)) t"

fun tbf_trace ::
  "fp \<Rightarrow> 'h tbf_ops \<Rightarrow> ('h \<Rightarrow> bool) \<Rightarrow> tbf_call list \<Rightarrow> 'h \<Rightarrow> bool res list" where
  "tbf_trace F H room [] t = []"
| "tbf_trace F H room (x # xs) t =
     (case serve F H room x t of
        Inl f \<Rightarrow> Inl f # tbf_trace F H room xs t
      | Inr (ok, t') \<Rightarrow> Inr ok # tbf_trace F H room xs t')"

text \<open>The answer to a new bucket when the shared memory has no room for it.\<close>

definition refused :: "'a res" where
  "refused = Inl (PgError ''out of shared memory'')"

section \<open>The hooks\<close>

datatype hook = NoHook | TbfRequest | TbfStartup | OtherHook nat

record hooks =
  shmem_request_hook :: hook
  shmem_startup_hook :: hook
  prev_shmem_request_hook :: hook
  prev_shmem_startup_hook :: hook
  tbf_attached :: bool

definition tbf_init :: "bool \<Rightarrow> hooks \<Rightarrow> hooks" where
  "tbf_init preloading h =
     (if \<not> preloading then h
      else h\<lparr>prev_shmem_request_hook := shmem_request_hook h, shmem_request_hook := TbfRequest,
             prev_shmem_startup_hook := shmem_startup_hook h, shmem_startup_hook := TbfStartup\<rparr>)"

text \<open>The startup hook: the hooks it calls, in order, and the state after it.\<close>

definition tbf_shmem_startup :: "hooks \<Rightarrow> hook list \<times> hooks" where
  "tbf_shmem_startup h =
     (if prev_shmem_startup_hook h \<noteq> NoHook then [prev_shmem_startup_hook h] else [],
      h\<lparr>tbf_attached := True\<rparr>)"

definition tbf_shmem_request :: "hooks \<Rightarrow> hook list" where
  "tbf_shmem_request h =
     (if prev_shmem_request_hook h \<noteq> NoHook then [prev_shmem_request_hook h] else [])"

definition tbf_fini :: "hooks \<Rightarrow> hooks" where
  "tbf_fini h =
     (if tbf_attached h
      then h\<lparr>shmem_request_hook := prev_shmem_request_hook h,
             shmem_startup_hook := prev_shmem_startup_hook h\<rparr>
      else h)"

lemma hooks_restored:
  "let h' = tbf_fini (snd (tbf_shmem_startup (tbf_init True h)))
   in shmem_request_hook h' = shmem_request_hook h \<and> shmem_startup_hook h' = shmem_startup_hook h"
  by (simp add: tbf_fini_def tbf_shmem_startup_def tbf_init_def)

section \<open>The arithmetic\<close>

text \<open>
  What the bound below asks of the arithmetic: up to \<open>M\<close>, rounding to double adds at most
  \<open>d\<close> and keeps results non-negative, and so does the conversion to seconds.
\<close>

definition fp_error :: "fp \<Rightarrow> rat \<Rightarrow> rat \<Rightarrow> bool" where
  "fp_error F M d \<longleftrightarrow>
     (\<forall>x. 0 \<le> x \<and> x \<le> M \<longrightarrow> 0 \<le> fl8 F x \<and> fl8 F x \<le> x + d) \<and>
     (\<forall>n. 0 \<le> n \<longrightarrow> 0 \<le> seconds F n \<and> seconds F n \<le> of_int n / 10 ^ 9 + d)"

lemma to_size_ok: "0 \<le> x \<Longrightarrow> x < 2 ^ 64 \<Longrightarrow> \<exists>n. to_size x = Inr n \<and> of_nat n \<le> x"
  by (auto simp: to_size_def)

text \<open>Adding tokens never faults in range, and adds at most \<open>(q + 3) * d\<close> too much.\<close>

lemma add_tokens_bound:
  assumes fp: "fp_error F M d" and d: "0 \<le> d" and q: "0 \<le> q" and dt: "updated_at e \<le> now"
    and M: "of_nat (tokens e) + q * (of_int (now - updated_at e) / 10 ^ 9) + (q + 3) * d \<le> M"
      "M < 2 ^ 64 - d"
  shows "\<exists>n. add_tokens F q e now = Inr n \<and>
    of_nat n \<le> of_nat (tokens e) + q * (of_int (now - updated_at e) / 10 ^ 9) + (q + 3) * d"
proof -
  let ?s = "seconds F (now - updated_at e)" and ?g = "of_int (now - updated_at e) / 10 ^ 9 :: rat"
  let ?t = "of_nat (tokens e) :: rat"
  have "0 \<le> now - updated_at e" using dt by simp
  then have s: "0 \<le> ?s" "?s \<le> ?g + d" using fp unfolding fp_error_def by blast+
  have g: "0 \<le> ?g" using dt by simp
  have fl: "0 \<le> fl8 F x \<and> fl8 F x \<le> x + d" if "0 \<le> x" "x \<le> M" for x
    using fp that by (simp add: fp_error_def)
  have qs: "0 \<le> q * ?s" "q * ?s \<le> q * ?g + q * d"
    using s q mult_left_mono [of ?s "?g + d" q] by (simp_all add: distrib_left)
  have nn: "0 \<le> q * ?g" "0 \<le> q * d" using g q d by simp_all
  have M': "?t + q * ?g + (q * d + 3 * d) \<le> M" using M(1) by (simp add: distrib_right)
  have p: "0 \<le> fl8 F (q * ?s)" "fl8 F (q * ?s) \<le> q * ?g + q * d + d"
    using fl [of "q * ?s"] qs M' d nn by auto
  have a: "0 \<le> fl8 F ?t" "fl8 F ?t \<le> ?t + d"
    using fl [of ?t] M' d nn by auto
  have r: "0 \<le> fl8 F (fl8 F ?t + fl8 F (q * ?s))"
    "fl8 F (fl8 F ?t + fl8 F (q * ?s)) \<le> ?t + q * ?g + (q * d + 3 * d)"
    using fl [of "fl8 F ?t + fl8 F (q * ?s)"] p a M' d nn by auto
  then have "fl8 F (fl8 F ?t + fl8 F (q * ?s)) < 2 ^ 64" using M' M(2) d by linarith
  from to_size_ok [OF r(1) this] r(2) show ?thesis
    by (auto simp: add_tokens_def distrib_right)
qed

text \<open>The other direction: rounding takes away at most \<open>d\<close>.\<close>

definition fp_loss :: "fp \<Rightarrow> rat \<Rightarrow> rat \<Rightarrow> bool" where
  "fp_loss F M d \<longleftrightarrow>
     (\<forall>x. 0 \<le> x \<and> x \<le> M \<longrightarrow> x - d \<le> fl8 F x) \<and>
     (\<forall>n. 0 \<le> n \<longrightarrow> of_int n / 10 ^ 9 - d \<le> seconds F n)"

lemma to_size_pos: "1 \<le> x \<Longrightarrow> to_size x = Inr n \<Longrightarrow> 0 < n"
  by (auto simp: to_size_def split: if_splits)

lemma add_tokens_gain:
  assumes fp: "fp_error F M d" "fp_loss F M d" and d: "0 \<le> d" and q: "0 \<le> q" and dt: "updated_at e \<le> now"
    and M: "of_nat (tokens e) + q * (of_int (now - updated_at e) / 10 ^ 9) + (q + 3) * d \<le> M"
    and g: "1 + (q + 3) * d \<le> q * (of_int (now - updated_at e) / 10 ^ 9)"
    and n: "add_tokens F q e now = Inr n"
  shows "0 < n"
proof -
  let ?s = "seconds F (now - updated_at e)" and ?g = "of_int (now - updated_at e) / 10 ^ 9 :: rat"
  let ?t = "of_nat (tokens e) :: rat"
  have "0 \<le> now - updated_at e" using dt by simp
  then have s: "0 \<le> ?s" "?s \<le> ?g + d" "?g - d \<le> ?s"
    using fp unfolding fp_error_def fp_loss_def by blast+
  have fl: "0 \<le> fl8 F x \<and> fl8 F x \<le> x + d \<and> x - d \<le> fl8 F x" if "0 \<le> x" "x \<le> M" for x
    using fp that by (simp add: fp_error_def fp_loss_def)
  have qs: "0 \<le> q * ?s" "q * ?s \<le> q * ?g + q * d" "q * ?g - q * d \<le> q * ?s"
    using s q mult_left_mono [of ?s "?g + d" q] mult_left_mono [of "?g - d" ?s q]
    by (simp_all add: distrib_left right_diff_distrib)
  have nn: "0 \<le> q * ?g" "0 \<le> q * d" using dt q d by simp_all
  have M': "?t + q * ?g + (q * d + 3 * d) \<le> M" using M(1) by (simp add: distrib_right)
  have p: "0 \<le> fl8 F (q * ?s)" "fl8 F (q * ?s) \<le> q * ?g + q * d + d" "q * ?g - q * d - d \<le> fl8 F (q * ?s)"
    using fl [of "q * ?s"] qs M' d nn by auto
  have a: "0 \<le> fl8 F ?t" "fl8 F ?t \<le> ?t + d"
    using fl [of ?t] M' d nn by auto
  have "fl8 F ?t + fl8 F (q * ?s) - d \<le> fl8 F (fl8 F ?t + fl8 F (q * ?s))"
    using fl [of "fl8 F ?t + fl8 F (q * ?s)"] p a M' d nn by auto
  moreover have "1 + (q * d + 3 * d) \<le> q * ?g" using g by (simp add: distrib_right)
  ultimately have "1 \<le> fl8 F (fl8 F ?t + fl8 F (q * ?s))" using p(3) a(1) d nn(2) by linarith
  then show ?thesis using n to_size_pos by (simp add: add_tokens_def)
qed

section \<open>The bucket\<close>

text \<open>Tokens now and those the rate adds until the time \<open>T\<close>.\<close>

definition potential :: "rat \<Rightarrow> int \<Rightarrow> tbf_entry \<Rightarrow> rat" where
  "potential q T e = of_nat (tokens e) + q * (of_int (T - updated_at e) / 10 ^ 9)"

definition passes :: "bool list \<Rightarrow> nat" where
  "passes oks = length (filter (\<lambda>ok. ok) oks)"

text \<open>Times that are at least \<open>g\<close> apart, from the time \<open>l\<close> on.\<close>

fun paced :: "int \<Rightarrow> int \<Rightarrow> int list \<Rightarrow> bool" where
  "paced g l [] = True"
| "paced g l (t # ts) = (l + g \<le> t \<and> paced g t ts)"

lemma paced_last: "paced g l ts \<Longrightarrow> 0 \<le> g \<Longrightarrow> l \<le> last (l # ts)"
  by (induction g l ts rule: paced.induct) auto

locale bucket_table = hash_table H for H :: "'h tbf_ops"
begin

text \<open>
  One call on a known bucket pays for a pass with a token, and gains at most the rounding error.
\<close>

lemma call_known:
  fixes T t0 now :: int
  assumes fp: "fp_error F M d" "0 \<le> d" and q: "0 < q" and bmax: "bucket_max_size F (Finite q) = Inr B"
    and M: "of_nat B + q * (of_int (T - t0) / 10 ^ 9) + (q + 3) * d \<le> M" "M < 2 ^ 64 - d"
    and e: "hs_find H t \<lparr>namespace_id = ns, padding = pad, bucket_id = b\<rparr> = Some e"
      "tokens e \<le> B" "t0 \<le> updated_at e" "updated_at e \<le> now" "now \<le> T"
  shows "\<exists>ok e'. tbf_rate_check F H room True pad now (Some ns) (Some b) (Some (Finite q)) t =
      Inr (ok, hs_put H t \<lparr>namespace_id = ns, padding = pad, bucket_id = b\<rparr> e') \<and>
    tokens e' \<le> B \<and> t0 \<le> updated_at e' \<and> updated_at e' \<le> now \<and>
    potential q T e' + (if ok then 1 else 0) \<le> potential q T e + (q + 3) * d"
proof -
  let ?k = "\<lparr>namespace_id = ns, padding = pad, bucket_id = b\<rparr>"
  let ?g = "q * (of_int (now - updated_at e) / 10 ^ 9)"
  let ?h = "q * (of_int (T - now) / 10 ^ 9)"
  have err: "0 \<le> (q + 3) * d" using fp(2) q by simp
  have split: "q * (of_int (T - updated_at e) / 10 ^ 9) = ?g + ?h"
    by (simp add: field_simps)
  have "of_int (now - updated_at e) / 10 ^ 9 \<le> (of_int (T - t0) / 10 ^ 9 :: rat)"
    using e by (intro divide_right_mono) simp_all
  then have "?g \<le> q * (of_int (T - t0) / 10 ^ 9)" using q by (intro mult_left_mono) simp_all
  moreover have "(of_nat (tokens e) :: rat) \<le> of_nat B" using e(2) by simp
  ultimately have "of_nat (tokens e) + ?g + (q + 3) * d \<le> M" using M(1) by linarith
  from add_tokens_bound [OF fp less_imp_le [OF q] e(4) this M(2)] obtain n where
    n: "add_tokens F q e now = Inr n" "of_nat n \<le> of_nat (tokens e) + ?g + (q + 3) * d"
    by blast
  have call: "tbf_rate_check F H room True pad now (Some ns) (Some b) (Some (Finite q)) t =
    (if n > 0 then Inr (True, hs_put H t ?k \<lparr>updated_at = now, tokens = (if n > B then B else n) - 1\<rparr>)
     else Inr (False, hs_put H t ?k (e\<lparr>tokens := n\<rparr>)))"
    using q bmax e(1) n(1) by (simp add: tbf_rate_check_def Let_def)
  show ?thesis
  proof (cases "n > 0")
    case True
    let ?e = "\<lparr>updated_at = now, tokens = (if n > B then B else n) - 1\<rparr>"
    have B: "0 < B" using bmax by (auto simp: bucket_max_size_def res_simps split: if_splits)
    have "(of_nat ((if n > B then B else n) - 1) :: rat) + 1 \<le> of_nat n"
      using True B by (auto simp: of_nat_diff)
    then have "potential q T ?e + 1 \<le> potential q T e + (q + 3) * d"
      using n(2) split unfolding potential_def tbf_entry.select_convs by linarith
    then show ?thesis
      using True call e by (intro exI [of _ True] exI [of _ ?e]) auto
  next
    case False
    have "potential q T (e\<lparr>tokens := n\<rparr>) \<le> potential q T e + (q + 3) * d"
      using False err by (simp add: potential_def)
    then show ?thesis
      using False call e by (intro exI [of _ False] exI [of _ "e\<lparr>tokens := n\<rparr>"]) auto
  qed
qed

lemma calls_known:
  fixes T t0 :: int
  assumes fp: "fp_error F M d" "0 \<le> d" and q: "0 < q" and bmax: "bucket_max_size F (Finite q) = Inr B"
    and M: "of_nat B + q * (of_int (T - t0) / 10 ^ 9) + (q + 3) * d \<le> M" "M < 2 ^ 64 - d"
  shows "hs_find H t \<lparr>namespace_id = ns, padding = pad, bucket_id = b\<rparr> = Some e \<Longrightarrow>
    tokens e \<le> B \<Longrightarrow> t0 \<le> updated_at e \<Longrightarrow> sorted (updated_at e # ts) \<Longrightarrow> \<forall>x \<in> set ts. x \<le> T \<Longrightarrow>
    \<exists>oks. tbf_calls F H room pad ns b (Finite q) ts t = Inr oks \<and> length oks = length ts \<and>
      of_nat (passes oks) \<le> potential q T e - q * (of_int (T - (if ts = [] then updated_at e else last ts)) / 10 ^ 9)
        + of_nat (length ts) * ((q + 3) * d)"
proof (induction ts arbitrary: t e)
  case Nil
  then show ?case by (simp add: passes_def potential_def)
next
  case (Cons now ts)
  let ?k = "\<lparr>namespace_id = ns, padding = pad, bucket_id = b\<rparr>" and ?err = "(q + 3) * d"
  obtain ok e' where c: "tbf_rate_check F H room True pad now (Some ns) (Some b) (Some (Finite q)) t =
      Inr (ok, hs_put H t ?k e')"
    "tokens e' \<le> B" "t0 \<le> updated_at e'" "updated_at e' \<le> now"
    "potential q T e' + (if ok then 1 else 0) \<le> potential q T e + ?err"
    using call_known [OF fp q bmax M Cons.prems(1-3), of now room] Cons.prems(4,5) by auto
  have "sorted (updated_at e' # ts)" using c(4) Cons.prems(4) by auto
  from Cons.IH [OF _ c(2,3) this, of "hs_put H t ?k e'"] Cons.prems(5) obtain oks where
    o: "tbf_calls F H room pad ns b (Finite q) ts (hs_put H t ?k e') = Inr oks" "length oks = length ts"
      "of_nat (passes oks) \<le> potential q T e' - q * (of_int (T - (if ts = [] then updated_at e' else last ts)) / 10 ^ 9)
        + of_nat (length ts) * ?err"
    by (auto simp: lookup_insert)
  have "q * (of_int (T - (if ts = [] then now else last ts)) / 10 ^ 9) \<le>
      q * (of_int (T - (if ts = [] then updated_at e' else last ts)) / 10 ^ 9)"
    using q c(4) by (intro mult_left_mono divide_right_mono) simp_all
  moreover have "(of_nat (passes (ok # oks)) :: rat) = of_nat (passes oks) + (if ok then 1 else 0)"
    by (simp add: passes_def)
  moreover have "of_nat (length (now # ts)) * ?err = of_nat (length ts) * ?err + ?err"
    by (simp add: distrib_right)
  ultimately have "of_nat (passes (ok # oks)) \<le>
      potential q T e - q * (of_int (T - (if ts = [] then now else last ts)) / 10 ^ 9)
        + of_nat (length (now # ts)) * ?err"
    using o(3) c(5) by linarith
  then show ?case using c(1) o(1,2) by auto
qed

text \<open>Callers that leave the bucket the time for one token always pass.\<close>

lemma calls_paced:
  fixes T t0 g :: int
  assumes fp: "fp_error F M d" "fp_loss F M d" "0 \<le> d" and q: "0 < q" and g: "0 \<le> g"
    and bmax: "bucket_max_size F (Finite q) = Inr B"
    and M: "of_nat B + q * (of_int (T - t0) / 10 ^ 9) + (q + 3) * d \<le> M" "M < 2 ^ 64 - d"
    and gain: "1 + (q + 3) * d \<le> q * (of_int g / 10 ^ 9)"
  shows "hs_find H t \<lparr>namespace_id = ns, padding = pad, bucket_id = b\<rparr> = Some e \<Longrightarrow>
    tokens e \<le> B \<Longrightarrow> t0 \<le> updated_at e \<Longrightarrow> paced g (updated_at e) ts \<Longrightarrow>
    last (updated_at e # ts) \<le> T \<Longrightarrow>
    tbf_calls F H room pad ns b (Finite q) ts t = Inr (replicate (length ts) True)"
proof (induction ts arbitrary: t e)
  case (Cons now ts)
  let ?k = "\<lparr>namespace_id = ns, padding = pad, bucket_id = b\<rparr>"
  let ?dt = "of_int (now - updated_at e) / 10 ^ 9 :: rat"
  have p: "updated_at e + g \<le> now" "paced g now ts" "last (now # ts) \<le> T"
    using Cons.prems(4,5) by simp_all
  then have le: "updated_at e \<le> now" "now \<le> T" using g paced_last [OF p(2) g] by linarith+
  have "?dt \<le> of_int (T - t0) / 10 ^ 9"
    using le Cons.prems(3) by (intro divide_right_mono) simp_all
  then have "q * ?dt \<le> q * (of_int (T - t0) / 10 ^ 9)" using q by (intro mult_left_mono) simp_all
  moreover have "(of_nat (tokens e) :: rat) \<le> of_nat B" using Cons.prems(2) by simp
  ultimately have M': "of_nat (tokens e) + q * ?dt + (q + 3) * d \<le> M" using M(1) by linarith
  have "(of_int g :: rat) \<le> of_int (now - updated_at e)" using p(1) by (subst of_int_le_iff) linarith
  then have "(of_int g / 10 ^ 9 :: rat) \<le> ?dt" by (intro divide_right_mono) simp_all
  then have "q * (of_int g / 10 ^ 9) \<le> q * ?dt" using q by (intro mult_left_mono) simp_all
  then have gain': "1 + (q + 3) * d \<le> q * ?dt" using gain by linarith
  obtain n where n: "add_tokens F q e now = Inr n"
    using add_tokens_bound [OF fp(1,3) less_imp_le [OF q] le(1) M' M(2)] by blast
  have pos: "0 < n" by (rule add_tokens_gain [OF fp less_imp_le [OF q] le(1) M' gain' n])
  let ?e = "\<lparr>updated_at = now, tokens = (if n > B then B else n) - 1\<rparr>"
  have call: "tbf_rate_check F H room True pad now (Some ns) (Some b) (Some (Finite q)) t = Inr (True, hs_put H t ?k ?e)"
    using q bmax Cons.prems(1) n pos by (simp add: tbf_rate_check_def Let_def)
  have "tbf_calls F H room pad ns b (Finite q) ts (hs_put H t ?k ?e) = Inr (replicate (length ts) True)"
    using p(2,3) le(1) Cons.prems(3)
    by (intro Cons.IH [where e = ?e]) (auto simp: lookup_insert simp del: last.simps)
  then show ?case using call by simp
qed simp

text \<open>A call looks at its own bucket only, and changes no other one.\<close>

lemma key_eta: "\<lparr>namespace_id = namespace_id k, padding = padding k, bucket_id = bucket_id k\<rparr> = (k :: tbf_key)"
  by simp

lemma serve_step:
  assumes "hs_find H t (call_key x) = hs_find H u (call_key x)"
  shows "case serve F H room x t of
      Inl f \<Rightarrow> serve F H room x t = refused \<and> hs_find H t (call_key x) = None \<and> \<not> room t
        \<or> f \<noteq> PgError ''out of shared memory'' \<and> serve F H (\<lambda>_. True) x u = Inl f
    | Inr (ok, t') \<Rightarrow> \<exists>u'. serve F H (\<lambda>_. True) x u = Inr (ok, u') \<and>
        hs_find H t' (call_key x) = hs_find H u' (call_key x) \<and>
        (hs_find H t (call_key x) \<noteq> None \<longrightarrow> hs_find H t' (call_key x) \<noteq> None)"
  using assms unfolding serve_def tbf_rate_check_def Let_def option.case prod.case key_eta
  by (auto simp: refused_def rbind_Inl_iff bucket_max_size_def add_tokens_def to_size_def lookup_insert
      split: option.splits float4.splits sum.splits if_splits)

lemma serve_other:
  assumes "serve F H room x t = Inr (ok, t')" "call_key x \<noteq> l"
  shows "hs_find H t' l = hs_find H t l"
  using assms unfolding serve_def tbf_rate_check_def Let_def option.case prod.case key_eta
  by (auto simp: res_simps lookup_insert split: if_splits option.splits float4.splits)

lemma trace_isolated:
  assumes "hs_find H t k = hs_find H u k"
  shows "let served = filter (\<lambda>(x, r). call_key x = k \<and> r \<noteq> refused) (zip xs (tbf_trace F H room xs t))
    in map snd served = tbf_trace F H (\<lambda>_. True) (map fst served) u"
  using assms
proof (induction xs arbitrary: t u)
  case (Cons x xs)
  show ?case
  proof (cases "call_key x = k")
    case True
    note step = serve_step [of t x u F room, unfolded True, OF Cons.prems]
    show ?thesis
    proof (cases "serve F H room x t")
      case (Inl f)
      then show ?thesis using step Cons.IH [OF Cons.prems] True by (auto simp: refused_def Let_def)
    next
      case (Inr p)
      then obtain ok t' u' where "serve F H room x t = Inr (ok, t')" "serve F H (\<lambda>_. True) x u = Inr (ok, u')"
        "hs_find H t' k = hs_find H u' k"
        using step by (cases p) auto
      then show ?thesis using Cons.IH [of t' u'] True by (simp add: refused_def Let_def)
    qed
  next
    case False
    show ?thesis
    proof (cases "serve F H room x t")
      case (Inl f)
      then show ?thesis using Cons.IH [OF Cons.prems] False by simp
    next
      case (Inr p)
      obtain ok t' where p: "p = (ok, t')" by (cases p)
      have "hs_find H t' k = hs_find H u k"
        using serve_other [OF Inr [unfolded p] False] Cons.prems by simp
      then show ?thesis using Cons.IH [of t' u] Inr p False by simp
    qed
  qed
qed simp

lemma known_not_refused:
  "hs_find H t k \<noteq> None \<Longrightarrow> (x, r) \<in> set (zip xs (tbf_trace F H room xs t)) \<Longrightarrow> call_key x = k \<Longrightarrow> r \<noteq> refused"
proof (induction xs arbitrary: t)
  case (Cons y ys)
  note step = serve_step [of t y t F room, OF refl]
  show ?case
  proof (cases "serve F H room y t")
    case (Inl f)
    then show ?thesis using Cons step by (auto simp: refused_def)
  next
    case (Inr p)
    obtain ok t' where p: "p = (ok, t')" by (cases p)
    have "hs_find H t' k \<noteq> None"
    proof (cases "call_key y = k")
      case True
      then show ?thesis using step Inr p Cons.prems(1) by auto
    next
      case False
      then show ?thesis using serve_other [OF Inr [unfolded p]] Cons.prems(1) by simp
    qed
    then show ?thesis using Cons.IH [of t'] Cons.prems Inr p by (auto simp: refused_def)
  qed
qed simp

end

interpretation alist_buckets: bucket_table alist_table
  by unfold_locales

interpretation ordered_buckets: bucket_table rbt_table
  by unfold_locales

section \<open>Properties\<close>

text \<open>
  C1. The rate limit: of the calls for a new bucket from time \<open>t0\<close> on, all of which return, the
  first passes, and at most \<open>bucket_max_size + rate * elapsed\<close> of them pass, up to the rounding
  error of each call (none in exact arithmetic, \<open>d = 0\<close>).
\<close>

theorem tbf_rate_bound:
  assumes "bucket_table H" "fp_error F M d" "0 \<le> d" "0 < q" "bucket_max_size F (Finite q) = Inr B"
    and "sorted (t0 # ts)" "T = last (t0 # ts)"
    and "of_nat B + q * (of_int (T - t0) / 10 ^ 9) + (q + 3) * d \<le> M" "M < 2 ^ 64 - d"
    and "hs_find H t \<lparr>namespace_id = ns, padding = pad, bucket_id = b\<rparr> = None" "room t"
  shows "\<exists>oks. tbf_calls F H room pad ns b (Finite q) (t0 # ts) t = Inr (True # oks) \<and>
    length oks = length ts \<and>
    of_nat (passes (True # oks)) \<le>
      of_nat B + q * (of_int (T - t0) / 10 ^ 9) + of_nat (length ts) * ((q + 3) * d)"
proof -
  let ?k = "\<lparr>namespace_id = ns, padding = pad, bucket_id = b\<rparr>" and ?e = "\<lparr>updated_at = t0, tokens = B - 1\<rparr>"
  have B: "0 < B" using assms(5) by (auto simp: bucket_max_size_def res_simps split: if_splits)
  have first: "tbf_rate_check F H room True pad t0 (Some ns) (Some b) (Some (Finite q)) t =
      Inr (True, hs_put H t ?k ?e)"
    using assms(4,5,10,11) by (simp add: tbf_rate_check_def Let_def)
  have find: "hs_find H (hs_put H t ?k ?e) ?k = Some ?e"
    using keyed_store.lookup_insert [of "hs_find H" "hs_put H" "hs_del H"] assms(1)
    by (simp add: bucket_table_def hash_table_def)
  have "\<forall>x \<in> set ts. x \<le> T"
    using assms(6,7) by (cases ts rule: rev_cases) (auto simp: sorted_append)
  from bucket_table.calls_known [OF assms(1-5,8,9) find _ _ _ this, of room] obtain oks where
    oks: "tbf_calls F H room pad ns b (Finite q) ts (hs_put H t ?k ?e) = Inr oks" "length oks = length ts"
      "of_nat (passes oks) \<le> potential q T ?e - q * (of_int (T - (if ts = [] then updated_at ?e else last ts)) / 10 ^ 9)
        + of_nat (length ts) * ((q + 3) * d)"
    using assms(6) by auto
  have "T - (if ts = [] then updated_at ?e else last ts) = 0" using assms(7) by simp
  moreover have "potential q T ?e = of_nat B - 1 + q * (of_int (T - t0) / 10 ^ 9)"
    using B by (simp add: potential_def of_nat_diff)
  moreover have "(of_nat (passes (True # oks)) :: rat) = of_nat (passes oks) + 1"
    by (simp add: passes_def)
  ultimately have "of_nat (passes (True # oks)) \<le>
      of_nat B + q * (of_int (T - t0) / 10 ^ 9) + of_nat (length ts) * ((q + 3) * d)"
    using oks(3) by simp
  then show ?thesis using first oks(1,2) by auto
qed

definition exact_fp :: fp where
  "exact_fp = \<lparr>fl4 = (\<lambda>x. x), fl8 = (\<lambda>x. x), seconds = (\<lambda>n. of_int n / 10 ^ 9)\<rparr>"

lemma exact_fp_ok: "fp_error exact_fp M 0"
  by (simp add: fp_error_def exact_fp_def)

theorem tbf_rate_bound_witness:
  "\<exists>oks. tbf_calls exact_fp alist_table (\<lambda>_. True) 0 1 2 (Finite 1) [0, 10, 20, 1000000000] [] = Inr (True # oks) \<and>
    of_nat (passes (True # oks)) \<le> (3 :: rat)"
proof -
  have "bucket_max_size exact_fp (Finite 1) = Inr 2"
    by (simp add: bucket_max_size_def to_size_def exact_fp_def)
  from tbf_rate_bound [OF alist_buckets.bucket_table_axioms exact_fp_ok [of 1000] _ _ this, of 0 "[10, 20, 1000000000]"
      1000000000 "[]" 1 0 2 "\<lambda>_. True"]
  show ?thesis by (auto simp: alist_table_def)
qed

text \<open>
  C8. No starvation: a caller that waits for the time of one token between its calls (and the
  rounding error) passes every time; in exact arithmetic that time is 1/rate seconds.
\<close>

theorem tbf_paced_passes:
  assumes "bucket_table H" "fp_error F M d" "fp_loss F M d" "0 \<le> d" "0 < q"
    and "bucket_max_size F (Finite q) = Inr B"
    and "0 \<le> g" "paced g t0 ts" "1 + (q + 3) * d \<le> q * (of_int g / 10 ^ 9)"
    and "of_nat B + q * (of_int (last (t0 # ts) - t0) / 10 ^ 9) + (q + 3) * d \<le> M" "M < 2 ^ 64 - d"
    and "hs_find H t \<lparr>namespace_id = ns, padding = pad, bucket_id = b\<rparr> = None" "room t"
  shows "tbf_calls F H room pad ns b (Finite q) (t0 # ts) t = Inr (replicate (Suc (length ts)) True)"
proof -
  let ?k = "\<lparr>namespace_id = ns, padding = pad, bucket_id = b\<rparr>" and ?e = "\<lparr>updated_at = t0, tokens = B - 1\<rparr>"
  have first: "tbf_rate_check F H room True pad t0 (Some ns) (Some b) (Some (Finite q)) t =
      Inr (True, hs_put H t ?k ?e)"
    using assms(5,6,12,13) by (simp add: tbf_rate_check_def Let_def)
  have find: "hs_find H (hs_put H t ?k ?e) ?k = Some ?e"
    using keyed_store.lookup_insert [of "hs_find H" "hs_put H" "hs_del H"] assms(1)
    by (simp add: bucket_table_def hash_table_def)
  have "tbf_calls F H room pad ns b (Finite q) ts (hs_put H t ?k ?e) = Inr (replicate (length ts) True)"
    using bucket_table.calls_paced [OF assms(1-5,7,6,10,11,9) find] assms(8) by simp
  then show ?thesis using first by simp
qed

theorem tbf_paced_passes_witness:
  "tbf_calls exact_fp alist_table (\<lambda>_. True) 0 1 2 (Finite (1 / 2)) [0, 2000000000, 5000000000] [] =
     Inr [True, True, True]"
proof -
  have "bucket_max_size exact_fp (Finite (1 / 2)) = Inr 1"
    by (simp add: bucket_max_size_def to_size_def exact_fp_def)
  moreover have "fp_loss exact_fp 1000 0" by (simp add: fp_loss_def exact_fp_def)
  ultimately show ?thesis
    using tbf_paced_passes [OF alist_buckets.bucket_table_axioms exact_fp_ok [of 1000], of "1 / 2" 1 2000000000 0
        "[2000000000, 5000000000]" "[]" 1 0 2 "\<lambda>_. True"]
    by (simp add: alist_table_def)
qed

text \<open>
  C7. Buckets interfere only by filling the shared memory. In whatever order calls for many
  buckets and rates get the lock, whatever room the table has and whichever calls raise: the
  calls for one bucket that are not refused for lack of memory get, one after the other, the
  answers they would have got alone and with room enough; and no call for a bucket that is in
  the table is refused.
\<close>

theorem tbf_buckets_independent:
  assumes "bucket_table H"
  shows "let answered = zip xs (tbf_trace F H room xs t);
      served = filter (\<lambda>(x, r). call_key x = k \<and> r \<noteq> refused) answered
    in map snd served = tbf_trace F H (\<lambda>_. True) (map fst served) t \<and>
      (hs_find H t k \<noteq> None \<longrightarrow> served = filter (\<lambda>(x, r). call_key x = k) answered)"
proof -
  let ?answered = "zip xs (tbf_trace F H room xs t)"
  have "filter (\<lambda>(x, r). call_key x = k \<and> r \<noteq> refused) ?answered = filter (\<lambda>(x, r). call_key x = k) ?answered"
    if "hs_find H t k \<noteq> None"
  proof -
    have "(x, refused) \<in> set ?answered \<Longrightarrow> call_key x \<noteq> k" for x
      using bucket_table.known_not_refused [OF assms that] by blast
    then show ?thesis by (intro filter_cong) auto
  qed
  then show ?thesis
    using bucket_table.trace_isolated [OF assms refl] by (simp add: Let_def)
qed

text \<open>Three calls and a table with room for one bucket: the second call is refused.\<close>

definition demo_call :: "int \<Rightarrow> int \<Rightarrow> rat \<Rightarrow> tbf_call" where
  "demo_call now ns q = \<lparr>call_time = now, call_key = \<lparr>namespace_id = ns, padding = 0, bucket_id = 2\<rparr>,
     call_rate = Finite q\<rparr>"

theorem tbf_buckets_independent_witness:
  "tbf_trace exact_fp alist_table (\<lambda>t. t = []) [demo_call 0 1 (1 / 2), demo_call 1 3 5, demo_call 2 1 (1 / 2)] [] =
     [Inr True, refused, Inr False] \<and>
   tbf_trace exact_fp alist_table (\<lambda>_. True) [demo_call 0 1 (1 / 2), demo_call 2 1 (1 / 2)] [] =
     [Inr True, Inr False]"
proof -
  have b: "bucket_max_size exact_fp (Finite (1 / 2)) = Inr 1" "bucket_max_size exact_fp (Finite 5) = Inr 10"
    by (simp_all add: bucket_max_size_def to_size_def exact_fp_def)
  have run: "tbf_trace exact_fp alist_table (\<lambda>t. t = []) [demo_call 0 1 (1 / 2), demo_call 1 3 5, demo_call 2 1 (1 / 2)] [] =
      [Inr True, refused, Inr False]"
    by (simp add: serve_def demo_call_def tbf_rate_check_def b alist_table_def refused_def Let_def)
      (simp add: add_tokens_def to_size_def exact_fp_def)
  have "[Inr True, Inr False] =
      tbf_trace exact_fp alist_table (\<lambda>_. True) [demo_call 0 1 (1 / 2), demo_call 2 1 (1 / 2)] []"
    using tbf_buckets_independent [OF alist_buckets.bucket_table_axioms,
        where F = exact_fp and room = "\<lambda>t. t = []" and t = "[]" and
          xs = "[demo_call 0 1 (1 / 2), demo_call 1 3 5, demo_call 2 1 (1 / 2)]" and
          k = "\<lparr>namespace_id = 1, padding = 0, bucket_id = 2\<rparr>"]
    unfolding run by (simp add: refused_def demo_call_def)
  with run show ?thesis by simp
qed

text \<open>
  Without shared memory or with a NULL argument the call passes, a zero rate never does, and
  neither touches the table; an infinite rate, a NaN and a rate of at most -1/2 run into the
  undefined conversion of \<open>rate*2\<close>.
\<close>

lemma tbf_rate_check_guards:
  "tbf_rate_check F H room False pad now ns b r t = Inr (True, t) \<and>
   tbf_rate_check F H room True pad now None b r t = Inr (True, t) \<and>
   tbf_rate_check F H room True pad now ns None r t = Inr (True, t) \<and>
   tbf_rate_check F H room True pad now ns b None t = Inr (True, t) \<and>
   tbf_rate_check F H room True pad now (Some n) (Some k) (Some (Finite 0)) t = Inr (False, t) \<and>
   tbf_rate_check F H room True pad now (Some n) (Some k) (Some NaN) t = Inl BadConversion \<and>
   tbf_rate_check F H room True pad now (Some n) (Some k) (Some Infinity) t = Inl BadConversion \<and>
   tbf_rate_check exact_fp H room True pad now (Some n) (Some k) (Some (Finite (- 1 / 2 - of_nat m))) t =
     Inl BadConversion"
  by (simp add: tbf_rate_check_def bucket_max_size_def to_size_def exact_fp_def split: option.split)

text \<open>
  C39. The padding of the key takes part in the lookup: while the stack holds other bytes there
  than in the earlier calls, a call for the same bucket finds no entry and passes, whatever the
  rate has already used up, and the entries of the earlier calls stay as they are.
\<close>

theorem tbf_padding_passes:
  assumes "bucket_table H" "bucket_max_size F (Finite q) = Inr B" "q \<noteq> 0" "room t"
    and "hs_find H t \<lparr>namespace_id = ns, padding = pad, bucket_id = b\<rparr> = None" "pad' \<noteq> pad"
  shows "\<exists>t'. tbf_rate_check F H room True pad now (Some ns) (Some b) (Some (Finite q)) t = Inr (True, t') \<and>
    hs_find H t' \<lparr>namespace_id = ns, padding = pad', bucket_id = b\<rparr> =
      hs_find H t \<lparr>namespace_id = ns, padding = pad', bucket_id = b\<rparr>"
  using keyed_store.lookup_insert [of "hs_find H" "hs_put H" "hs_del H"] assms
  by (auto simp: tbf_rate_check_def Let_def bucket_table_def hash_table_def)

theorem tbf_padding_passes_witness:
  "\<exists>t'. tbf_rate_check exact_fp alist_table (\<lambda>_. True) True 1 5 (Some 7) (Some 8) (Some (Finite 1))
     [(\<lparr>namespace_id = 7, padding = 0, bucket_id = 8\<rparr>, \<lparr>updated_at = 5, tokens = 0\<rparr>)] = Inr (True, t')"
proof -
  have "bucket_max_size exact_fp (Finite 1) = Inr 2"
    by (simp add: bucket_max_size_def to_size_def exact_fp_def)
  from tbf_padding_passes [OF alist_buckets.bucket_table_axioms this, of "\<lambda>_. True"
      "[(\<lparr>namespace_id = 7, padding = 0, bucket_id = 8\<rparr>, \<lparr>updated_at = 5, tokens = 0\<rparr>)]" 7 1 8 0 5]
  show ?thesis by (auto simp: alist_table_def)
qed

end
