(* ===== verification/Extension.thy ===== *)
theory Extension
  imports Lnp Tbf
begin

text \<open>
  Loading and unloading: \<open>_PG_init\<close> of src/init.c and \<open>_PG_fini\<close> of src/fini.c, over
  the globals of all stateful modules. \<open>srand\<close> is a parameter.
\<close>

record ('r, 'h) backend = "('r, 'h) session" +
  hook_state :: hooks

text \<open>The globals as the loader leaves them, before \<open>_PG_init\<close>.\<close>

definition backend_new :: "'r \<Rightarrow> net \<Rightarrow> hooks \<Rightarrow> ('r, 'h) backend" where
  "backend_new g n h =
     \<lparr>rs = resolver_new, tr = transport_new, next_id = 0, rng = g, net = n, cache = cache_new, hook_state = h\<rparr>"

text \<open>\<open>Transport.init\<close> seeds the generator of the C library with the time.\<close>

definition tr_init :: "(nat \<Rightarrow> 'r) \<Rightarrow> nat \<Rightarrow> ('r, 'h) backend \<Rightarrow> ('r, 'h) backend" where
  "tr_init srand now b = b\<lparr>rng := srand now\<rparr>"

definition PG_init :: "(nat \<Rightarrow> 'r) \<Rightarrow> nat \<Rightarrow> bool \<Rightarrow> ('r, 'h) backend \<Rightarrow> ('r, 'h) backend" where
  "PG_init srand now preloading b =
     (let b1 = tr_init srand now b;
          b2 = b1\<lparr>rs := snd (resolver_init (rs b1))\<rparr>
      in b2\<lparr>hook_state := tbf_init preloading (hook_state b2)\<rparr>)"

definition PG_fini :: "'h ec_ops \<Rightarrow> ('r, 'h) backend \<Rightarrow> ('r, 'h) backend res" where
  "PG_fini H b =
     (let b1 = b\<lparr>tr := snd (tr_shutdown_socket (tr b))\<rparr>
      in rbind (ec_destroy H (cache b1)) (\<lambda>(_, c).
           Inr (b1\<lparr>cache := c, hook_state := tbf_fini (hook_state b1)\<rparr>)))"

section \<open>Properties\<close>

text \<open>
  C40. Unloading after any run of the socket's operations leaves no descriptor open and no cache
  behind, and puts back the hooks \<open>_PG_init\<close> replaced, when the startup hook has run.
\<close>

theorem PG_fini_releases:
  assumes "response_table H" "tr_run transport_new xs (tr b)"
    and "hook_state b = snd (tbf_shmem_startup (hook_state (PG_init srand now True b0)))"
  shows "\<exists>b'. PG_fini H b = Inr b' \<and> open_fds (tr b') = [] \<and> socket_fd (tr b') < 0 \<and>
    hash_tab (cache b') = None \<and>
    shmem_request_hook (hook_state b') = shmem_request_hook (hook_state b0) \<and>
    shmem_startup_hook (hook_state b') = shmem_startup_hook (hook_state b0)"
proof -
  have inv: "tr_inv (tr b)" using tr_inv_run [OF assms(2) tr_inv_new] .
  have shut: "open_fds (snd (tr_shutdown_socket (tr b))) = []" "socket_fd (snd (tr_shutdown_socket (tr b))) < 0"
    using inv by (auto simp: tr_inv_def tr_shutdown_socket_def split: if_splits)
  have "\<exists>r c. ec_destroy H (cache b) = Inr (r, c) \<and> hash_tab c = None"
    using response_table.remove_all_result [OF assms(1), of "cache b"]
    by (cases "hash_tab (cache b)") (auto simp: ec_destroy_def)
  then show ?thesis
    using shut hooks_restored [of "hook_state b0"]
    by (auto simp: PG_fini_def PG_init_def tr_init_def assms(3) Let_def)
qed

definition demo_backend :: "(nat, (bytes \<times> ec_entry) list) backend" where
  "demo_backend = backend_new 0 \<lparr>sends = [], polls = [], recvs = [], sent = []\<rparr>
    \<lparr>shmem_request_hook = OtherHook 1, shmem_startup_hook = NoHook, prev_shmem_request_hook = NoHook,
     prev_shmem_startup_hook = NoHook, tbf_attached = False\<rparr>"

text \<open>The demo backend after loading, the startup hook and the first \<open>lnp_set_timeout\<close>.\<close>

definition demo_loaded :: "(nat, (bytes \<times> ec_entry) list) backend" where
  "demo_loaded = (let b = PG_init (\<lambda>t. t) 5 True demo_backend
     in b\<lparr>tr := snd (tr_init_socket 3 (tr b)), hook_state := snd (tbf_shmem_startup (hook_state b))\<rparr>)"

theorem PG_fini_releases_witness:
  "open_fds (tr demo_loaded) = [3] \<and>
   (\<exists>b'. PG_fini alist_table demo_loaded = Inr b' \<and> open_fds (tr b') = [] \<and>
      shmem_request_hook (hook_state b') = OtherHook 1)"
proof -
  have t0: "tr (PG_init (\<lambda>t. t) 5 True demo_backend) = transport_new"
    by (simp add: PG_init_def tr_init_def Let_def demo_backend_def backend_new_def)
  have t1: "tr demo_loaded = snd (tr_init_socket 3 transport_new)"
    by (simp add: demo_loaded_def Let_def t0)
  have run: "tr_run transport_new [InitSocket 3] (tr demo_loaded)"
    unfolding t1 by (rule run_step, rule step_init, rule run_done)
  have hook: "hook_state demo_loaded =
      snd (tbf_shmem_startup (hook_state (PG_init (\<lambda>t. t) 5 True demo_backend)))"
    by (simp add: demo_loaded_def Let_def)
  have h0: "shmem_request_hook (hook_state demo_backend) = OtherHook 1"
    by (simp add: demo_backend_def backend_new_def)
  obtain b' where "PG_fini alist_table demo_loaded = Inr b'" "open_fds (tr b') = []"
    "shmem_request_hook (hook_state b') = shmem_request_hook (hook_state demo_backend)"
    using PG_fini_releases [OF alist_responses.response_table_axioms run hook] by blast
  moreover have "open_fds (tr demo_loaded) = [3]"
    by (simp add: t1 tr_init_socket_def tr_set_timeout_def transport_new_def)
  ultimately show ?thesis using h0 by auto
qed

end
