(* ===== verification/Spec2Isabelle.thy ===== *)
theory Spec2Isabelle
  imports Prelude Tag_Array Tag_Action Tag_Compare C_Strings Replace_Rand Templates Regexp_Replace
    Rank_Srv Uri_Parser Request_Id Transport Resolver_Wire Resolver Resolve Dynahash
    Endpoints_Cache Lnp Tbf Extension
begin

text \<open>
  A model of the C sources of yeti-pg-ext, the PostgreSQL extension behind the routing queries
  of the Yeti switch, and the properties that make it correct. File names are relative to the
  root of the repository.

  The program has two halves.

  The stateless SQL functions work on their arguments only:
  \<^item> \<open>Tag_Array\<close>, \<open>Tag_Action\<close>, \<open>Tag_Compare\<close> model src/f_tag_action.c and src/f_tag_compare.c, the
    set operations on routing tags and the four grades of match between tags. Arrays are in
    allocated room, so a store outside it is a fault. The properties state each operation as a
    set expression in order of first occurrence, and each match mode as a function of the
    sets, empty arrays apart.
  \<^item> \<open>Replace_Rand\<close> models src/replace_rand.c and src/f_replace_rand.c: \<open>r(n)\<close> becomes \<open>n\<close> digits.
    The properties are memory safety (cache and output buffer), the placeholders of any text
    by an inductive specification, and the exact result on templates.
  \<^item> \<open>Templates\<close> models src/f_process_templates.c. The properties give a language of templates
    whose meaning the scanner computes, and that every text is in it.
  \<^item> \<open>Regexp_Replace\<close> models src/f_regexp_replace_rand.c, which runs the regular expressions of
    PostgreSQL over pieces of a rule, then \<open>Templates\<close> and \<open>Replace_Rand\<close> on the result. The
    properties are: the first matching piece decides, the array version agrees with the text
    version on regular rules, and the argument slots are restored.
  \<^item> \<open>Rank_Srv\<close> models src/f_sort_srv.c, the weighted random order of DNS SRV records. The
    properties are that the ranks are a permutation and that the choice has the weights.

  The stateful half keeps globals in the backend and in shared memory:
  \<^item> \<open>Uri_Parser\<close> (src/uri_parser.c), \<open>Request_Id\<close> (src/request_id.c) and \<open>Transport\<close>
    (src/transport.c) are what the resolver is built from: addresses, a counter and the socket.
  \<^item> \<open>Resolver_Wire\<close>, \<open>Resolver\<close> and \<open>Resolve\<close> model src/resolver.c: the messages, the table of
    endpoints, and \<open>resolve\<close>, which sends a request to the current endpoint, goes round the
    others while none answers, and receives until a datagram answers the request. The invariant of
    the table holds in every reachable state; the parsers stay in their buffer on every datagram;
    a success is a matching reply; behind confirmations and successful replies to other
    requests, the matching reply is the answer and an error reply ends the call.
  \<^item> \<open>Dynahash\<close> holds the contract of the hash tables of PostgreSQL, \<open>Endpoints_Cache\<close>
    (src/endpoints_cache.c) and \<open>Tbf\<close> (src/f_tbf_rate_check.c) are its clients: the cache of
    mocked responses, and the token bucket filter: the number of calls that pass is bounded by
    the bucket and the rate, a caller that keeps the pace of the rate always passes, and calls
    for other buckets, in any interleaving, can only fill the memory a new bucket needs.
  \<^item> \<open>Lnp\<close> models the SQL functions src/f_lnp_endpoints_set.c, f_lnp_endpoints_show.c,
    f_lnp_endpoints_cache_set.c, f_lnp_set_timeout.c, f_lnp_set_rtt_timeout.c, f_lnp_resolve.c
    on top of the resolver and the cache, and \<open>Extension\<close> the load and unload functions of
    src/init.c and src/fini.c over all globals.

  \<open>Prelude\<close> and \<open>C_Strings\<close> hold what all share: faults and results, byte searches, C strings in
  fixed char arrays, the number scanners of the C library.

  How the code is translated. A struct is a record with the same fields, a C string or buffer a
  list of chars, a pointer into one an offset. \<open>uint32_t\<close> values that wrap are words, an
  \<open>int32\<close> that can overflow goes through \<open>to_int32\<close>. The globals of a module are a record that
  its functions take and return; the records of the modules extend into one another up to
  \<open>backend\<close>. A function that can go wrong returns \<open>'a res\<close>, where each kind of fault is a
  constructor: a read or write outside the object C allocated counts as a fault even where the
  next object would absorb it, and \<open>elog(ERROR)\<close> does not return. Loops are structural
  recursions, or functions whose termination is proved by a measure (the rest of the text, the
  datagrams still to come); nothing runs on fuel.

  Parameters of the model are the parts that are not in the repository: whether \<open>realloc\<close>
  succeeds and how much room \<open>palloc\<close> and \<open>repalloc\<close> give, \<open>rand\<close> and \<open>rand_r\<close>, the regular
  expression engine, the output function of \<open>numeric\<close>, \<open>inet_aton\<close>, the hash tables, floating-point
  rounding, and the results of the system calls, which are scripts the calls consume. What a
  theorem needs of them is a hypothesis (such as \<open>fp_error\<close> or a locale of \<open>Dynahash\<close>), and its
  witness gives an instance.

  The interfaces are locales: \<open>first_match\<close> (searches, interpreted by \<open>memchr\<close> and \<open>memmem\<close>),
  \<open>keyed_store\<close> and \<open>hash_table\<close> with \<open>response_table\<close> and \<open>bucket_table\<close> for its two clients
  (interpreted by association lists and red-black trees), \<open>array_set\<close> (a set in an array, for
  the tag operations) and \<open>string_slot\<close> (a string in a char array, for the two uses of \<open>strncpy\<close>).

  Not modelled: the texts of log lines, the release of memory, detoasting of arguments, the
  branches for PostgreSQL before 15, the requests for shared memory and its
  initialisation (only the hooks and whether it is attached are kept), and the lock of the
  token bucket filter, which makes each call one step. Integers are read from messages in
  little-endian order. The SQL scripts, tests and packaging are not C code.

  Some theorems state what the code does where that is surely not meant: an overrun for more
  than 20 SRV records, for long uris and for datagrams that fill the buffer, the unset padding of
  the bucket key, the failover that raises. They are stated as they are, and say exactly when
  the behaviour occurs.

  Open: concurrent calls of the token bucket filter whose clock values are out of order, rules of
  ten and more pieces in the array version, a model of \<open>inet_aton\<close>, and that every failure of
  \<open>resolve\<close> sets an error text.
\<close>

end
